(* ===== verification/Aether_Prelude.thy ===== *)
theory Aether_Prelude
  imports Main "HOL-Library.Word" "HOL-Library.Code_Target_Nat"
begin

text \<open>
  Shared vocabulary of the development.

  The sources compute with \<^verbatim>\<open>std::size_t\<close>, \<^verbatim>\<open>std::uint16_t\<close> and
  \<^verbatim>\<open>std::uint8_t\<close>.  Scalars of these types are natural numbers below the respective
  power of two, and every operation that may wrap is written with one of the operations
  \<open>sz_add\<close>, \<open>sz_sub\<close>, \<open>u16\<close>, \<open>u8\<close> below, so the wrap-around of the machine
  is part of the model.  A byte of a data buffer is an \<open>8 word\<close>.

  The collections \<open>size_simps\<close> and \<open>ring_simps\<close> carry the facts with which component
  proofs discharge the wrap-around.
\<close>

type_synonym byte = "8 word"

named_theorems size_simps "discharging wrap-around of size_t operations"
named_theorems ring_simps "normal forms of ring index operations"

subsection \<open>Unsigned machine arithmetic\<close>

abbreviation size_mod :: nat where
  "size_mod \<equiv> 2 ^ 64"

abbreviation size_max :: nat where
  "size_max \<equiv> 2 ^ 64 - 1"

definition sz_add :: "nat \<Rightarrow> nat \<Rightarrow> nat" where
  "sz_add a b = (a + b) mod size_mod"

definition sz_sub :: "nat \<Rightarrow> nat \<Rightarrow> nat" where
  "sz_sub a b = (a + (size_mod - b mod size_mod)) mod size_mod"

definition u16 :: "nat \<Rightarrow> nat" where
  "u16 x = x mod 2 ^ 16"

definition u8 :: "nat \<Rightarrow> nat" where
  "u8 x = x mod 2 ^ 8"

lemma size_mod_code [code_unfold]: "size_mod = 18446744073709551616"
  by simp

lemma sz_add_less: "sz_add a b < size_mod"
  by (simp add: sz_add_def)

lemma sz_sub_less: "sz_sub a b < size_mod"
  by (simp add: sz_sub_def)

lemma sz_add_exact [size_simps]: "a + b < size_mod \<Longrightarrow> sz_add a b = a + b"
  by (simp add: sz_add_def)

lemma sz_sub_exact [size_simps]:
  assumes "b \<le> a" "a < size_mod"
  shows "sz_sub a b = a - b"
proof -
  from assms have "a + (size_mod - b mod size_mod) = (a - b) + size_mod" by simp
  with assms show ?thesis unfolding sz_sub_def by (simp only: mod_add_self2) simp
qed

text \<open>Code equations that reduce modulo the word size only when a wrap occurs.\<close>

lemma sz_add_code [code]: "sz_add a b = (let c = a + b in if c < size_mod then c else c mod size_mod)"
  by (simp add: sz_add_def Let_def)

lemma sz_sub_code [code]:
  "sz_sub a b = (if b \<le> a \<and> a < size_mod then a - b else (a + (size_mod - b mod size_mod)) mod size_mod)"
proof (cases "b \<le> a \<and> a < size_mod")
  case True
  then show ?thesis by (simp add: sz_sub_exact)
next
  case False
  show ?thesis unfolding if_not_P [OF False] by (rule sz_sub_def)
qed

lemma sz_sub_wraps:
  assumes "a < b" "b < size_mod"
  shows "sz_sub a b = size_mod - (b - a)"
  using assms by (simp add: sz_sub_def)

lemma u16_exact [simp]: "x < 65536 \<Longrightarrow> u16 x = x"
  by (simp add: u16_def)

definition u32 :: "nat \<Rightarrow> nat" where
  "u32 x = x mod 2 ^ 32"

lemma u8_exact [simp]: "x < 256 \<Longrightarrow> u8 x = x"
  by (simp add: u8_def)

subsection \<open>Modular arithmetic on naturals\<close>

lemma mod_add_less:
  fixes a b m :: nat
  assumes "a < m" "b < m"
  shows "(a + b) mod m = (if a + b < m then a + b else a + b - m)"
  using assms by (auto simp: mod_if)

lemma mod_add_eq_iff:
  fixes a i j m :: nat
  assumes "i < m" "j < m"
  shows "(a + i) mod m = (a + j) mod m \<longleftrightarrow> i = j"
proof -
  have "(a + k) mod m = (a mod m + k) mod m" for k by (simp add: mod_simps)
  moreover have "a mod m < m" using assms by simp
  ultimately show ?thesis using assms by (auto simp: mod_add_less split: if_splits)
qed

subsection \<open>Overwriting a block of an array\<close>

text \<open>\<^verbatim>\<open>std::copy_n(src, n, dst + i)\<close> on an array that has room for the block.\<close>

definition overwrite :: "'a list \<Rightarrow> nat \<Rightarrow> 'a list \<Rightarrow> 'a list" where
  "overwrite xs i ys = take i xs @ ys @ drop (i + length ys) xs"

lemma length_overwrite [simp]:
  "i + length ys \<le> length xs \<Longrightarrow> length (overwrite xs i ys) = length xs"
  by (simp add: overwrite_def)

lemma nth_overwrite:
  assumes "i + length ys \<le> length xs" "j < length xs"
  shows "overwrite xs i ys ! j = (if i \<le> j \<and> j < i + length ys then ys ! (j - i) else xs ! j)"
  using assms by (auto simp: overwrite_def nth_append min_def)

lemma take_own_length: "xs = take k ys \<Longrightarrow> xs = take (length xs) ys"
  by (simp add: min_def)

end
