(* ===== verification/Ring_Index.thy ===== *)
theory Ring_Index
  imports Aether_Prelude
begin

text \<open>
  \<^verbatim>\<open>aether/types/ring_index.h\<close>: indices of a ring of \<open>Max\<close> positions.

  A \<^verbatim>\<open>RingIndex<Max>\<close> has the single field \<^verbatim>\<open>value_\<close> of type \<^verbatim>\<open>std::size_t\<close>; it is
  modelled by that value, and the template argument \<open>Max\<close> is the first argument of every
  operation.  The comparison \<^verbatim>\<open>IndexComparable{value, begin}\<close> orders indices by their
  distance from \<open>begin\<close>.

  The lemmas show that the operations keep the value below \<open>Max\<close>, that no
  \<^verbatim>\<open>std::size_t\<close> operation in them wraps for admissible arguments, what they compute
  modulo \<open>Max\<close>, and that the comparison is a strict total order.
\<close>

type_synonym ring_index = nat

record ring_range =
  rr_left :: ring_index
  rr_right :: ring_index

text \<open>\<^verbatim>\<open>requires(Max < std::numeric_limits<std::size_t>::max() / 2)\<close>; a maximum of zero makes
  the \<^verbatim>\<open>% max\<close> of the constructor undefined.\<close>

definition ring_max_ok :: "nat \<Rightarrow> bool" where
  "ring_max_ok M \<longleftrightarrow> 0 < M \<and> M < size_max div 2"

definition ri_make :: "nat \<Rightarrow> nat \<Rightarrow> ring_index" where
  "ri_make M val = val mod M"

definition ri_Distance :: "nat \<Rightarrow> ring_index \<Rightarrow> ring_index \<Rightarrow> nat" where
  "ri_Distance M v other =
     (let a = sz_sub M v; b = sz_sub M other
      in if a \<ge> b then sz_sub a b else sz_add a other)"

definition ri_add :: "nat \<Rightarrow> ring_index \<Rightarrow> nat \<Rightarrow> ring_index" where
  "ri_add M v val = sz_add v val mod M"

definition ri_sub :: "nat \<Rightarrow> ring_index \<Rightarrow> nat \<Rightarrow> ring_index" where
  "ri_sub M v val =
     (let v' = (if val > v then sz_add (sz_sub M val) v else sz_sub v val)
      in v' mod M)"

definition ri_inc :: "nat \<Rightarrow> ring_index \<Rightarrow> ring_index" where
  "ri_inc M v = sz_add v 1 mod M"

definition ri_dec :: "nat \<Rightarrow> ring_index \<Rightarrow> ring_index" where
  "ri_dec M v = sz_sub v 1 mod M"

subsection \<open>\<^verbatim>\<open>IndexComparable{value, begin}\<close>\<close>

definition ic_IsBefore :: "nat \<Rightarrow> ring_index \<Rightarrow> ring_index \<Rightarrow> ring_index \<Rightarrow> bool" where
  "ic_IsBefore M bgn v other \<longleftrightarrow> v \<noteq> other \<and> ri_Distance M bgn v < ri_Distance M bgn other"

definition ic_IsAfter :: "nat \<Rightarrow> ring_index \<Rightarrow> ring_index \<Rightarrow> ring_index \<Rightarrow> bool" where
  "ic_IsAfter M bgn v other \<longleftrightarrow> v \<noteq> other \<and> ri_Distance M bgn v > ri_Distance M bgn other"

definition ic_lt :: "nat \<Rightarrow> ring_index \<Rightarrow> ring_index \<Rightarrow> ring_index \<Rightarrow> bool" where
  "ic_lt M bgn v other \<longleftrightarrow> ic_IsBefore M bgn v other"

definition ic_le :: "nat \<Rightarrow> ring_index \<Rightarrow> ring_index \<Rightarrow> ring_index \<Rightarrow> bool" where
  "ic_le M bgn v other \<longleftrightarrow> v = other \<or> ic_IsBefore M bgn v other"

definition ic_gt :: "nat \<Rightarrow> ring_index \<Rightarrow> ring_index \<Rightarrow> ring_index \<Rightarrow> bool" where
  "ic_gt M bgn v other \<longleftrightarrow> ic_IsAfter M bgn v other"

definition ic_ge :: "nat \<Rightarrow> ring_index \<Rightarrow> ring_index \<Rightarrow> ring_index \<Rightarrow> bool" where
  "ic_ge M bgn v other \<longleftrightarrow> v = other \<or> ic_IsAfter M bgn v other"

subsection \<open>\<^verbatim>\<open>RingIndexRange\<close>\<close>

definition rr_InRange :: "nat \<Rightarrow> ring_range \<Rightarrow> ring_index \<Rightarrow> ring_index \<Rightarrow> bool" where
  "rr_InRange M r index bgn \<longleftrightarrow>
     ic_le M bgn (rr_left r) index \<and> ic_ge M bgn (rr_right r) index"

definition rr_IsBefore :: "nat \<Rightarrow> ring_range \<Rightarrow> ring_index \<Rightarrow> ring_index \<Rightarrow> bool" where
  "rr_IsBefore M r index bgn \<longleftrightarrow> ic_lt M bgn (rr_right r) index"

definition rr_IsAfter :: "nat \<Rightarrow> ring_range \<Rightarrow> ring_index \<Rightarrow> ring_index \<Rightarrow> bool" where
  "rr_IsAfter M r index bgn \<longleftrightarrow> ic_gt M bgn (rr_left r) index"

definition rr_IsFlipped :: "nat \<Rightarrow> ring_range \<Rightarrow> ring_index \<Rightarrow> bool" where
  "rr_IsFlipped M r bgn \<longleftrightarrow> ic_gt M bgn (rr_left r) (rr_right r)"

definition rr_IsEmpty :: "ring_range \<Rightarrow> bool" where
  "rr_IsEmpty r \<longleftrightarrow> rr_left r = rr_right r"

definition rr_distance :: "nat \<Rightarrow> ring_range \<Rightarrow> nat" where
  "rr_distance M r = ri_Distance M (rr_left r) (rr_right r)"

subsection \<open>What the operations compute\<close>

lemma ring_max_okD:
  assumes "ring_max_ok M"
  shows "0 < M" "2 * M < size_mod"
  using assms by (simp_all add: ring_max_ok_def)

lemma ri_make_less: "ring_max_ok M \<Longrightarrow> ri_make M v < M"
  by (simp add: ri_make_def ring_max_ok_def)

lemma ri_add_less: "ring_max_ok M \<Longrightarrow> ri_add M v k < M"
  by (simp add: ri_add_def ring_max_ok_def)

lemma ri_sub_less: "ring_max_ok M \<Longrightarrow> ri_sub M v k < M"
  by (simp add: ri_sub_def ring_max_ok_def)

lemmas ri_less [simp] = ri_make_less ri_add_less ri_sub_less

lemma ri_Distance_if:
  assumes "ring_max_ok M" "v < M" "w < M"
  shows "ri_Distance M v w = (if v \<le> w then w - v else M - v + w)"
proof -
  note ring_max_okD [OF assms(1)]
  moreover have "sz_sub M v = M - v" "sz_sub M w = M - w"
    using assms ring_max_okD [OF assms(1)] by (simp_all add: size_simps)
  ultimately show ?thesis
    using assms by (auto simp: ri_Distance_def Let_def size_simps)
qed

lemma ri_Distance_less:
  assumes "ring_max_ok M" "v < M" "w < M"
  shows "ri_Distance M v w < M"
  using assms by (auto simp: ri_Distance_if)

lemma ri_Distance_self [simp]:
  assumes "ring_max_ok M" "v < M"
  shows "ri_Distance M v v = 0"
  using assms by (simp add: ri_Distance_if)

lemma ri_add_mod:
  assumes "ring_max_ok M" "v < M" "k \<le> M"
  shows "ri_add M v k = (v + k) mod M"
  using assms ring_max_okD [OF assms(1)] by (simp add: ri_add_def size_simps)

lemma ri_sub_mod:
  assumes "ring_max_ok M" "v < M" "k \<le> M"
  shows "ri_sub M v k = (v + (M - k)) mod M"
proof (cases "k > v")
  case True
  with assms ring_max_okD [OF assms(1)] show ?thesis
    by (simp add: ri_sub_def size_simps add.commute)
next
  case False
  then have "(v + (M - k)) mod M = (v - k + M) mod M" using assms by simp
  with False assms ring_max_okD [OF assms(1)] show ?thesis
    by (simp only: mod_add_self2) (simp add: ri_sub_def size_simps)
qed

text \<open>Every index is reached from \<open>b\<close> by adding its distance, and the distance is the only
  such number below \<open>Max\<close>.\<close>

lemma ri_add_Distance:
  assumes "ring_max_ok M" "b < M" "v < M"
  shows "ri_add M b (ri_Distance M b v) = v"
  using assms ri_Distance_less [OF assms]
  by (auto simp: ri_add_mod ri_Distance_if mod_add_less split: if_splits)

lemma ri_Distance_add:
  assumes "ring_max_ok M" "b < M" "k < M"
  shows "ri_Distance M b (ri_add M b k) = k"
  using assms by (auto simp: ri_add_mod ri_Distance_if mod_add_less split: if_splits)

lemma ri_Distance_inj:
  assumes "ring_max_ok M" "b < M" "v < M" "w < M"
  shows "ri_Distance M b v = ri_Distance M b w \<longleftrightarrow> v = w"
  using assms ri_add_Distance by metis

lemma ri_add_add:
  assumes "ring_max_ok M" "b < M" "i \<le> M" "j \<le> M" "i + j \<le> M"
  shows "ri_add M (ri_add M b i) j = ri_add M b (i + j)"
  using assms by (simp add: ri_add_mod ring_max_ok_def mod_simps add.assoc)

lemma ri_sub_add:
  assumes "ring_max_ok M" "b < M" "k \<le> M"
  shows "ri_sub M (ri_add M b k) k = b"
proof -
  have "ri_sub M (ri_add M b k) k = ((b + k) mod M + (M - k)) mod M"
    using assms by (simp add: ri_sub_mod ri_add_mod ring_max_ok_def)
  also have "\<dots> = (b + k + (M - k)) mod M" by (simp add: mod_simps)
  also have "\<dots> = b" using assms by simp
  finally show ?thesis .
qed

lemma ri_sub_add_le:
  assumes "ring_max_ok M" "b < M" "k \<le> M" "j \<le> k"
  shows "ri_sub M (ri_add M b k) j = ri_add M b (k - j)"
proof -
  have "ri_sub M (ri_add M b k) j = ri_sub M (ri_add M (ri_add M b (k - j)) j) j"
    using assms by (simp add: ri_add_add)
  then show ?thesis using assms by (simp add: ri_sub_add)
qed

lemma ri_add_0 [simp]: "ring_max_ok M \<Longrightarrow> b < M \<Longrightarrow> ri_add M b 0 = b"
  by (simp add: ri_add_mod)

text \<open>Distances to a shifted begin.\<close>

lemma ri_Distance_between:
  assumes "ring_max_ok M" "b < M" "i < M" "j < M"
  shows "ri_Distance M (ri_add M b i) (ri_add M b j) = (if i \<le> j then j - i else M - i + j)"
proof (cases "i \<le> j")
  case True
  have "ri_add M b j = ri_add M (ri_add M b i) (j - i)" using True assms by (simp add: ri_add_add)
  then show ?thesis using True assms by (simp add: ri_Distance_add)
next
  case False
  have "ri_add M (ri_add M b i) (M - i + j) = ri_add M (ri_add M (ri_add M b i) (M - i)) j"
    using False assms ri_add_add [of M "ri_add M b i" "M - i" j] by simp
  also have "ri_add M (ri_add M b i) (M - i) = b"
    using assms ri_add_add [of M b i "M - i"] by (simp add: ri_add_mod)
  finally have "ri_add M b j = ri_add M (ri_add M b i) (M - i + j)" by simp
  then show ?thesis using False assms by (simp add: ri_Distance_add)
qed

lemma ri_Distance_shift:
  assumes "ring_max_ok M" "b < M" "v < M" "k \<le> ri_Distance M b v"
  shows "ri_Distance M (ri_add M b k) v = ri_Distance M b v - k"
proof -
  let ?d = "ri_Distance M b v"
  have "?d < M" using assms by (simp add: ri_Distance_less)
  moreover have "v = ri_add M b ?d" using assms by (simp add: ri_add_Distance)
  ultimately show ?thesis using assms ri_Distance_between [of M b k ?d] by auto
qed

subsection \<open>The comparison is the order of the distances\<close>

lemma ic_lt_iff:
  assumes "ring_max_ok M" "b < M" "v < M" "w < M"
  shows "ic_lt M b v w \<longleftrightarrow> ri_Distance M b v < ri_Distance M b w"
  by (auto simp: ic_lt_def ic_IsBefore_def)

lemma ic_gt_iff:
  assumes "ring_max_ok M" "b < M" "v < M" "w < M"
  shows "ic_gt M b v w \<longleftrightarrow> ri_Distance M b v > ri_Distance M b w"
  by (auto simp: ic_gt_def ic_IsAfter_def)

lemma ic_le_iff:
  assumes "ring_max_ok M" "b < M" "v < M" "w < M"
  shows "ic_le M b v w \<longleftrightarrow> ri_Distance M b v \<le> ri_Distance M b w"
  using ri_Distance_inj [OF assms] by (auto simp: ic_le_def ic_IsBefore_def)

lemma ic_ge_iff:
  assumes "ring_max_ok M" "b < M" "v < M" "w < M"
  shows "ic_ge M b v w \<longleftrightarrow> ri_Distance M b v \<ge> ri_Distance M b w"
  using ri_Distance_inj [OF assms] by (auto simp: ic_ge_def ic_IsAfter_def)

lemmas ic_iffs = ic_lt_iff ic_gt_iff ic_le_iff ic_ge_iff

lemma rr_InRange_iff:
  assumes "ring_max_ok M" "b < M" "rr_left r < M" "rr_right r < M" "i < M"
  shows "rr_InRange M r i b \<longleftrightarrow>
    ri_Distance M b (rr_left r) \<le> ri_Distance M b i \<and> ri_Distance M b i \<le> ri_Distance M b (rr_right r)"
  using assms by (simp add: rr_InRange_def ic_iffs)

subsection \<open>Properties\<close>

text \<open>(C5) On a ring of admissible size the distance from an index to another stays below \<open>Max\<close>,
  adding it leads from the first to the second index, it is the only offset below \<open>Max\<close> that
  does, and subtracting an offset of at most \<open>Max\<close> undoes adding it.\<close>

theorem ring_index_arithmetic:
  assumes "ring_max_ok M" "b < M" "v < M" "k < M"
  shows "ri_Distance M b v < M \<and> ri_add M b (ri_Distance M b v) = v \<and>
    (ri_add M b k = v \<longleftrightarrow> k = ri_Distance M b v) \<and>
    ri_add M b k < M \<and> ri_sub M b k < M \<and>
    ri_sub M (ri_add M b k) k = b \<and> ri_add M (ri_sub M b k) k = b"
proof -
  have "ri_add M (ri_sub M b k) k = ((b + (M - k)) mod M + k) mod M"
    using assms by (simp add: ri_sub_mod ri_add_mod ring_max_ok_def)
  also have "\<dots> = (b + (M - k) + k) mod M" by (simp only: mod_add_left_eq)
  also have "\<dots> = b" using assms by simp
  finally show ?thesis
    using assms by (auto simp: ri_Distance_less ri_add_Distance ri_Distance_add ri_sub_add)
qed

theorem ring_index_arithmetic_witness:
  "ring_max_ok 20480 \<and> ri_Distance 20480 20000 100 < 20480 \<and>
   ri_add 20480 20000 (ri_Distance 20480 20000 100) = 100 \<and> ri_sub 20480 (ri_add 20480 20000 580) 580 = 20000"
proof -
  have "ring_max_ok 20480" by (simp add: ring_max_ok_def)
  with ring_index_arithmetic [of 20480 20000 100 580] show ?thesis by simp
qed

text \<open>Relative to a begin index the comparison of \<^verbatim>\<open>IndexComparable\<close> is a strict total
  order on the indices of the ring, with the begin as its least element.\<close>

theorem index_comparable_total_order:
  assumes "ring_max_ok M" "b < M" "u < M" "v < M" "w < M"
  shows "\<not> ic_lt M b v v \<and> (ic_lt M b u v \<longrightarrow> ic_lt M b v w \<longrightarrow> ic_lt M b u w) \<and>
    (ic_lt M b v w \<or> v = w \<or> ic_lt M b w v) \<and> (ic_gt M b v w \<longleftrightarrow> ic_lt M b w v) \<and>
    (ic_le M b v w \<longleftrightarrow> \<not> ic_lt M b w v) \<and> (ic_ge M b v w \<longleftrightarrow> \<not> ic_lt M b v w) \<and> ic_le M b b v"
  using assms ri_Distance_inj [of M b v w] by (auto simp: ic_iffs)

theorem index_comparable_total_order_witness:
  "ring_max_ok 50 \<and> ic_lt 50 45 47 3 \<and> ic_lt 50 45 3 7 \<and> ic_lt 50 45 47 7"
proof -
  have ok: "ring_max_ok 50" by (simp add: ring_max_ok_def)
  have d: "ri_Distance 50 45 47 = 2" "ri_Distance 50 45 3 = 8" "ri_Distance 50 45 7 = 12"
    using ok by (simp_all add: ri_Distance_if)
  with index_comparable_total_order [OF ok, of 45 47 3 7] ok show ?thesis
    by (simp add: ic_lt_def ic_IsBefore_def)
qed

text \<open>\<^verbatim>\<open>operator--\<close> computes \<^verbatim>\<open>(value_ - 1) % max\<close> in \<^verbatim>\<open>std::size_t\<close>: at zero it
  yields the last index of the ring exactly when \<open>Max\<close> divides the size of the
  \<^verbatim>\<open>std::size_t\<close> range, and disagrees with \<^verbatim>\<open>- 1\<close> for every other \<open>Max\<close>.\<close>

theorem ring_decrement_at_zero:
  assumes "ring_max_ok M"
  shows "ri_sub M 0 1 = M - 1 \<and> (ri_dec M 0 = ri_sub M 0 1 \<longleftrightarrow> M dvd size_mod)"
proof -
  have M: "0 < M" "1 \<le> M" using ring_max_okD [OF assms] by auto
  have sub: "ri_sub M 0 1 = M - 1" using assms M by (simp add: ri_sub_mod)
  have dec: "ri_dec M 0 = size_max mod M" by (simp add: ri_dec_def sz_sub_def)
  have "size_max mod M = M - 1 \<longleftrightarrow> (size_max + 1) mod M = 0"
    using M by (simp only: mod_Suc Suc_eq_plus1 [symmetric]) auto
  moreover have "size_max + 1 = size_mod" by simp
  ultimately show ?thesis using sub dec by (simp only: dvd_eq_mod_eq_0)
qed

theorem ring_decrement_at_zero_witness:
  "ring_max_ok 10 \<and> ri_sub 10 0 1 = 9 \<and> ri_dec 10 0 \<noteq> ri_sub 10 0 1"
proof -
  have "ring_max_ok 10" by (simp add: ring_max_ok_def)
  with ring_decrement_at_zero [of 10] show ?thesis by simp
qed

end
