(* ===== verification/Circular_Buffer.thy ===== *)
theory Circular_Buffer
  imports Ring_Index
begin

text \<open>
  \<^verbatim>\<open>aether/safe_stream/details/circular_buffer.h\<close>: the byte ring behind the sending and
  the receiving side of a safe stream.

  The capacity of the template is the length of the array \<open>cb_buffer\<close>.  The abstraction
  \<open>cb_contents\<close> reads the bytes between \<open>begin_\<close> and \<open>end_\<close>; the operations are shown
  to act on it as append, sub-list, drop and take.  The locale \<open>byte_fifo\<close> states that
  contract for the clients of the buffer, and the interpretation at the end discharges it.
\<close>

datatype CircularBufferError = kDataOverflow | kEmptyBuffer | kIndexOutOfRange

record circular_buffer =
  cb_begin :: ring_index
  cb_end :: ring_index
  cb_buffer :: "byte list"

record DSpan =
  ds_first :: "byte list"
  ds_second :: "byte list"

definition ds_size :: "DSpan \<Rightarrow> nat" where
  "ds_size d = length (ds_first d) + length (ds_second d)"

abbreviation cb_cap :: "circular_buffer \<Rightarrow> nat" where
  "cb_cap b \<equiv> length (cb_buffer b)"

text \<open>The constructor leaves the array uninitialised: its bytes are the argument \<open>mem\<close>.\<close>

definition cb_make :: "byte list \<Rightarrow> nat \<Rightarrow> circular_buffer" where
  "cb_make mem start_offset =
     \<lparr>cb_begin = ri_make (length mem) start_offset,
      cb_end = ri_make (length mem) start_offset, cb_buffer = mem\<rparr>"

text \<open>The copy loop of \<^verbatim>\<open>Insert\<close>.  The second and third guard only exclude positions that
  are no index of the array.\<close>

function cb_copy_loop :: "byte list \<Rightarrow> ring_index \<Rightarrow> byte list \<Rightarrow> byte list \<times> ring_index" where
  "cb_copy_loop buf pos data =
     (if data = [] \<or> \<not> pos < length buf \<or> \<not> length buf < size_mod then (buf, pos)
      else let remaining = sz_sub (length buf) pos;
               copy_size = (if length data > remaining then remaining else length data);
               buf' = overwrite buf pos (take copy_size data)
           in cb_copy_loop buf' (ri_add (length buf) pos copy_size) (drop copy_size data))"
  by pat_completeness auto
termination
  by (relation "measure (\<lambda>(buf, pos, data). length data)") (auto simp: size_simps)

declare cb_copy_loop.simps [simp del]

definition cb_Insert ::
  "circular_buffer \<Rightarrow> ring_index \<Rightarrow> byte list \<Rightarrow> CircularBufferError + (ring_range \<times> circular_buffer)"
where
  "cb_Insert b pos data =
     (let M = cb_cap b;
          available = (if cb_begin b = pos then M else ri_Distance M pos (cb_begin b))
      in if length data > available then Inl kDataOverflow
         else let (buf, pos') = cb_copy_loop (cb_buffer b) pos data;
                  e = (if ic_gt M (cb_begin b) pos' (cb_end b) then pos' else cb_end b)
              in Inr (\<lparr>rr_left = pos, rr_right = ri_sub M pos' 1\<rparr>,
                      b\<lparr>cb_end := e, cb_buffer := buf\<rparr>))"

definition cb_Push ::
  "circular_buffer \<Rightarrow> byte list \<Rightarrow> CircularBufferError + (ring_range \<times> circular_buffer)"
where
  "cb_Push b data = cb_Insert b (cb_end b) data"

definition cb_Read :: "circular_buffer \<Rightarrow> ring_index \<Rightarrow> nat \<Rightarrow> CircularBufferError + DSpan" where
  "cb_Read b start sz =
     (let M = cb_cap b; d = ri_Distance M start (cb_end b)
      in if cb_begin b = cb_end b \<or> d = 0 then Inl kEmptyBuffer
         else if d > ri_Distance M (cb_begin b) (cb_end b) then Inl kIndexOutOfRange
         else let size' = (if sz > d then d else sz);
                  first_max_size = sz_sub M start;
                  first_size = (if first_max_size > size' then size' else first_max_size)
              in Inr \<lparr>ds_first = take first_size (drop start (cb_buffer b)),
                      ds_second = (if first_size < size'
                                   then take (sz_sub size' first_size) (cb_buffer b) else [])\<rparr>)"

text \<open>\<^verbatim>\<open>Erase\<close> and \<^verbatim>\<open>EraseFrom\<close> assert that the position is in range and, where assertions
  are compiled out, return without a change.  \<open>cb_Erase_asserts\<close> is the failing assertion.\<close>

definition cb_Erase_asserts :: "circular_buffer \<Rightarrow> ring_index \<Rightarrow> bool" where
  "cb_Erase_asserts b i \<longleftrightarrow>
     ri_Distance (cb_cap b) i (cb_end b) > ri_Distance (cb_cap b) (cb_begin b) (cb_end b)"

definition cb_Erase :: "circular_buffer \<Rightarrow> ring_index \<Rightarrow> circular_buffer" where
  "cb_Erase b to = (if cb_Erase_asserts b to then b else b\<lparr>cb_begin := to\<rparr>)"

definition cb_EraseFrom :: "circular_buffer \<Rightarrow> ring_index \<Rightarrow> circular_buffer" where
  "cb_EraseFrom b from = (if cb_Erase_asserts b from then b else b\<lparr>cb_end := from\<rparr>)"

definition cb_Reset :: "circular_buffer \<Rightarrow> nat \<Rightarrow> circular_buffer" where
  "cb_Reset b offset = b\<lparr>cb_begin := ri_make (cb_cap b) offset, cb_end := ri_make (cb_cap b) offset\<rparr>"

definition cb_size :: "circular_buffer \<Rightarrow> nat" where
  "cb_size b = ri_Distance (cb_cap b) (cb_begin b) (cb_end b)"

subsection \<open>Invariant and abstraction\<close>

definition cb_inv :: "circular_buffer \<Rightarrow> bool" where
  "cb_inv b \<longleftrightarrow> ring_max_ok (cb_cap b) \<and> cb_begin b < cb_cap b \<and> cb_end b < cb_cap b"

definition cb_index :: "circular_buffer \<Rightarrow> nat \<Rightarrow> ring_index" where
  "cb_index b i = ri_add (cb_cap b) (cb_begin b) i"

definition cb_at :: "circular_buffer \<Rightarrow> nat \<Rightarrow> byte" where
  "cb_at b i = cb_buffer b ! cb_index b i"

definition cb_contents :: "circular_buffer \<Rightarrow> byte list" where
  "cb_contents b = map (cb_at b) [0..<cb_size b]"

definition ds_bytes :: "DSpan \<Rightarrow> byte list" where
  "ds_bytes d = ds_first d @ ds_second d"


lemma cb_invD:
  assumes "cb_inv b"
  shows "ring_max_ok (cb_cap b)" "cb_begin b < cb_cap b" "cb_end b < cb_cap b"
    "0 < cb_cap b" "2 * cb_cap b < size_mod"
  using assms ring_max_okD by (auto simp: cb_inv_def)

lemma cb_size_less: "cb_inv b \<Longrightarrow> cb_size b < cb_cap b"
  by (simp add: cb_size_def cb_inv_def ri_Distance_less)

lemma length_cb_contents [simp]: "length (cb_contents b) = cb_size b"
  by (simp add: cb_contents_def)

lemma cb_end_index: "cb_inv b \<Longrightarrow> cb_end b = cb_index b (cb_size b)"
  by (simp add: cb_inv_def cb_index_def cb_size_def ri_add_Distance)

lemma cb_index_less: "cb_inv b \<Longrightarrow> cb_index b i < cb_cap b"
  by (simp add: cb_inv_def cb_index_def)

lemma cb_Distance_index:
  "cb_inv b \<Longrightarrow> i < cb_cap b \<Longrightarrow> ri_Distance (cb_cap b) (cb_begin b) (cb_index b i) = i"
  by (simp add: cb_inv_def cb_index_def ri_Distance_add)

lemma cb_index_Distance:
  "cb_inv b \<Longrightarrow> p < cb_cap b \<Longrightarrow> cb_index b (ri_Distance (cb_cap b) (cb_begin b) p) = p"
  by (simp add: cb_inv_def cb_index_def ri_add_Distance)

lemma cb_inv_make: "ring_max_ok (length mem) \<Longrightarrow> cb_inv (cb_make mem off)"
  by (simp add: cb_inv_def cb_make_def)

lemma cb_inv_Erase: "cb_inv b \<Longrightarrow> i < cb_cap b \<Longrightarrow> cb_inv (cb_Erase b i)"
  by (simp add: cb_inv_def cb_Erase_def)

lemma cb_inv_EraseFrom: "cb_inv b \<Longrightarrow> i < cb_cap b \<Longrightarrow> cb_inv (cb_EraseFrom b i)"
  by (simp add: cb_inv_def cb_EraseFrom_def)

lemma cb_inv_Reset: "cb_inv b \<Longrightarrow> cb_inv (cb_Reset b off)"
  by (simp add: cb_inv_def cb_Reset_def)

subsection \<open>The copy loop\<close>

lemma cb_copy_loop_spec:
  assumes "ring_max_ok M" "length buf = M" "pos < M" "length data \<le> M"
  shows "length (fst (cb_copy_loop buf pos data)) = M \<and>
         snd (cb_copy_loop buf pos data) = ri_add M pos (length data) \<and>
         (\<forall>i < M. fst (cb_copy_loop buf pos data) ! ri_add M pos i =
            (if i < length data then data ! i else buf ! ri_add M pos i))"
  using assms
proof (induction buf pos data rule: cb_copy_loop.induct)
  case (1 buf pos data)
  note M = ring_max_okD [OF "1.prems"(1)]
  show ?case
  proof (cases "data = []")
    case True
    then show ?thesis using "1.prems" M by (simp add: cb_copy_loop.simps [of buf pos "[]"])
  next
    case False
    define c where "c = (if length data > M - pos then M - pos else length data)"
    define buf1 where "buf1 = overwrite buf pos (take c data)"
    define pos1 where "pos1 = ri_add M pos c"
    let ?r = "cb_copy_loop buf1 pos1 (drop c data)"
    have rem: "sz_sub M pos = M - pos" using "1.prems" M by (simp add: size_simps)
    have c: "0 < c" "c \<le> M - pos" "c \<le> length data" using False "1.prems" by (auto simp: c_def)
    have eq: "cb_copy_loop buf pos data = ?r"
      using False "1.prems" M by (simp add: cb_copy_loop.simps [of buf pos data] rem Let_def
        buf1_def pos1_def c_def)
    have len1: "length buf1 = M" using "1.prems" c by (simp add: buf1_def)
    have IH: "length (fst ?r) = M \<and> snd ?r = ri_add M pos1 (length (drop c data)) \<and>
        (\<forall>i < M. fst ?r ! ri_add M pos1 i =
            (if i < length (drop c data) then drop c data ! i else buf1 ! ri_add M pos1 i))"
    proof -
      have "\<not> (data = [] \<or> \<not> pos < length buf \<or> \<not> length buf < size_mod)"
        using False "1.prems" M by simp
      moreover have "c = (if length data > M - pos then M - pos else length data)" by (rule c_def)
      moreover have "M - pos = sz_sub (length buf) pos" using rem "1.prems" by simp
      moreover have "ri_add (length buf) pos c = pos1" using "1.prems" by (simp add: pos1_def)
      moreover have "pos1 < M" "length (drop c data) \<le> M" using "1.prems" by (simp_all add: pos1_def)
      ultimately show ?thesis
        using "1.IH" [of "M - pos" c buf1] buf1_def len1 "1.prems"(1) by metis
    qed
    have buf1_nth: "buf1 ! ri_add M pos i = (if i < c then data ! i else buf ! ri_add M pos i)"
      if "i < M" for i
      using that c "1.prems"
      by (auto simp: buf1_def nth_overwrite ri_add_mod mod_add_less)
    have split: "ri_add M pos i = ri_add M pos1 (if c \<le> i then i - c else M - c + i)"
      if i: "i < M" for i
    proof (cases "c \<le> i")
      case True
      then show ?thesis using i c "1.prems" by (simp add: pos1_def ri_add_add)
    next
      case False
      have "ri_add M pos1 (M - c + i) = ri_add M (ri_add M pos1 (M - c)) i"
        using False i c "1.prems" ri_add_add [of M pos1 "M - c" i] by (simp add: pos1_def)
      also have "ri_add M pos1 (M - c) = pos"
        using c "1.prems" ri_add_add [of M pos c "M - c"] by (simp add: pos1_def ri_add_mod)
      finally show ?thesis using False by simp
    qed
    have "fst ?r ! ri_add M pos i = (if i < length data then data ! i else buf ! ri_add M pos i)"
      if i: "i < M" for i
    proof -
      let ?k = "if c \<le> i then i - c else M - c + i"
      have k: "?k < M" using i c "1.prems" by auto
      have "fst ?r ! ri_add M pos i =
          (if ?k < length (drop c data) then drop c data ! ?k else buf1 ! ri_add M pos i)"
        using IH k split [OF i] by metis
      moreover have "?k < length (drop c data) \<longleftrightarrow> c \<le> i \<and> i < length data"
        using i c "1.prems" by auto
      ultimately show ?thesis using i c "1.prems" buf1_nth [OF i] by (cases "c \<le> i") simp_all
    qed
    moreover have "snd ?r = ri_add M pos (length data)"
      using IH c "1.prems" by (simp add: pos1_def ri_add_add)
    ultimately show ?thesis using IH eq by simp
  qed
qed

subsection \<open>Insert and Push\<close>

lemma length_cb_copy_loop [simp]: "length (fst (cb_copy_loop buf pos data)) = length buf"
proof (induction buf pos data rule: cb_copy_loop.induct)
  case (1 buf pos data)
  show ?case
  proof (cases "data = [] \<or> \<not> pos < length buf \<or> \<not> length buf < size_mod")
    case True
    then show ?thesis by (simp add: cb_copy_loop.simps)
  next
    case False
    then have "sz_sub (length buf) pos = length buf - pos" by (simp add: size_simps)
    moreover have "length (overwrite buf pos (take n data)) = length buf" if "n \<le> length buf - pos" for n
      using False that by (intro length_overwrite) (simp add: min_def, linarith)
    ultimately show ?thesis using 1 [OF False refl refl refl] False
      by (subst cb_copy_loop.simps) (simp add: Let_def split: if_splits)
  qed
qed

lemma cb_Insert_cap: "cb_Insert b pos d = Inr (r, b') \<Longrightarrow> cb_cap b' = cb_cap b"
  using length_cb_copy_loop [of "cb_buffer b" pos d]
  by (cases "cb_copy_loop (cb_buffer b) pos d") (auto simp: cb_Insert_def Let_def split: if_splits)

lemma cb_cap_Erase [simp]: "cb_cap (cb_Erase b i) = cb_cap b" "cb_cap (cb_Reset b off) = cb_cap b"
  by (simp_all add: cb_Erase_def cb_Reset_def)

lemma cb_available:
  assumes "cb_inv b" "i < cb_cap b"
  shows "(if cb_begin b = cb_index b i then cb_cap b
          else ri_Distance (cb_cap b) (cb_index b i) (cb_begin b)) = cb_cap b - i"
proof -
  note inv = cb_invD [OF assms(1)]
  have "ri_Distance (cb_cap b) (cb_index b i) (cb_begin b) = (if i = 0 then 0 else cb_cap b - i)"
    using inv assms(2) ri_Distance_between [of "cb_cap b" "cb_begin b" i 0]
    by (auto simp: cb_index_def)
  moreover have "cb_begin b = cb_index b i \<longleftrightarrow> i = 0"
    using inv assms by (metis cb_Distance_index cb_index_def ri_add_0 ri_Distance_self)
  ultimately show ?thesis by simp
qed

lemma cb_Insert_overflow:
  assumes "cb_inv b" "i < cb_cap b" "length data > cb_cap b - i"
  shows "cb_Insert b (cb_index b i) data = Inl kDataOverflow"
  using assms cb_available [OF assms(1,2)] by (simp add: cb_Insert_def Let_def)

text \<open>A successful \<^verbatim>\<open>Insert\<close> at offset \<open>i\<close>: the bytes from offset \<open>i\<close> on are the data, all
  other bytes of the ring are kept, and the end moves unless the insertion meets the begin.\<close>

lemma cb_Insert_ok:
  assumes inv: "cb_inv b" and i: "i < cb_cap b" and fits: "length data \<le> cb_cap b - i"
  obtains b' where
    "cb_Insert b (cb_index b i) data =
       Inr (\<lparr>rr_left = cb_index b i, rr_right = ri_sub (cb_cap b) (cb_index b (i + length data)) 1\<rparr>, b')"
    "cb_inv b'" "cb_cap b' = cb_cap b" "cb_begin b' = cb_begin b"
    "\<And>j. j < cb_cap b \<Longrightarrow>
       cb_at b' j = (if i \<le> j \<and> j < i + length data then data ! (j - i) else cb_at b j)"
    "cb_size b' = (if i + length data < cb_cap b then max (cb_size b) (i + length data)
                   else cb_size b)"
proof -
  let ?M = "cb_cap b" and ?pos = "cb_index b i" and ?n = "length data"
  let ?r = "cb_copy_loop (cb_buffer b) ?pos data"
  note I = cb_invD [OF inv]
  have p: "?pos < ?M" by (rule cb_index_less [OF inv])
  have pos': "ri_add ?M ?pos ?n = cb_index b (i + ?n)"
    using I i fits by (simp add: cb_index_def ri_add_add)
  have spec: "length (fst ?r) = ?M" "snd ?r = cb_index b (i + ?n)"
    "\<And>k. k < ?M \<Longrightarrow> fst ?r ! ri_add ?M ?pos k =
            (if k < ?n then data ! k else cb_buffer b ! ri_add ?M ?pos k)"
    using cb_copy_loop_spec [OF I(1) refl p, of data] fits pos' by auto
  define e where "e = (if ic_gt ?M (cb_begin b) (cb_index b (i + ?n)) (cb_end b)
                       then cb_index b (i + ?n) else cb_end b)"
  define b' where "b' = b\<lparr>cb_end := e, cb_buffer := fst ?r\<rparr>"
  have end': "ic_gt ?M (cb_begin b) (cb_index b (i + ?n)) (cb_end b) \<longleftrightarrow>
      i + ?n < ?M \<and> cb_size b < i + ?n"
  proof (cases "i + ?n < ?M")
    case True
    then show ?thesis using I by (simp add: ic_iffs cb_index_less [OF inv]
      cb_Distance_index [OF inv] cb_size_def)
  next
    case False
    then have "i + ?n = ?M" using fits i by simp
    then have "cb_index b (i + ?n) = cb_begin b" using I by (simp add: cb_index_def ri_add_mod)
    then show ?thesis using I False by (simp add: ic_iffs)
  qed
  have eq: "cb_Insert b ?pos data =
       Inr (\<lparr>rr_left = ?pos, rr_right = ri_sub ?M (cb_index b (i + ?n)) 1\<rparr>, b')"
    using cb_available [OF inv i] fits spec(2)
    by (simp add: cb_Insert_def Let_def split_beta e_def b'_def)
  have inv': "cb_inv b'" using I spec(1) cb_index_less [OF inv] by (simp add: cb_inv_def b'_def e_def)
  have at: "cb_at b' j = (if i \<le> j \<and> j < i + ?n then data ! (j - i) else cb_at b j)" if j: "j < ?M" for j
  proof -
    define k where "k = (if i \<le> j then j - i else ?M - i + j)"
    have k: "k < ?M" using i j by (auto simp: k_def)
    have jk: "cb_index b j = ri_add ?M ?pos k"
    proof -
      have "ri_Distance ?M ?pos (cb_index b j) = k"
        using I i j ri_Distance_between [of ?M "cb_begin b" i j] by (simp add: cb_index_def k_def)
      then show ?thesis using I p cb_index_less [OF inv] ri_add_Distance by metis
    qed
    have "cb_at b' j = (if k < ?n then data ! k else cb_at b j)"
      using spec(1) spec(3) [OF k] jk by (simp add: cb_at_def b'_def cb_index_def)
    moreover have "k < ?n \<longleftrightarrow> i \<le> j \<and> j < i + ?n" using fits i j by (auto simp: k_def)
    moreover have "i \<le> j \<Longrightarrow> k = j - i" by (simp add: k_def)
    ultimately show ?thesis by auto
  qed
  have sz: "cb_size b' = (if i + ?n < ?M then max (cb_size b) (i + ?n) else cb_size b)"
    using I spec(1) end' cb_Distance_index [OF inv] by (auto simp: cb_size_def b'_def e_def)
  show thesis
    by (rule that [OF eq inv' _ _ at sz]) (simp_all add: b'_def spec(1))
qed

subsection \<open>The contract of a byte queue\<close>

text \<open>What the sender and the receiver rely on: the buffer is a list of bytes, addressed by the
  ring index of an offset from its begin.\<close>

locale byte_fifo =
  fixes inv :: "'b \<Rightarrow> bool"
    and contents :: "'b \<Rightarrow> byte list"
    and cap :: "'b \<Rightarrow> nat"
    and index :: "'b \<Rightarrow> nat \<Rightarrow> ring_index"
    and push :: "'b \<Rightarrow> byte list \<Rightarrow> 'e + (ring_range \<times> 'b)"
    and read :: "'b \<Rightarrow> ring_index \<Rightarrow> nat \<Rightarrow> 'e + DSpan"
    and erase :: "'b \<Rightarrow> ring_index \<Rightarrow> 'b"
    and erase_from :: "'b \<Rightarrow> ring_index \<Rightarrow> 'b"
  assumes below_cap: "inv b \<Longrightarrow> length (contents b) < cap b"
    and push_fits: "inv b \<Longrightarrow> length (contents b) + length xs < cap b \<Longrightarrow>
      \<exists>r b'. push b xs = Inr (r, b') \<and> inv b' \<and> cap b' = cap b \<and> contents b' = contents b @ xs
        \<and> (\<forall>i. index b' i = index b i) \<and> rr_left r = index b (length (contents b))
        \<and> (xs \<noteq> [] \<longrightarrow> rr_right r = index b (length (contents b) + length xs - 1))"
    and push_overflow: "inv b \<Longrightarrow> cap b < length (contents b) + length xs \<Longrightarrow> \<exists>e. push b xs = Inl e"
    and read_in: "inv b \<Longrightarrow> i < length (contents b) \<Longrightarrow>
      \<exists>d. read b (index b i) n = Inr d \<and> ds_bytes d = take n (drop i (contents b))"
    and read_out: "inv b \<Longrightarrow> length (contents b) \<le> i \<Longrightarrow> i < cap b \<Longrightarrow> \<exists>e. read b (index b i) n = Inl e"
    and erase_in: "inv b \<Longrightarrow> i \<le> length (contents b) \<Longrightarrow>
      inv (erase b (index b i)) \<and> cap (erase b (index b i)) = cap b \<and>
      contents (erase b (index b i)) = drop i (contents b)"
    and erase_from_in: "inv b \<Longrightarrow> i \<le> length (contents b) \<Longrightarrow>
      inv (erase_from b (index b i)) \<and> cap (erase_from b (index b i)) = cap b \<and>
      contents (erase_from b (index b i)) = take i (contents b)"
begin

lemma push_read_back:
  assumes "inv b" "xs \<noteq> []" "length (contents b) + length xs < cap b"
  shows "\<exists>r b' d. push b xs = Inr (r, b') \<and> read b' (rr_left r) (length xs) = Inr d \<and> ds_bytes d = xs"
proof -
  from push_fits [OF assms(1,3)] obtain r b' where
    p: "push b xs = Inr (r, b')" "inv b'" "contents b' = contents b @ xs"
       "rr_left r = index b' (length (contents b))" by auto
  moreover have "length (contents b) < length (contents b')" using p(3) assms(2) by simp
  from read_in [OF p(2) this, of "length xs"] p(3) obtain d where
    "read b' (index b' (length (contents b))) (length xs) = Inr d" "ds_bytes d = xs" by auto
  ultimately show ?thesis by auto
qed

lemma erase_then_read:
  assumes "inv b" "i + j < length (contents b)"
  shows "\<exists>d. read (erase b (index b i)) (index (erase b (index b i)) j) n = Inr d
           \<and> ds_bytes d = take n (drop (i + j) (contents b))"
proof -
  have e: "inv (erase b (index b i))" "contents (erase b (index b i)) = drop i (contents b)"
    using erase_in [OF assms(1), of i] assms(2) by auto
  show ?thesis using read_in [OF e(1), of j n] e(2) assms(2) by (auto simp: add.commute)
qed

end

subsection \<open>Read, Erase and EraseFrom\<close>

lemma cb_Distance_to_end:
  assumes "cb_inv b" "i < cb_cap b"
  shows "ri_Distance (cb_cap b) (cb_index b i) (cb_end b) =
           (if i \<le> cb_size b then cb_size b - i else cb_cap b - i + cb_size b)"
proof -
  note I = cb_invD [OF assms(1)]
  have "cb_end b = ri_add (cb_cap b) (cb_begin b) (cb_size b)"
    using cb_end_index [OF assms(1)] by (simp add: cb_index_def)
  then show ?thesis
    using I assms cb_size_less [OF assms(1)] ri_Distance_between [of "cb_cap b" "cb_begin b" i "cb_size b"]
    by (simp add: cb_index_def)
qed

lemma cb_size_0_iff: "cb_inv b \<Longrightarrow> cb_begin b = cb_end b \<longleftrightarrow> cb_size b = 0"
  by (metis cb_invD(1,2,3) cb_size_def ri_Distance_inj ri_Distance_self)

lemma cb_Read_empty:
  assumes "cb_inv b" "i = cb_size b \<or> cb_size b = 0" "i < cb_cap b"
  shows "cb_Read b (cb_index b i) n = Inl kEmptyBuffer"
  using assms cb_Distance_to_end [OF assms(1,3)] cb_size_0_iff [OF assms(1)]
  by (auto simp: cb_Read_def Let_def)

lemma cb_Read_out_of_range:
  assumes "cb_inv b" "0 < cb_size b" "cb_size b < i" "i < cb_cap b"
  shows "cb_Read b (cb_index b i) n = Inl kIndexOutOfRange"
  using assms cb_Distance_to_end [OF assms(1,4)] cb_size_0_iff [OF assms(1)]
  by (auto simp: cb_Read_def Let_def cb_size_def)

lemma cb_Read_in:
  assumes inv: "cb_inv b" and i: "i < cb_size b"
  shows "\<exists>d. cb_Read b (cb_index b i) n = Inr d \<and> ds_bytes d = take n (drop i (cb_contents b))"
proof -
  let ?M = "cb_cap b" and ?p = "cb_index b i"
  note I = cb_invD [OF inv] and sz = cb_size_less [OF inv]
  have iM: "i < ?M" using i sz by simp
  have p: "?p < ?M" by (rule cb_index_less [OF inv])
  have d: "ri_Distance ?M ?p (cb_end b) = cb_size b - i" using cb_Distance_to_end [OF inv iM] i by simp
  define k where "k = min (cb_size b - i) n"
  define f where "f = min k (?M - ?p)"
  have rem: "sz_sub ?M ?p = ?M - ?p" using p I by (simp add: size_simps)
  have "f \<le> k" "k < size_mod" using sz I by (auto simp: f_def k_def)
  then have sub: "sz_sub k f = k - f" by (rule sz_sub_exact)
  define dd where "dd = \<lparr>ds_first = take f (drop ?p (cb_buffer b)),
      ds_second = (if f < k then take (k - f) (cb_buffer b) else [])\<rparr>"
  have 1: "(if n > cb_size b - i then cb_size b - i else n) = k" by (simp add: k_def min_def)
  have 2: "(if ?M - ?p > k then k else ?M - ?p) = f" by (simp add: f_def min_def)
  have ne: "\<not> (cb_begin b = cb_end b \<or> cb_size b - i = 0)" "\<not> cb_size b - i > cb_size b"
    using i cb_size_0_iff [OF inv] by auto
  have r: "cb_Read b ?p n = Inr dd"
    by (simp only: cb_Read_def Let_def d cb_size_def [symmetric] ne if_False rem 1 2 sub dd_def)
  have at: "cb_at b (i + j) = cb_buffer b ! ((?p + j) mod ?M)" if "j < ?M" "i + j < ?M" for j
    using that I iM p ri_add_add [of ?M "cb_begin b" i j]
    by (simp add: cb_at_def cb_index_def ri_add_mod)
  have fk: "f \<le> k" "f \<le> ?M - ?p" by (simp_all add: f_def)
  moreover have "k \<le> ?M" using sz by (simp add: k_def)
  ultimately have fk: "f \<le> k" "f \<le> ?M - ?p" "k \<le> ?M" by auto
  have len: "length (take f (drop ?p (cb_buffer b))) = f" using fk by simp
  have ldd: "length (ds_bytes dd) = k" using fk by (simp add: ds_bytes_def dd_def)
  have "ds_bytes dd = take n (drop i (cb_contents b))"
  proof (rule nth_equalityI)
    show "length (ds_bytes dd) = length (take n (drop i (cb_contents b)))"
      unfolding ldd by (simp add: k_def)
  next
    fix j assume "j < length (ds_bytes dd)"
    then have j: "j < k" unfolding ldd .
    have jj: "i + j < cb_size b" "j < n" using j by (auto simp: k_def)
    have "ds_bytes dd ! j = cb_buffer b ! ((?p + j) mod ?M)"
    proof (cases "j < f")
      case True
      then show ?thesis using len fk p by (simp add: ds_bytes_def dd_def nth_append)
    next
      case False
      then have f: "f = ?M - ?p" using j by (simp add: f_def min_def split: if_splits)
      have "(?p + j) mod ?M = ?p + j - ?M"
        using False f p jj sz by (auto simp: mod_add_less)
      then have "(?p + j) mod ?M = j - f" using False f p by simp
      then show ?thesis using False j len by (simp add: ds_bytes_def dd_def nth_append)
    qed
    also have "\<dots> = cb_at b (i + j)" using at [of j] jj sz by simp
    also have "\<dots> = take n (drop i (cb_contents b)) ! j" using jj by (simp add: cb_contents_def)
    finally show "ds_bytes dd ! j = take n (drop i (cb_contents b)) ! j" .
  qed
  with r show ?thesis by blast
qed

lemma cb_Erase_asserts_iff:
  assumes "cb_inv b" "i < cb_cap b"
  shows "cb_Erase_asserts b (cb_index b i) \<longleftrightarrow> cb_size b < i"
  using cb_Distance_to_end [OF assms] assms cb_size_less [OF assms(1)]
  by (auto simp: cb_Erase_asserts_def cb_size_def)

lemma cb_Erase_in:
  assumes inv: "cb_inv b" and i: "i \<le> cb_size b"
  shows "cb_inv (cb_Erase b (cb_index b i))"
    "cb_cap (cb_Erase b (cb_index b i)) = cb_cap b"
    "cb_begin (cb_Erase b (cb_index b i)) = cb_index b i"
    "cb_end (cb_Erase b (cb_index b i)) = cb_end b"
    "cb_contents (cb_Erase b (cb_index b i)) = drop i (cb_contents b)"
    "\<And>j. j < cb_cap b - i \<Longrightarrow> cb_at (cb_Erase b (cb_index b i)) j = cb_at b (i + j)"
proof -
  let ?M = "cb_cap b" and ?b = "cb_Erase b (cb_index b i)"
  note I = cb_invD [OF inv] and sz = cb_size_less [OF inv]
  have iM: "i < ?M" using i sz by simp
  have b: "?b = b\<lparr>cb_begin := cb_index b i\<rparr>"
    using cb_Erase_asserts_iff [OF inv iM] i by (simp add: cb_Erase_def)
  show inv': "cb_inv ?b" and "cb_cap ?b = ?M" and "cb_begin ?b = cb_index b i"
    and "cb_end ?b = cb_end b"
    using inv cb_index_less [OF inv] by (simp_all add: b cb_inv_def)
  show at: "cb_at ?b j = cb_at b (i + j)" if "j < ?M - i" for j
    using that I iM ri_add_add [of ?M "cb_begin b" i j] unfolding b by (simp add: cb_at_def cb_index_def)
  have "cb_size ?b = cb_size b - i" using cb_Distance_to_end [OF inv iM] i by (simp add: cb_size_def b)
  then show "cb_contents ?b = drop i (cb_contents b)"
    using at sz by (intro nth_equalityI) (auto simp: cb_contents_def)
qed

lemma cb_EraseFrom_in:
  assumes inv: "cb_inv b" and i: "i \<le> cb_size b"
  shows "cb_inv (cb_EraseFrom b (cb_index b i))"
    "cb_cap (cb_EraseFrom b (cb_index b i)) = cb_cap b"
    "cb_begin (cb_EraseFrom b (cb_index b i)) = cb_begin b"
    "cb_contents (cb_EraseFrom b (cb_index b i)) = take i (cb_contents b)"
proof -
  let ?M = "cb_cap b" and ?b = "cb_EraseFrom b (cb_index b i)"
  note I = cb_invD [OF inv] and sz = cb_size_less [OF inv]
  have iM: "i < ?M" using i sz by simp
  have b: "?b = b\<lparr>cb_end := cb_index b i\<rparr>"
    using cb_Erase_asserts_iff [OF inv iM] i by (simp add: cb_EraseFrom_def)
  show "cb_inv ?b" and "cb_cap ?b = ?M" and "cb_begin ?b = cb_begin b"
    using inv cb_index_less [OF inv] by (simp_all add: b cb_inv_def)
  have "cb_size ?b = i" using cb_Distance_index [OF inv iM] by (simp add: cb_size_def b)
  moreover have "cb_at ?b j = cb_at b j" for j unfolding b by (simp add: cb_at_def cb_index_def)
  ultimately show "cb_contents ?b = take i (cb_contents b)"
    using i by (intro nth_equalityI) (auto simp: cb_contents_def)
qed

lemma cb_Push_fits:
  assumes inv: "cb_inv b" and fits: "cb_size b + length data < cb_cap b"
  shows "\<exists>r b'. cb_Push b data = Inr (r, b') \<and> cb_inv b' \<and> cb_cap b' = cb_cap b \<and>
    cb_contents b' = cb_contents b @ data \<and> cb_begin b' = cb_begin b \<and>
    rr_left r = cb_index b (cb_size b) \<and>
    (data \<noteq> [] \<longrightarrow> rr_right r = cb_index b (cb_size b + length data - 1))"
proof -
  note I = cb_invD [OF inv] and sz = cb_size_less [OF inv]
  have f: "length data \<le> cb_cap b - cb_size b" using fits by simp
  obtain b' where
    b': "cb_Insert b (cb_index b (cb_size b)) data =
       Inr (\<lparr>rr_left = cb_index b (cb_size b),
             rr_right = ri_sub (cb_cap b) (cb_index b (cb_size b + length data)) 1\<rparr>, b')"
    "cb_inv b'" "cb_cap b' = cb_cap b" "cb_begin b' = cb_begin b"
    and at: "\<And>j. j < cb_cap b \<Longrightarrow> cb_at b' j =
       (if cb_size b \<le> j \<and> j < cb_size b + length data then data ! (j - cb_size b) else cb_at b j)"
    and sz': "cb_size b' = (if cb_size b + length data < cb_cap b
       then max (cb_size b) (cb_size b + length data) else cb_size b)"
    using cb_Insert_ok [OF inv sz f] by blast
  have sz'': "cb_size b' = cb_size b + length data" using sz' fits by simp
  have "cb_contents b' = cb_contents b @ data"
    using at sz'' fits by (intro nth_equalityI) (auto simp: cb_contents_def nth_append)
  moreover have "data \<noteq> [] \<Longrightarrow> ri_sub (cb_cap b) (cb_index b (cb_size b + length data)) 1 =
      cb_index b (cb_size b + length data - 1)"
    using I fits by (simp add: cb_index_def ri_sub_add_le Suc_le_eq)
  ultimately show ?thesis using b' by (simp add: cb_Push_def cb_end_index [OF inv])
qed

interpretation cb: byte_fifo cb_inv cb_contents cb_cap cb_index cb_Push cb_Read cb_Erase cb_EraseFrom
proof (unfold_locales, goal_cases)
  case (1 b) then show ?case by (simp add: cb_size_less)
next
  case (2 b xs)
  then obtain r b' where "cb_Push b xs = Inr (r, b')" "cb_inv b'" "cb_cap b' = cb_cap b"
    "cb_contents b' = cb_contents b @ xs" "cb_begin b' = cb_begin b" "rr_left r = cb_index b (cb_size b)"
    "xs \<noteq> [] \<longrightarrow> rr_right r = cb_index b (cb_size b + length xs - 1)"
    using cb_Push_fits [of b xs] by auto
  then show ?case by (simp add: cb_index_def)
next
  case (3 b xs)
  then show ?case
    using cb_Insert_overflow [of b "cb_size b" xs] cb_size_less [of b] cb_end_index [of b]
    by (auto simp: cb_Push_def)
next
  case (4 b i n) then show ?case using cb_Read_in by simp
next
  case (5 b i n)
  then show ?case using cb_Read_empty [of b i n] cb_Read_out_of_range [of b i n] by fastforce
next
  case (6 b i) then show ?case using cb_Erase_in by simp
next
  case (7 b i) then show ?case using cb_EraseFrom_in by simp
qed

subsection \<open>Sequences of operations\<close>

text \<open>The operations a client applies, with positions given as offsets from the begin, and the
  list they refine.  A push that would fill the ring completely leaves the list as it was.\<close>

datatype fifo_op = FPush "byte list" | FErase nat | FEraseFrom nat

fun fifo_exec :: "circular_buffer \<Rightarrow> fifo_op \<Rightarrow> circular_buffer" where
  "fifo_exec b (FPush xs) = (case cb_Push b xs of Inl _ \<Rightarrow> b | Inr (_, b') \<Rightarrow> b')"
| "fifo_exec b (FErase i) = cb_Erase b (cb_index b i)"
| "fifo_exec b (FEraseFrom i) = cb_EraseFrom b (cb_index b i)"

fun fifo_spec :: "nat \<Rightarrow> byte list \<Rightarrow> fifo_op \<Rightarrow> byte list" where
  "fifo_spec M ys (FPush xs) = (if length ys + length xs < M then ys @ xs else ys)"
| "fifo_spec M ys (FErase i) = (if i \<le> length ys then drop i ys else ys)"
| "fifo_spec M ys (FEraseFrom i) = (if i \<le> length ys then take i ys else ys)"

fun fifo_op_ok :: "nat \<Rightarrow> fifo_op \<Rightarrow> bool" where
  "fifo_op_ok M (FPush xs) = True"
| "fifo_op_ok M (FErase i) = (i < M)"
| "fifo_op_ok M (FEraseFrom i) = (i < M)"

lemma cb_Push_overflow:
  assumes "cb_inv b" "cb_cap b < cb_size b + length data"
  shows "cb_Push b data = Inl kDataOverflow"
proof -
  have "cb_cap b - cb_size b < length data" using assms(2) cb_size_less [OF assms(1)] by linarith
  then show ?thesis
    using cb_Insert_overflow [OF assms(1) cb_size_less [OF assms(1)], of data]
    by (simp add: cb_Push_def cb_end_index [OF assms(1), symmetric])
qed

lemma cb_Push_full:
  assumes inv: "cb_inv b" and full: "cb_size b + length data = cb_cap b"
  shows "\<exists>r b'. cb_Push b data = Inr (r, b') \<and> cb_inv b' \<and> cb_cap b' = cb_cap b \<and>
    cb_contents b' = cb_contents b"
proof -
  note sz = cb_size_less [OF inv]
  have f: "length data \<le> cb_cap b - cb_size b" using full by simp
  obtain b' where b': "cb_Insert b (cb_index b (cb_size b)) data =
       Inr (\<lparr>rr_left = cb_index b (cb_size b),
             rr_right = ri_sub (cb_cap b) (cb_index b (cb_size b + length data)) 1\<rparr>, b')"
    "cb_inv b'" "cb_cap b' = cb_cap b"
    and at: "\<And>j. j < cb_cap b \<Longrightarrow> cb_at b' j =
       (if cb_size b \<le> j \<and> j < cb_size b + length data then data ! (j - cb_size b) else cb_at b j)"
    and sz': "cb_size b' = (if cb_size b + length data < cb_cap b
       then max (cb_size b) (cb_size b + length data) else cb_size b)"
    using cb_Insert_ok [OF inv sz f] by blast
  have "cb_contents b' = cb_contents b"
    using at sz' full sz by (intro nth_equalityI) (auto simp: cb_contents_def)
  then show ?thesis using b' by (auto simp: cb_Push_def cb_end_index [OF inv])
qed

lemma fifo_exec_refines:
  assumes "cb_inv b" "fifo_op_ok (cb_cap b) op"
  shows "cb_inv (fifo_exec b op) \<and> cb_cap (fifo_exec b op) = cb_cap b \<and>
    cb_contents (fifo_exec b op) = fifo_spec (cb_cap b) (cb_contents b) op"
proof (cases op)
  case (FPush xs)
  consider "cb_size b + length xs < cb_cap b" | "cb_size b + length xs = cb_cap b"
    | "cb_cap b < cb_size b + length xs" by linarith
  then show ?thesis
  proof cases
    case 1
    then show ?thesis using cb_Push_fits [OF assms(1) 1] FPush by auto
  next
    case 2
    then show ?thesis using cb_Push_full [OF assms(1) 2] FPush by auto
  next
    case 3
    then show ?thesis using cb.push_overflow [of b xs] assms FPush by auto
  qed
next
  case (FErase i)
  then show ?thesis using assms cb_Erase_in [OF assms(1), of i] cb_Erase_asserts_iff [OF assms(1), of i]
    by (cases "i \<le> cb_size b") (auto simp: cb_Erase_def)
next
  case (FEraseFrom i)
  then show ?thesis using assms cb_EraseFrom_in [OF assms(1), of i] cb_Erase_asserts_iff [OF assms(1), of i]
    by (cases "i \<le> cb_size b") (auto simp: cb_EraseFrom_def)
qed

lemma fifo_run_refines:
  assumes "cb_inv b" "list_all (fifo_op_ok (cb_cap b)) ops"
  shows "cb_inv (foldl fifo_exec b ops) \<and> cb_cap (foldl fifo_exec b ops) = cb_cap b \<and>
    cb_contents (foldl fifo_exec b ops) = foldl (fifo_spec (cb_cap b)) (cb_contents b) ops"
  using assms
proof (induction ops arbitrary: b)
  case Nil
  then show ?case by simp
next
  case (Cons op ops)
  have "cb_inv (fifo_exec b op)" "cb_cap (fifo_exec b op) = cb_cap b"
    "cb_contents (fifo_exec b op) = fifo_spec (cb_cap b) (cb_contents b) op"
    using fifo_exec_refines [of b op] Cons.prems by auto
  with Cons.IH [of "fifo_exec b op"] Cons.prems show ?case by simp
qed

subsection \<open>Properties\<close>

text \<open>(C6) Refinement: from a buffer whose indices are in range, any sequence of pushes, erases
  and truncations at positions of the ring keeps the indices in range and acts on the contents
  as the corresponding operations on a list.\<close>

theorem circular_buffer_refines_list:
  assumes "cb_inv b" "list_all (fifo_op_ok (cb_cap b)) ops"
  shows "cb_inv (foldl fifo_exec b ops) \<and>
    cb_contents (foldl fifo_exec b ops) = foldl (fifo_spec (cb_cap b)) (cb_contents b) ops"
  using fifo_run_refines [OF assms] by blast

theorem circular_buffer_refines_list_witness:
  "cb_contents (foldl fifo_exec (cb_make (replicate 5 0) 3) [FPush [1, 2, 3], FErase 2, FPush [4, 5]])
     = [3, 4, 5]"
proof -
  have inv: "cb_inv (cb_make (replicate 5 0) 3)" by (rule cb_inv_make) (simp add: ring_max_ok_def)
  have c: "cb_contents (cb_make (replicate 5 0) 3) = []"
    using inv by (simp add: cb_contents_def cb_size_def cb_make_def cb_inv_def)
  have M: "cb_cap (cb_make (replicate 5 0) 3) = 5" by (simp add: cb_make_def)
  show ?thesis
    using circular_buffer_refines_list [OF inv, of "[FPush [1, 2, 3], FErase 2, FPush [4, 5]]"]
    by (simp add: M c)
qed

text \<open>What is pushed can be read back: a push that leaves at least one position of the ring
  free returns the range of the new bytes, and reading from the left end of that range returns
  exactly the pushed bytes, also when they wrap around the end of the array.\<close>

theorem circular_buffer_push_read:
  assumes "cb_inv b" "xs \<noteq> []" "cb_size b + length xs < cb_cap b"
  shows "\<exists>r b' d. cb_Push b xs = Inr (r, b') \<and> cb_Read b' (rr_left r) (length xs) = Inr d \<and> ds_bytes d = xs"
  using cb.push_read_back [of b xs] assms by simp

theorem circular_buffer_push_read_witness:
  "\<exists>r b' d. cb_Push (cb_make [0, 0, 0, 0, 0] 3) [7, 8, 9] = Inr (r, b') \<and>
     cb_Read b' (rr_left r) 3 = Inr d \<and> ds_bytes d = [7, 8, 9]"
proof -
  have inv: "cb_inv (cb_make [0, 0, 0, 0, 0] 3)" by (rule cb_inv_make) (simp add: ring_max_ok_def)
  have "cb_size (cb_make [0, 0, 0, 0, 0] 3) = 0"
    using inv by (simp add: cb_size_def cb_make_def cb_inv_def)
  with circular_buffer_push_read [OF inv, of "[7, 8, 9]"] show ?thesis
    by (simp add: cb_make_def numeral_3_eq_3)
qed

text \<open>Every branch of \<^verbatim>\<open>Read\<close>: an offset inside the contents returns the requested
  bytes clamped to what is stored, the end position or an empty buffer is
  \<^verbatim>\<open>kEmptyBuffer\<close>, and a position beyond the end is \<^verbatim>\<open>kIndexOutOfRange\<close>.\<close>

theorem circular_buffer_read_cases:
  assumes "cb_inv b" "i < cb_cap b"
  shows "(if i < cb_size b
      then \<exists>d. cb_Read b (cb_index b i) n = Inr d \<and> ds_bytes d = take n (drop i (cb_contents b))
      else if i = cb_size b \<or> cb_size b = 0 then cb_Read b (cb_index b i) n = Inl kEmptyBuffer
      else cb_Read b (cb_index b i) n = Inl kIndexOutOfRange)"
  using cb_Read_in [OF assms(1)] cb_Read_empty [OF assms(1) _ assms(2)]
    cb_Read_out_of_range [OF assms(1) _ _ assms(2)] by auto

theorem circular_buffer_read_cases_witness:
  "cb_Read \<lparr>cb_begin = 3, cb_end = 1, cb_buffer = [1, 2, 3, 4, 5]\<rparr> (2::nat) 1 = Inl kIndexOutOfRange"
proof -
  let ?b = "\<lparr>cb_begin = 3, cb_end = 1, cb_buffer = [1, 2, 3, 4, 5 :: byte]\<rparr>"
  have inv: "cb_inv ?b" by (simp add: cb_inv_def ring_max_ok_def)
  have "cb_size ?b = 3" "cb_index ?b 4 = 2"
    using inv by (simp_all add: cb_size_def cb_inv_def ri_Distance_if cb_index_def ri_add_mod)
  with circular_buffer_read_cases [OF inv, of 4 1] show ?thesis by simp
qed

text \<open>(C7) A push that exactly fills the ring is accepted although the ring cannot represent a
  full buffer: the result is a range, but the contents stay what they were, so the pushed bytes
  are lost without an error.  A larger push is refused with \<^verbatim>\<open>kDataOverflow\<close>.\<close>

theorem circular_buffer_full_push_lost:
  assumes "cb_inv b"
  shows "(cb_size b + length xs = cb_cap b \<longrightarrow>
      (\<exists>r b'. cb_Push b xs = Inr (r, b') \<and> cb_contents b' = cb_contents b)) \<and>
    (cb_size b + length xs > cb_cap b \<longrightarrow> cb_Push b xs = Inl kDataOverflow)"
proof (intro conjI impI)
  assume "cb_size b + length xs = cb_cap b"
  from cb_Push_full [OF assms this] show "\<exists>r b'. cb_Push b xs = Inr (r, b') \<and> cb_contents b' = cb_contents b" by blast
qed (rule cb_Push_overflow [OF assms])

theorem circular_buffer_full_push_lost_witness:
  "\<exists>r b'. cb_Push (cb_make [0, 0, 0] 1) [7, 8, 9] = Inr (r, b') \<and> cb_contents b' = []"
proof -
  have inv: "cb_inv (cb_make [0, 0, 0] 1)" by (rule cb_inv_make) (simp add: ring_max_ok_def)
  have sz: "cb_size (cb_make [0, 0, 0] 1) = 0"
    using inv by (simp add: cb_size_def cb_make_def cb_inv_def)
  then have "cb_contents (cb_make [0, 0, 0] 1) = []" by (simp add: cb_contents_def)
  with circular_buffer_full_push_lost [OF inv, of "[7, 8, 9]"] sz show ?thesis by (simp add: cb_make_def)
qed

end
