(* ===== verification/Sending_Chunks.thy ===== *)
theory Sending_Chunks
  imports Ring_Index
begin

text \<open>
  \<^verbatim>\<open>aether/safe_stream/details/sending_chunk_list.h\<close>: the chunks a sender has handed to
  the network and not yet seen acknowledged, in the order of their last transmission.

  The size \<open>M\<close> of the ring is the template argument of the index type.  The lemmas show that
  no two chunks share a left end, that registering a chunk again moves it to the back and keeps
  its repeat count, and which chunks an acknowledgement removes.
\<close>

record send_chunk =
  sc_range :: ring_range
  sc_send_time :: nat
  sc_repeat_count :: nat

record send_chunk_list =
  scl_buffer_begin :: ring_index
  scl_chunks :: "send_chunk list"

definition scl_make :: "ring_index \<Rightarrow> send_chunk_list" where
  "scl_make bgn = \<lparr>scl_buffer_begin = bgn, scl_chunks = []\<rparr>"

definition scl_set_buffer_begin :: "send_chunk_list \<Rightarrow> ring_index \<Rightarrow> send_chunk_list" where
  "scl_set_buffer_begin l bgn = l\<lparr>scl_buffer_begin := bgn\<rparr>"

text \<open>\<^verbatim>\<open>std::find_if\<close> and \<^verbatim>\<open>erase\<close> of the element found.\<close>

fun erase_first :: "('a \<Rightarrow> bool) \<Rightarrow> 'a list \<Rightarrow> 'a list" where
  "erase_first P [] = []"
| "erase_first P (x # xs) = (if P x then xs else x # erase_first P xs)"

definition scl_Register :: "send_chunk_list \<Rightarrow> ring_range \<Rightarrow> nat \<Rightarrow> send_chunk_list" where
  "scl_Register l chunk_range send_time =
     (let same = (\<lambda>c. rr_left (sc_range c) = rr_left chunk_range);
          chunk = \<lparr>sc_range = chunk_range, sc_send_time = send_time, sc_repeat_count = 0\<rparr>
      in case find same (scl_chunks l) of
           None \<Rightarrow> l\<lparr>scl_chunks := scl_chunks l @ [chunk]\<rparr>
         | Some old \<Rightarrow>
             l\<lparr>scl_chunks := erase_first same (scl_chunks l) @
                  [chunk\<lparr>sc_repeat_count := sc_repeat_count old\<rparr>]\<rparr>)"

definition scl_RemoveUpTo :: "nat \<Rightarrow> send_chunk_list \<Rightarrow> ring_index \<Rightarrow> send_chunk_list" where
  "scl_RemoveUpTo M l to =
     l\<lparr>scl_chunks := filter (\<lambda>c. \<not> ic_le M (scl_buffer_begin l) (rr_right (sc_range c)) to) (scl_chunks l)\<rparr>"

definition scl_Select :: "nat \<Rightarrow> send_chunk_list \<Rightarrow> ring_range \<Rightarrow> send_chunk option" where
  "scl_Select M l rng =
     find (\<lambda>c. rr_InRange M rng (rr_left (sc_range c)) (scl_buffer_begin l)) (scl_chunks l)"

definition scl_empty :: "send_chunk_list \<Rightarrow> bool" where
  "scl_empty l \<longleftrightarrow> scl_chunks l = []"

subsection \<open>Lemmas\<close>

abbreviation sc_left :: "send_chunk \<Rightarrow> ring_index" where
  "sc_left c \<equiv> rr_left (sc_range c)"

definition scl_distinct :: "send_chunk_list \<Rightarrow> bool" where
  "scl_distinct l \<longleftrightarrow> distinct (map sc_left (scl_chunks l))"

definition scl_repeats :: "send_chunk_list \<Rightarrow> ring_index \<Rightarrow> nat option" where
  "scl_repeats l i = map_option sc_repeat_count (find (\<lambda>c. sc_left c = i) (scl_chunks l))"

lemma find_None_filter: "find P xs = None \<longleftrightarrow> filter P xs = []"
  by (induction xs) auto

lemma erase_first_distinct:
  assumes "distinct (map f xs)"
  shows "erase_first (\<lambda>x. f x = a) xs = filter (\<lambda>x. f x \<noteq> a) xs"
  using assms by (induction xs) (auto simp: image_iff intro!: filter_True [symmetric])

lemma scl_Register_chunks:
  assumes "scl_distinct l"
  shows "scl_chunks (scl_Register l r t) =
    filter (\<lambda>c. sc_left c \<noteq> rr_left r) (scl_chunks l) @
    [\<lparr>sc_range = r, sc_send_time = t,
      sc_repeat_count = (case scl_repeats l (rr_left r) of None \<Rightarrow> 0 | Some n \<Rightarrow> n)\<rparr>]"
proof (cases "find (\<lambda>c. sc_left c = rr_left r) (scl_chunks l)")
  case None
  then have "filter (\<lambda>c. sc_left c \<noteq> rr_left r) (scl_chunks l) = scl_chunks l"
    by (auto simp: find_None_iff filter_id_conv)
  with None show ?thesis by (simp add: scl_Register_def Let_def scl_repeats_def)
next
  case (Some c)
  with assms erase_first_distinct [of sc_left "scl_chunks l" "rr_left r"] show ?thesis
    by (simp add: scl_Register_def Let_def scl_repeats_def scl_distinct_def)
qed

lemma scl_Register_distinct:
  assumes "scl_distinct l"
  shows "scl_distinct (scl_Register l r t)"
  using assms unfolding scl_distinct_def scl_Register_chunks [OF assms]
  by (auto simp: distinct_map_filter)

lemma scl_Register_begin [simp]: "scl_buffer_begin (scl_Register l r t) = scl_buffer_begin l"
  by (simp add: scl_Register_def Let_def split: option.splits)

lemma scl_Register_last:
  "scl_chunks (scl_Register l r t) \<noteq> [] \<and> sc_range (last (scl_chunks (scl_Register l r t))) = r \<and>
   sc_send_time (last (scl_chunks (scl_Register l r t))) = t"
  by (simp add: scl_Register_def Let_def split: option.splits)

lemma scl_Register_repeat:
  assumes "scl_distinct l"
  shows "sc_repeat_count (last (scl_chunks (scl_Register l r t))) =
    (case scl_repeats l (rr_left r) of None \<Rightarrow> 0 | Some n \<Rightarrow> n)"
  by (simp add: scl_Register_chunks [OF assms])

lemma scl_RemoveUpTo_distinct: "scl_distinct l \<Longrightarrow> scl_distinct (scl_RemoveUpTo M l to)"
  by (simp add: scl_distinct_def scl_RemoveUpTo_def distinct_map_filter)

lemma scl_Select_None:
  "scl_Select M l rng = None \<longleftrightarrow>
   (\<forall>c \<in> set (scl_chunks l). \<not> rr_InRange M rng (sc_left c) (scl_buffer_begin l))"
  by (auto simp: scl_Select_def find_None_iff)

subsection \<open>Properties\<close>

text \<open>Registering a chunk puts it, with the new time, at the back of the list, keeps every
  chunk with another left end in its order, leaves no two chunks with the same left end, and
  carries the repeat count over from the previous transmission of the same chunk.\<close>

theorem sending_chunk_register:
  assumes "scl_distinct l"
  shows "scl_distinct (scl_Register l r t) \<and>
    scl_chunks (scl_Register l r t) =
      filter (\<lambda>c. rr_left (sc_range c) \<noteq> rr_left r) (scl_chunks l) @
      [\<lparr>sc_range = r, sc_send_time = t,
        sc_repeat_count = (case scl_repeats l (rr_left r) of None \<Rightarrow> 0 | Some n \<Rightarrow> n)\<rparr>]"
  using scl_Register_distinct [OF assms] scl_Register_chunks [OF assms] by blast

theorem sending_chunk_register_witness:
  "scl_chunks (scl_Register
     \<lparr>scl_buffer_begin = 0, scl_chunks = [\<lparr>sc_range = \<lparr>rr_left = 4, rr_right = 7\<rparr>, sc_send_time = 1, sc_repeat_count = 2\<rparr>,
        \<lparr>sc_range = \<lparr>rr_left = 8, rr_right = 9\<rparr>, sc_send_time = 1, sc_repeat_count = 1\<rparr>]\<rparr>
     \<lparr>rr_left = 4, rr_right = 5\<rparr> 3) =
   [\<lparr>sc_range = \<lparr>rr_left = 8, rr_right = 9\<rparr>, sc_send_time = 1, sc_repeat_count = 1\<rparr>,
    \<lparr>sc_range = \<lparr>rr_left = 4, rr_right = 5\<rparr>, sc_send_time = 3, sc_repeat_count = 2\<rparr>]"
  using sending_chunk_register [of "\<lparr>scl_buffer_begin = 0, scl_chunks = [\<lparr>sc_range = \<lparr>rr_left = 4, rr_right = 7\<rparr>, sc_send_time = 1, sc_repeat_count = 2\<rparr>,
        \<lparr>sc_range = \<lparr>rr_left = 8, rr_right = 9\<rparr>, sc_send_time = 1, sc_repeat_count = 1\<rparr>]\<rparr>"
     "\<lparr>rr_left = 4, rr_right = 5\<rparr>" 3]
  by (simp add: scl_distinct_def scl_repeats_def)

text \<open>An acknowledgement up to an index removes exactly the chunks whose right end lies, seen
  from the begin of the buffer, not after that index; the others keep their order.\<close>

theorem sending_chunk_remove_up_to:
  assumes "ring_max_ok M" "scl_buffer_begin l < M" "to < M"
    and "\<forall>c \<in> set (scl_chunks l). rr_right (sc_range c) < M"
  shows "scl_chunks (scl_RemoveUpTo M l to) =
    filter (\<lambda>c. ri_Distance M (scl_buffer_begin l) to <
                ri_Distance M (scl_buffer_begin l) (rr_right (sc_range c))) (scl_chunks l)"
  using assms by (auto simp: scl_RemoveUpTo_def ic_iffs intro: filter_cong)

theorem sending_chunk_remove_up_to_witness:
  "scl_chunks (scl_RemoveUpTo 10
     \<lparr>scl_buffer_begin = 8, scl_chunks = [\<lparr>sc_range = \<lparr>rr_left = 8, rr_right = 9\<rparr>, sc_send_time = 1, sc_repeat_count = 1\<rparr>,
        \<lparr>sc_range = \<lparr>rr_left = 0, rr_right = 3\<rparr>, sc_send_time = 1, sc_repeat_count = 1\<rparr>]\<rparr> 1) =
   [\<lparr>sc_range = \<lparr>rr_left = 0, rr_right = 3\<rparr>, sc_send_time = 1, sc_repeat_count = 1\<rparr>]"
  using sending_chunk_remove_up_to [of 10 "\<lparr>scl_buffer_begin = 8, scl_chunks = [\<lparr>sc_range = \<lparr>rr_left = 8, rr_right = 9\<rparr>, sc_send_time = 1, sc_repeat_count = 1\<rparr>,
        \<lparr>sc_range = \<lparr>rr_left = 0, rr_right = 3\<rparr>, sc_send_time = 1, sc_repeat_count = 1\<rparr>]\<rparr>" 1]
  by (simp add: ring_max_ok_def ri_Distance_if)

end
