(* ===== verification/Receiving_Chunks.thy ===== *)
theory Receiving_Chunks
  imports Ring_Index
begin

text \<open>
  \<^verbatim>\<open>aether/safe_stream/details/receiving_chunk_list.h\<close>: which ranges of the stream the
  receiver holds beyond the part it has delivered.

  The \<^verbatim>\<open>std::map\<close> of chunks is keyed by the left end under the comparison relative to
  \<open>buffer_begin_\<close>.  That comparison is a strict total order whose equivalence is equality of
  indices, so the map is modelled by an association list with distinct keys; its order is not
  observable.  \<^verbatim>\<open>std::lower_bound\<close> on the vector of ranges is modelled on sorted vectors, and
  sortedness is part of the invariant.

  The abstraction is the set \<open>rcl_cover\<close> of the offsets from \<open>buffer_begin_\<close> that were received.
\<close>

datatype ChunkAddResult = kInvalid | kDuplicate | kAdded | kAddRepeated

record recv_chunk =
  rc_range :: ring_range
  rc_repeat_count :: nat

record recv_chunk_list =
  rcl_buffer_begin :: ring_index
  rcl_chunks :: "(ring_index \<times> recv_chunk) list"
  rcl_ranges :: "ring_range list"

definition rcl_make :: "ring_index \<Rightarrow> recv_chunk_list" where
  "rcl_make bgn = \<lparr>rcl_buffer_begin = bgn, rcl_chunks = [], rcl_ranges = []\<rparr>"

definition rcl_set_buffer_begin :: "recv_chunk_list \<Rightarrow> ring_index \<Rightarrow> recv_chunk_list" where
  "rcl_set_buffer_begin l bgn = l\<lparr>rcl_buffer_begin := bgn\<rparr>"

text \<open>\<^verbatim>\<open>ranges_.insert(std::lower_bound(...), range)\<close>.\<close>

definition rcl_insert_range :: "nat \<Rightarrow> ring_index \<Rightarrow> ring_range \<Rightarrow> ring_range list \<Rightarrow> ring_range list" where
  "rcl_insert_range M bgn r rs =
     takeWhile (\<lambda>a. ic_lt M bgn (rr_left a) (rr_left r)) rs @ r #
     dropWhile (\<lambda>a. ic_lt M bgn (rr_left a) (rr_left r)) rs"

definition rcl_AddChunk ::
  "nat \<Rightarrow> recv_chunk_list \<Rightarrow> ring_range \<Rightarrow> nat \<Rightarrow> ChunkAddResult \<times> recv_chunk_list"
where
  "rcl_AddChunk M l r repeat_count =
     (let ins = (\<lambda>l. l\<lparr>rcl_ranges := rcl_insert_range M (rcl_buffer_begin l) r (rcl_ranges l)\<rparr>)
      in case map_of (rcl_chunks l) (rr_left r) of
        None \<Rightarrow> (kAdded, ins (l\<lparr>rcl_chunks :=
                   (rr_left r, \<lparr>rc_range = r, rc_repeat_count = repeat_count\<rparr>) # rcl_chunks l\<rparr>))
      | Some c \<Rightarrow>
          if rc_range c = r then
            (if rc_repeat_count c \<ge> repeat_count then (kDuplicate, l)
             else (kAddRepeated, l\<lparr>rcl_chunks := map (\<lambda>(k, c').
                     (k, if k = rr_left r then c'\<lparr>rc_repeat_count := repeat_count\<rparr> else c')) (rcl_chunks l)\<rparr>))
          else (kAdded, ins l))"

fun rcl_receive_loop :: "nat \<Rightarrow> ring_index \<Rightarrow> ring_range \<Rightarrow> ring_index \<Rightarrow> ring_range list \<Rightarrow> ring_range" where
  "rcl_receive_loop M bgn rng expected_index [] = rng"
| "rcl_receive_loop M bgn rng expected_index (r # rs) =
     (if ic_gt M bgn (rr_left r) expected_index then rng
      else let rng' = (if ic_gt M bgn (rr_right r) (rr_right rng)
                       then rng\<lparr>rr_right := rr_right r\<rparr> else rng)
           in rcl_receive_loop M bgn rng' (ri_add M (rr_right rng') 1) rs)"

definition rcl_ReceiveChunk :: "nat \<Rightarrow> recv_chunk_list \<Rightarrow> ring_range" where
  "rcl_ReceiveChunk M l =
     rcl_receive_loop M (rcl_buffer_begin l)
       \<lparr>rr_left = rcl_buffer_begin l, rr_right = rcl_buffer_begin l\<rparr> (rcl_buffer_begin l) (rcl_ranges l)"

text \<open>The predicate passed to \<^verbatim>\<open>std::erase_if(ranges_, ...)\<close> drops a range or shifts its
  left boundary.\<close>

definition rcl_ack_range :: "nat \<Rightarrow> ring_index \<Rightarrow> ring_index \<Rightarrow> ring_range \<Rightarrow> ring_range option" where
  "rcl_ack_range M bgn to r =
     (if ic_le M bgn (rr_right r) to then None
      else if ic_le M bgn (rr_left r) to then Some (r\<lparr>rr_left := ri_add M to 1\<rparr>)
      else Some r)"

definition rcl_Acknowledge :: "nat \<Rightarrow> recv_chunk_list \<Rightarrow> ring_index \<Rightarrow> recv_chunk_list" where
  "rcl_Acknowledge M l to =
     l\<lparr>rcl_chunks := filter (\<lambda>(k, c). \<not> ic_le M (rcl_buffer_begin l) k to) (rcl_chunks l),
       rcl_ranges := List.map_filter (rcl_ack_range M (rcl_buffer_begin l) to) (rcl_ranges l)\<rparr>"

fun rcl_missed_loop :: "nat \<Rightarrow> ring_index \<Rightarrow> ring_index \<Rightarrow> ring_range list \<Rightarrow> ring_range option" where
  "rcl_missed_loop M bgn expected [] = None"
| "rcl_missed_loop M bgn expected (r # rs) =
     (if ic_gt M bgn (rr_left r) expected
      then Some \<lparr>rr_left = expected, rr_right = ri_sub M (rr_left r) 1\<rparr>
      else rcl_missed_loop M bgn (ri_add M (rr_right r) 1) rs)"

definition rcl_FindMissedChunk :: "nat \<Rightarrow> recv_chunk_list \<Rightarrow> ring_range option" where
  "rcl_FindMissedChunk M l = rcl_missed_loop M (rcl_buffer_begin l) (rcl_buffer_begin l) (rcl_ranges l)"

definition rcl_empty :: "recv_chunk_list \<Rightarrow> bool" where
  "rcl_empty l \<longleftrightarrow> rcl_chunks l = []"

subsection \<open>Invariant and abstraction\<close>

definition rng_ok :: "nat \<Rightarrow> ring_index \<Rightarrow> ring_range \<Rightarrow> bool" where
  "rng_ok M b r \<longleftrightarrow> rr_left r < M \<and> rr_right r < M \<and>
     ri_Distance M b (rr_left r) \<le> ri_Distance M b (rr_right r) \<and> ri_Distance M b (rr_right r) + 1 < M"

definition rng_offs :: "nat \<Rightarrow> ring_index \<Rightarrow> ring_range \<Rightarrow> nat \<times> nat" where
  "rng_offs M b r = (ri_Distance M b (rr_left r), ri_Distance M b (rr_right r))"

definition rcl_offs :: "nat \<Rightarrow> recv_chunk_list \<Rightarrow> (nat \<times> nat) list" where
  "rcl_offs M l = map (rng_offs M (rcl_buffer_begin l)) (rcl_ranges l)"

definition offs_cover :: "(nat \<times> nat) list \<Rightarrow> nat set" where
  "offs_cover xs = {x. \<exists>(a, b) \<in> set xs. a \<le> x \<and> x \<le> b}"

definition rcl_cover :: "nat \<Rightarrow> recv_chunk_list \<Rightarrow> nat set" where
  "rcl_cover M l = offs_cover (rcl_offs M l)"

definition rcl_inv :: "nat \<Rightarrow> recv_chunk_list \<Rightarrow> bool" where
  "rcl_inv M l \<longleftrightarrow> ring_max_ok M \<and> rcl_buffer_begin l < M \<and>
     (\<forall>r \<in> set (rcl_ranges l). rng_ok M (rcl_buffer_begin l) r) \<and>
     sorted (map fst (rcl_offs M l)) \<and> distinct (map fst (rcl_chunks l))"

text \<open>The end of the contiguous part of a sorted list of intervals, from \<open>e\<close> on.\<close>

fun reach :: "nat \<Rightarrow> (nat \<times> nat) list \<Rightarrow> nat" where
  "reach e [] = e"
| "reach e ((a, b) # xs) = (if a > e then e else reach (max e (Suc b)) xs)"

lemma reach_ge: "e \<le> reach e xs"
  by (induction e xs rule: reach.induct) auto

lemma reach_covered: "e \<le> x \<Longrightarrow> x < reach e xs \<Longrightarrow> x \<in> offs_cover xs"
proof (induction e xs rule: reach.induct)
  case (1 e)
  then show ?case by simp
next
  case (2 e a b xs)
  show ?case
  proof (cases "a > e")
    case True
    then show ?thesis using 2 by simp
  next
    case False
    then consider "x \<le> b" | "Suc b \<le> x" by linarith
    then show ?thesis
    proof cases
      case 1
      then show ?thesis using False 2 by (auto simp: offs_cover_def)
    next
      case 2
      then have "x \<in> offs_cover xs" using "2.IH" "2.prems" False by simp
      then show ?thesis by (auto simp: offs_cover_def)
    qed
  qed
qed

lemma reach_gap:
  assumes "sorted (map fst xs)" "(a, b) \<in> set xs"
  shows "\<not> (a \<le> reach e xs \<and> reach e xs \<le> b)"
  using assms
proof (induction e xs rule: reach.induct)
  case (1 e)
  then show ?case by simp
next
  case (2 e a' b' xs)
  show ?case
  proof (cases "a' > e")
    case True
    then have "e < a" using 2 by auto
    with True show ?thesis by simp
  next
    case False
    show ?thesis
    proof (cases "(a, b) = (a', b')")
      case True
      then show ?thesis using False reach_ge [of "max e (Suc b)" xs] by auto
    next
      case ne: False
      then show ?thesis using False 2 by auto
    qed
  qed
qed

lemma reach_not_covered: "sorted (map fst xs) \<Longrightarrow> reach e xs \<notin> offs_cover xs"
  using reach_gap by (auto simp: offs_cover_def)

subsection \<open>The received prefix\<close>

lemma rng_okD:
  assumes "ring_max_ok M" "b < M" "rng_ok M b r"
  obtains x y where "rr_left r = ri_add M b x" "rr_right r = ri_add M b y" "x \<le> y" "y + 1 < M"
    "rng_offs M b r = (x, y)"
proof -
  have "rr_left r = ri_add M b (ri_Distance M b (rr_left r))"
    "rr_right r = ri_add M b (ri_Distance M b (rr_right r))"
    using assms by (simp_all add: rng_ok_def ri_add_Distance)
  with assms(3) show thesis by (intro that) (auto simp: rng_ok_def rng_offs_def)
qed

lemma rcl_receive_loop_reach:
  assumes "ring_max_ok M" "b < M" "\<forall>r \<in> set rs. rng_ok M b r" "y + 1 < M"
  shows "rcl_receive_loop M b \<lparr>rr_left = b, rr_right = ri_add M b y\<rparr> (ri_add M b (y + 1)) rs =
    \<lparr>rr_left = b, rr_right = ri_add M b (reach (y + 1) (map (rng_offs M b) rs) - 1)\<rparr>"
  using assms
proof (induction rs arbitrary: y)
  case Nil
  then show ?case by simp
next
  case (Cons r rs)
  from Cons.prems obtain x z where r: "rr_left r = ri_add M b x" "rr_right r = ri_add M b z"
    "x \<le> z" "z + 1 < M" "rng_offs M b r = (x, z)" using rng_okD [of M b r] by auto
  have gt: "ic_gt M b (rr_left r) (ri_add M b (y + 1)) \<longleftrightarrow> x > y + 1"
    "ic_gt M b (rr_right r) (ri_add M b y) \<longleftrightarrow> z > y"
    using r Cons.prems by (simp_all add: ic_iffs ri_Distance_add)
  show ?case
  proof (cases "x > y + 1")
    case True
    then show ?thesis using gt r by simp
  next
    case False
    let ?y = "max y z"
    have y: "?y + 1 < M" using r Cons.prems by simp
    have "ri_add M (ri_add M b ?y) 1 = ri_add M b (?y + 1)" using y Cons.prems by (simp add: ri_add_add)
    then show ?thesis
      using False gt r Cons.IH [of ?y] Cons.prems y by (auto simp: max_def)
  qed
qed

lemma rcl_ReceiveChunk_reach:
  assumes "rcl_inv M l"
  shows "rcl_ReceiveChunk M l =
    \<lparr>rr_left = rcl_buffer_begin l,
     rr_right = ri_add M (rcl_buffer_begin l) (reach 0 (rcl_offs M l) - 1)\<rparr>"
proof -
  let ?b = "rcl_buffer_begin l"
  have I: "ring_max_ok M" "?b < M" "\<forall>r \<in> set (rcl_ranges l). rng_ok M ?b r"
    using assms by (auto simp: rcl_inv_def)
  show ?thesis
  proof (cases "rcl_ranges l")
    case Nil
    then show ?thesis using I by (simp add: rcl_ReceiveChunk_def rcl_offs_def)
  next
    case (Cons r rs)
    from I Cons obtain x z where r: "rr_left r = ri_add M ?b x" "rr_right r = ri_add M ?b z"
      "x \<le> z" "z + 1 < M" "rng_offs M ?b r = (x, z)" using rng_okD [of M ?b r] by auto
    have gt: "ic_gt M ?b (rr_left r) ?b \<longleftrightarrow> x > 0" "ic_gt M ?b (rr_right r) ?b \<longleftrightarrow> z > 0"
      using r I by (simp_all add: ic_iffs ri_Distance_add)
    have "ri_add M (ri_add M ?b z) 1 = ri_add M ?b (z + 1)" using r I by (simp add: ri_add_add)
    then show ?thesis
      using Cons gt r I rcl_receive_loop_reach [of M ?b rs z]
      by (cases "z > 0") (auto simp: rcl_ReceiveChunk_def rcl_offs_def)
  qed
qed

subsection \<open>Adding a chunk\<close>

lemma sorted_insert_while:
  fixes f :: "'a \<Rightarrow> nat"
  assumes "sorted (map f xs)"
  shows "sorted (map f (takeWhile (\<lambda>a. f a < f r) xs @ r # dropWhile (\<lambda>a. f a < f r) xs))"
  using assms by (induction xs) (auto simp: sorted_append dest: set_takeWhileD)

lemma set_rcl_insert_range [simp]: "set (rcl_insert_range M b r rs) = insert r (set rs)"
proof -
  have "set (takeWhile P rs) \<union> set (dropWhile P rs) = set rs" for P
    by (metis set_append takeWhile_dropWhile_id)
  then show ?thesis by (simp add: rcl_insert_range_def)
qed

lemma rcl_insert_range_sorted:
  assumes "ring_max_ok M" "b < M" "\<forall>a \<in> set (r # rs). rng_ok M b a"
    and "sorted (map fst (map (rng_offs M b) rs))"
  shows "sorted (map fst (map (rng_offs M b) (rcl_insert_range M b r rs)))"
proof -
  let ?f = "\<lambda>a. ri_Distance M b (rr_left a)"
  have "ic_lt M b (rr_left a) (rr_left r) \<longleftrightarrow> ?f a < ?f r" if "a \<in> set rs" for a
    using that assms by (simp add: ic_iffs rng_ok_def)
  then have "takeWhile (\<lambda>a. ic_lt M b (rr_left a) (rr_left r)) rs = takeWhile (\<lambda>a. ?f a < ?f r) rs"
    "dropWhile (\<lambda>a. ic_lt M b (rr_left a) (rr_left r)) rs = dropWhile (\<lambda>a. ?f a < ?f r) rs"
    by (auto intro: takeWhile_cong dropWhile_cong)
  moreover have "map fst (map (rng_offs M b) xs) = map ?f xs" for xs
    by (simp add: rng_offs_def)
  ultimately show ?thesis using assms(4) sorted_insert_while [of ?f rs r]
    by (simp only: rcl_insert_range_def)
qed

text \<open>The map of chunks and the vector of ranges agree.\<close>

definition rcl_map_inv :: "recv_chunk_list \<Rightarrow> bool" where
  "rcl_map_inv l \<longleftrightarrow>
     (\<forall>(k, c) \<in> set (rcl_chunks l). k = rr_left (rc_range c) \<and> rc_range c \<in> set (rcl_ranges l)) \<and>
     (\<forall>r \<in> set (rcl_ranges l). rr_left r \<in> fst ` set (rcl_chunks l))"

lemma rcl_AddChunk_begin [simp]:
  "rcl_buffer_begin (snd (rcl_AddChunk M l r n)) = rcl_buffer_begin l"
  by (simp add: rcl_AddChunk_def Let_def split: option.splits)

lemma rcl_AddChunk_ranges:
  "rcl_ranges (snd (rcl_AddChunk M l r n)) =
     (if fst (rcl_AddChunk M l r n) = kAdded
      then rcl_insert_range M (rcl_buffer_begin l) r (rcl_ranges l) else rcl_ranges l)"
  by (simp add: rcl_AddChunk_def Let_def split: option.splits)

lemma rcl_AddChunk_keys:
  "fst ` set (rcl_chunks (snd (rcl_AddChunk M l r n))) = insert (rr_left r) (fst ` set (rcl_chunks l))"
proof (cases "map_of (rcl_chunks l) (rr_left r)")
  case None
  then show ?thesis by (simp add: rcl_AddChunk_def Let_def)
next
  case (Some c)
  then have "rr_left r \<in> fst ` set (rcl_chunks l)" by (metis domI dom_map_of_conv_image_fst)
  then have "fst ` (\<lambda>(k, c'). (k, if k = rr_left r then c'\<lparr>rc_repeat_count := n\<rparr> else c')) ` set (rcl_chunks l)
      = insert (rr_left r) (fst ` set (rcl_chunks l))"
    by (force simp: image_image split_beta)
  with Some \<open>rr_left r \<in> _\<close> show ?thesis by (auto simp: rcl_AddChunk_def Let_def)
qed

lemma rcl_AddChunk_distinct:
  assumes "distinct (map fst (rcl_chunks l))"
  shows "distinct (map fst (rcl_chunks (snd (rcl_AddChunk M l r n))))"
proof (cases "map_of (rcl_chunks l) (rr_left r)")
  case None
  then have "rr_left r \<notin> fst ` set (rcl_chunks l)" by (simp add: map_of_eq_None_iff)
  with None assms show ?thesis by (simp add: rcl_AddChunk_def Let_def)
next
  case (Some c)
  then have "map fst (rcl_chunks (snd (rcl_AddChunk M l r n))) = map fst (rcl_chunks l)"
    by (simp add: rcl_AddChunk_def Let_def split_beta o_def)
  with assms show ?thesis by simp
qed

lemma rcl_AddChunk_inv:
  assumes "rcl_inv M l" "rng_ok M (rcl_buffer_begin l) r"
  shows "rcl_inv M (snd (rcl_AddChunk M l r n))"
  using assms rcl_AddChunk_distinct [of l M r n] rcl_insert_range_sorted [of M "rcl_buffer_begin l" r "rcl_ranges l"]
  by (auto simp: rcl_inv_def rcl_offs_def rcl_AddChunk_ranges simp del: map_map)

lemma rcl_AddChunk_cover:
  "rcl_cover M (snd (rcl_AddChunk M l r n)) =
     (if fst (rcl_AddChunk M l r n) = kAdded
      then rcl_cover M l \<union> {ri_Distance M (rcl_buffer_begin l) (rr_left r) ..
                              ri_Distance M (rcl_buffer_begin l) (rr_right r)}
      else rcl_cover M l)"
  by (auto simp: rcl_cover_def rcl_offs_def offs_cover_def rcl_AddChunk_ranges rng_offs_def)

lemma rcl_AddChunk_map_inv:
  assumes "rcl_map_inv l" "distinct (map fst (rcl_chunks l))"
  shows "rcl_map_inv (snd (rcl_AddChunk M l r n))"
proof (cases "map_of (rcl_chunks l) (rr_left r)")
  case None
  then show ?thesis using assms by (auto simp: rcl_map_inv_def rcl_AddChunk_def Let_def)
next
  case (Some c)
  then show ?thesis using assms rcl_AddChunk_keys [of M l r n]
    by (force simp: rcl_map_inv_def rcl_AddChunk_def Let_def split: if_splits)
qed

text \<open>A chunk that is not added is already covered.\<close>

lemma rcl_AddChunk_known:
  assumes "rcl_map_inv l" "fst (rcl_AddChunk M l r n) \<noteq> kAdded"
  shows "r \<in> set (rcl_ranges l)"
proof -
  from assms(2) obtain c where c: "map_of (rcl_chunks l) (rr_left r) = Some c" "rc_range c = r"
    by (auto simp: rcl_AddChunk_def Let_def split: option.splits if_splits)
  then show ?thesis using assms(1) map_of_SomeD [OF c(1)] by (auto simp: rcl_map_inv_def)
qed

subsection \<open>Delivering the received prefix\<close>

lemma reach_less:
  assumes "\<forall>(a, b) \<in> set xs. b + 1 < M" "e < M"
  shows "reach e xs < (M :: nat)"
  using assms by (induction e xs rule: reach.induct) auto

lemma rcl_reach_less:
  assumes "rcl_inv M l"
  shows "reach 0 (rcl_offs M l) < M"
  by (rule reach_less) (use assms in \<open>auto simp: rcl_inv_def rcl_offs_def rng_ok_def rng_offs_def
    ring_max_ok_def\<close>)

text \<open>\<open>Acknowledge\<close> up to the end of the received prefix followed by \<open>set_buffer_begin\<close>.\<close>

definition rcl_advance :: "nat \<Rightarrow> recv_chunk_list \<Rightarrow> nat \<Rightarrow> recv_chunk_list" where
  "rcl_advance M l k =
     rcl_set_buffer_begin (rcl_Acknowledge M l (ri_add M (rcl_buffer_begin l) (k - 1)))
       (ri_add M (rcl_buffer_begin l) k)"

lemma rcl_advance_ranges:
  assumes inv: "rcl_inv M l" and k: "k = reach 0 (rcl_offs M l)" "0 < k"
  shows "rcl_ranges (rcl_advance M l k) =
    filter (\<lambda>r. k < ri_Distance M (rcl_buffer_begin l) (rr_left r)) (rcl_ranges l)"
proof -
  let ?b = "rcl_buffer_begin l" and ?to = "ri_add M (rcl_buffer_begin l) (k - 1)"
  have I: "ring_max_ok M" "?b < M" using inv by (auto simp: rcl_inv_def)
  have kM: "k < M" using rcl_reach_less [OF inv] k by simp
  have to: "?to < M" "ri_Distance M ?b ?to = k - 1" using I kM by (simp_all add: ri_Distance_add)
  have step: "rcl_ack_range M ?b ?to r =
      (if k < ri_Distance M ?b (rr_left r) then Some r else None)" if r: "r \<in> set (rcl_ranges l)" for r
  proof -
    have ok: "rng_ok M ?b r" using inv r by (auto simp: rcl_inv_def)
    have "(ri_Distance M ?b (rr_left r), ri_Distance M ?b (rr_right r)) \<in> set (rcl_offs M l)"
      using r by (force simp: rcl_offs_def rng_offs_def)
    then have "\<not> (ri_Distance M ?b (rr_left r) \<le> k \<and> k \<le> ri_Distance M ?b (rr_right r))"
      using reach_gap inv k by (auto simp: rcl_inv_def)
    then show ?thesis using ok I to k by (auto simp: rcl_ack_range_def ic_iffs rng_ok_def)
  qed
  have "List.map_filter (rcl_ack_range M ?b ?to) rs = filter (\<lambda>r. k < ri_Distance M ?b (rr_left r)) rs"
    if "set rs \<subseteq> set (rcl_ranges l)" for rs
    using that by (induction rs) (auto simp: List.map_filter_simps step simp del: One_nat_def)
  then show ?thesis by (simp add: rcl_advance_def rcl_set_buffer_begin_def rcl_Acknowledge_def)
qed

lemma rcl_advance_offs:
  assumes inv: "rcl_inv M l" and k: "k = reach 0 (rcl_offs M l)" "0 < k"
  shows "rcl_offs M (rcl_advance M l k) =
    map (\<lambda>(a, b). (a - k, b - k)) (filter (\<lambda>(a, b). k < a) (rcl_offs M l))"
proof -
  let ?b = "rcl_buffer_begin l"
  have I: "ring_max_ok M" "?b < M" using inv by (auto simp: rcl_inv_def)
  have bgn: "rcl_buffer_begin (rcl_advance M l k) = ri_add M ?b k"
    by (simp add: rcl_advance_def rcl_set_buffer_begin_def)
  have "rng_offs M (ri_add M ?b k) r = (\<lambda>(a, b). (a - k, b - k)) (rng_offs M ?b r)"
    if "r \<in> set (rcl_ranges l)" "k < ri_Distance M ?b (rr_left r)" for r
  proof -
    have "rng_ok M ?b r" using inv that by (auto simp: rcl_inv_def)
    then show ?thesis using that I by (simp add: rng_offs_def rng_ok_def ri_Distance_shift)
  qed
  then show ?thesis
    unfolding rcl_offs_def bgn rcl_advance_ranges [OF assms]
    by (auto simp: filter_map o_def rng_offs_def)
qed

lemma rcl_advance_inv:
  assumes inv: "rcl_inv M l" and k: "k = reach 0 (rcl_offs M l)" "0 < k"
  shows "rcl_inv M (rcl_advance M l k)"
proof -
  let ?b = "rcl_buffer_begin l"
  have I: "ring_max_ok M" "?b < M" using inv by (auto simp: rcl_inv_def)
  have bgn: "rcl_buffer_begin (rcl_advance M l k) = ri_add M ?b k"
    by (simp add: rcl_advance_def rcl_set_buffer_begin_def)
  have ok: "rng_ok M (ri_add M ?b k) r" if "r \<in> set (rcl_ranges (rcl_advance M l k))" for r
  proof -
    have r: "r \<in> set (rcl_ranges l)" "k < ri_Distance M ?b (rr_left r)"
      using that by (auto simp: rcl_advance_ranges [OF assms])
    then have "rng_ok M ?b r" using inv by (auto simp: rcl_inv_def)
    then show ?thesis using r I by (auto simp: rng_ok_def ri_Distance_shift)
  qed
  have "sorted (map fst (map (\<lambda>(a, b). (a - k, b - k)) (filter (\<lambda>(a, b). k < a) xs)))"
    if "sorted (map fst xs)" for xs :: "(nat \<times> nat) list"
    using that by (induction xs) (auto simp: diff_le_mono)
  then have "sorted (map fst (rcl_offs M (rcl_advance M l k)))"
    using inv by (simp only: rcl_advance_offs [OF assms] rcl_inv_def)
  moreover have "distinct (map fst (rcl_chunks (rcl_advance M l k)))"
    using inv by (simp add: rcl_inv_def rcl_advance_def rcl_set_buffer_begin_def rcl_Acknowledge_def
      distinct_map_filter)
  ultimately show ?thesis using I ok bgn by (simp add: rcl_inv_def)
qed

lemma rcl_advance_map_inv:
  assumes inv: "rcl_inv M l" and k: "k = reach 0 (rcl_offs M l)" "0 < k" and m: "rcl_map_inv l"
  shows "rcl_map_inv (rcl_advance M l k)"
proof -
  let ?b = "rcl_buffer_begin l"
  have I: "ring_max_ok M" "?b < M" using inv by (auto simp: rcl_inv_def)
  have kM: "k < M" using rcl_reach_less [OF inv] k by simp
  have key: "\<not> ic_le M ?b (rr_left r) (ri_add M ?b (k - 1)) \<longleftrightarrow> k < ri_Distance M ?b (rr_left r)"
    if r: "r \<in> set (rcl_ranges l)" for r
  proof -
    have "(ri_Distance M ?b (rr_left r), ri_Distance M ?b (rr_right r)) \<in> set (rcl_offs M l)"
      using r by (force simp: rcl_offs_def rng_offs_def)
    moreover have ok: "rng_ok M ?b r" using inv r by (auto simp: rcl_inv_def)
    ultimately have "ri_Distance M ?b (rr_left r) \<noteq> k"
      using reach_gap [of "rcl_offs M l"] inv k by (fastforce simp: rcl_inv_def rng_ok_def)
    then show ?thesis using ok I kM k by (auto simp: ic_iffs rng_ok_def ri_Distance_add)
  qed
  have ch: "rcl_chunks (rcl_advance M l k) =
      filter (\<lambda>(q, c). \<not> ic_le M ?b q (ri_add M ?b (k - 1))) (rcl_chunks l)"
    by (simp add: rcl_advance_def rcl_set_buffer_begin_def rcl_Acknowledge_def)
  show ?thesis
    using m key unfolding rcl_map_inv_def ch rcl_advance_ranges [OF inv k] by (force simp: image_iff)
qed

subsection \<open>Missing ranges\<close>

fun first_gap :: "nat \<Rightarrow> (nat \<times> nat) list \<Rightarrow> (nat \<times> nat) option" where
  "first_gap e [] = None"
| "first_gap e ((a, b) # xs) = (if a > e then Some (e, a - 1) else first_gap (Suc b) xs)"

lemma rcl_missed_loop_gap:
  assumes "ring_max_ok M" "b < M" "\<forall>r \<in> set rs. rng_ok M b r" "e < M"
  shows "rcl_missed_loop M b (ri_add M b e) rs =
    map_option (\<lambda>(x, y). \<lparr>rr_left = ri_add M b x, rr_right = ri_add M b y\<rparr>)
      (first_gap e (map (rng_offs M b) rs))"
  using assms
proof (induction rs arbitrary: e)
  case Nil
  then show ?case by simp
next
  case (Cons r rs)
  from Cons.prems obtain x z where r: "rr_left r = ri_add M b x" "rr_right r = ri_add M b z"
    "x \<le> z" "z + 1 < M" "rng_offs M b r = (x, z)" using rng_okD [of M b r] by auto
  have "ic_gt M b (rr_left r) (ri_add M b e) \<longleftrightarrow> x > e"
    using r Cons.prems by (simp add: ic_iffs ri_Distance_add)
  moreover have "x > e \<Longrightarrow> ri_sub M (rr_left r) 1 = ri_add M b (x - 1)"
    using r Cons.prems by (simp add: ri_sub_add_le)
  moreover have "ri_add M (rr_right r) 1 = ri_add M b (Suc z)" using r Cons.prems by (simp add: ri_add_add)
  ultimately show ?case using r Cons by simp
qed

lemma first_gap_ge:
  assumes "first_gap e xs = Some (x, y)" "sorted (map snd xs)" "\<forall>(a, b) \<in> set xs. e \<le> Suc b"
  shows "e \<le> x"
  using assms
proof (induction e xs rule: first_gap.induct)
  case (1 e)
  then show ?case by simp
next
  case (2 e a b xs)
  show ?case
  proof (cases "a > e")
    case True
    then show ?thesis using 2 by simp
  next
    case False
    then have "Suc b \<le> x" using 2 by force
    moreover have "e \<le> Suc b" using 2 by simp
    ultimately show ?thesis by simp
  qed
qed

lemma first_gap_Some:
  assumes "first_gap e xs = Some (x, y)" "sorted (map fst xs)" "sorted (map snd xs)"
    "\<forall>(a, b) \<in> set xs. e \<le> Suc b \<and> a \<le> b"
  shows "x \<le> y \<and> {x..y} \<inter> offs_cover xs = {} \<and> Suc y \<in> offs_cover xs \<and> {e..<x} \<subseteq> offs_cover xs"
  using assms
proof (induction e xs rule: first_gap.induct)
  case (1 e)
  then show ?case by simp
next
  case (2 e a b xs)
  show ?case
  proof (cases "a > e")
    case True
    then have "x = e" "y = a - 1" using 2 by auto
    then show ?thesis using 2 True by (auto simp: offs_cover_def)
  next
    case False
    have pre: "first_gap (Suc b) xs = Some (x, y)" "sorted (map snd xs)"
      "\<forall>(a', b') \<in> set xs. Suc b \<le> Suc b' \<and> a' \<le> b'" using 2 False by auto
    have x: "Suc b \<le> x" using first_gap_ge [OF pre(1,2)] pre(3) by auto
    have IH: "x \<le> y" "{x..y} \<inter> offs_cover xs = {}" "Suc y \<in> offs_cover xs"
        "{Suc b..<x} \<subseteq> offs_cover xs"
      using "2.IH" False pre "2.prems"(2) by simp_all
    have eq: "offs_cover ((a, b) # xs) = {a..b} \<union> offs_cover xs" by (auto simp: offs_cover_def)
    have "z \<in> {a..b} \<union> offs_cover xs" if "z \<in> {e..<x}" for z
      using that IH(4) False by (cases "z \<le> b") auto
    moreover have "{x..y} \<inter> {a..b} = {}" using x by auto
    ultimately show ?thesis unfolding eq using IH by blast
  qed
qed

lemma first_gap_None:
  assumes "first_gap e xs = None" "z \<in> offs_cover xs" "e \<le> w" "w \<le> z"
  shows "w \<in> offs_cover xs"
  using assms
proof (induction e xs rule: first_gap.induct)
  case (1 e)
  then show ?case by (simp add: offs_cover_def)
next
  case (2 e a b xs)
  have eq: "offs_cover ((a, b) # xs) = {a..b} \<union> offs_cover xs" by (auto simp: offs_cover_def)
  have "\<not> a > e" "first_gap (Suc b) xs = None" using 2 by (auto split: if_splits)
  then show ?case using 2 unfolding eq by (cases "w \<le> b") auto
qed

lemma first_gap_before: "first_gap e xs = Some (x, y) \<Longrightarrow> \<exists>(a, b) \<in> set xs. x < a"
  by (induction e xs rule: first_gap.induct) (auto split: if_splits)

text \<open>Whatever the order of the ranges, the reported gap begins before some received byte.\<close>

lemma rcl_FindMissedChunk_before:
  assumes "rcl_inv M l" "rcl_FindMissedChunk M l = Some m"
  shows "\<exists>x. rr_left m = ri_add M (rcl_buffer_begin l) x \<and> (\<exists>z \<in> rcl_cover M l. x < z)"
proof -
  let ?b = "rcl_buffer_begin l"
  have I: "ring_max_ok M" "?b < M" "\<forall>r \<in> set (rcl_ranges l). rng_ok M ?b r" using assms by (auto simp: rcl_inv_def)
  have "rcl_FindMissedChunk M l =
    map_option (\<lambda>(x, y). \<lparr>rr_left = ri_add M ?b x, rr_right = ri_add M ?b y\<rparr>) (first_gap 0 (rcl_offs M l))"
    using rcl_missed_loop_gap [OF I, of 0] I by (simp add: rcl_FindMissedChunk_def rcl_offs_def ring_max_ok_def)
  then obtain x y where g: "first_gap 0 (rcl_offs M l) = Some (x, y)" "rr_left m = ri_add M ?b x"
    using assms(2) by (cases "first_gap 0 (rcl_offs M l)") (auto split: prod.splits)
  from first_gap_before [OF g(1)] obtain a b where ab: "(a, b) \<in> set (rcl_offs M l)" "x < a" by auto
  moreover have "a \<le> b" using ab(1) I(3) by (auto simp: rcl_offs_def rng_offs_def rng_ok_def)
  ultimately have "a \<in> rcl_cover M l" by (auto simp: rcl_cover_def offs_cover_def)
  then show ?thesis using g(2) ab(2) by blast
qed

subsection \<open>Properties\<close>

text \<open>(C8) \<^verbatim>\<open>ReceiveChunk\<close> returns the range from the begin of the buffer to the last byte of
  the longest gap-free prefix of what was received: every offset below \<open>k\<close> was received, \<open>k\<close>
  itself was not, and the range ends at offset \<open>k - 1\<close>.  For \<open>k = 0\<close> and for \<open>k = 1\<close> it is
  the same range.\<close>

theorem receive_chunk_longest_prefix:
  assumes "rcl_inv M l"
  shows "\<exists>k < M. {0..<k} \<subseteq> rcl_cover M l \<and> k \<notin> rcl_cover M l \<and>
    rcl_ReceiveChunk M l =
      \<lparr>rr_left = rcl_buffer_begin l, rr_right = ri_add M (rcl_buffer_begin l) (k - 1)\<rparr>"
proof (intro exI conjI)
  let ?k = "reach 0 (rcl_offs M l)"
  show "?k < M" by (rule rcl_reach_less [OF assms])
  show "{0..<?k} \<subseteq> rcl_cover M l"
    using reach_covered [of 0 _ "rcl_offs M l"] by (auto simp: rcl_cover_def)
  show "?k \<notin> rcl_cover M l" using reach_not_covered assms by (auto simp: rcl_cover_def rcl_inv_def)
  show "rcl_ReceiveChunk M l =
      \<lparr>rr_left = rcl_buffer_begin l, rr_right = ri_add M (rcl_buffer_begin l) (?k - 1)\<rparr>"
    by (rule rcl_ReceiveChunk_reach [OF assms])
qed

theorem receive_chunk_longest_prefix_witness:
  "\<exists>k < 1024. {0..<k} \<subseteq> rcl_cover 1024 \<lparr>rcl_buffer_begin = 1000, rcl_chunks = [],
       rcl_ranges = [\<lparr>rr_left = 1000, rr_right = 20\<rparr>, \<lparr>rr_left = 30, rr_right = 40\<rparr>]\<rparr> \<and>
     rcl_ReceiveChunk 1024 \<lparr>rcl_buffer_begin = 1000, rcl_chunks = [],
       rcl_ranges = [\<lparr>rr_left = 1000, rr_right = 20\<rparr>, \<lparr>rr_left = 30, rr_right = 40\<rparr>]\<rparr> =
     \<lparr>rr_left = 1000, rr_right = ri_add 1024 1000 (k - 1)\<rparr>"
proof -
  let ?l = "\<lparr>rcl_buffer_begin = 1000, rcl_chunks = [],
       rcl_ranges = [\<lparr>rr_left = 1000, rr_right = 20\<rparr>, \<lparr>rr_left = 30, rr_right = 40\<rparr>]\<rparr>"
  have ok: "ring_max_ok 1024" by (simp add: ring_max_ok_def)
  then have "rcl_inv 1024 ?l"
    by (simp add: rcl_inv_def rng_ok_def rcl_offs_def rng_offs_def ri_Distance_if)
  from receive_chunk_longest_prefix [OF this] show ?thesis by auto
qed

text \<open>(C9) Adding a well-formed range keeps the list well-formed and sorted, and what is received
  afterwards is what was received before together with the range; a range reported as a
  duplicate or a repetition was received completely before.\<close>

theorem receive_chunk_add:
  assumes "rcl_inv M l" "rcl_map_inv l" "rng_ok M (rcl_buffer_begin l) r"
  shows "rcl_inv M (snd (rcl_AddChunk M l r n)) \<and> rcl_map_inv (snd (rcl_AddChunk M l r n)) \<and>
    rcl_cover M (snd (rcl_AddChunk M l r n)) =
      rcl_cover M l \<union> {ri_Distance M (rcl_buffer_begin l) (rr_left r) ..
                        ri_Distance M (rcl_buffer_begin l) (rr_right r)}"
proof (intro conjI)
  show "rcl_inv M (snd (rcl_AddChunk M l r n))" by (rule rcl_AddChunk_inv [OF assms(1,3)])
  show "rcl_map_inv (snd (rcl_AddChunk M l r n))"
    using assms by (intro rcl_AddChunk_map_inv) (auto simp: rcl_inv_def)
  have "{ri_Distance M (rcl_buffer_begin l) (rr_left r) .. ri_Distance M (rcl_buffer_begin l) (rr_right r)}
      \<subseteq> rcl_cover M l" if "fst (rcl_AddChunk M l r n) \<noteq> kAdded"
    using rcl_AddChunk_known [OF assms(2) that]
    by (force simp: rcl_cover_def offs_cover_def rcl_offs_def rng_offs_def)
  then show "rcl_cover M (snd (rcl_AddChunk M l r n)) =
      rcl_cover M l \<union> {ri_Distance M (rcl_buffer_begin l) (rr_left r) ..
                        ri_Distance M (rcl_buffer_begin l) (rr_right r)}"
    by (auto simp: rcl_AddChunk_cover)
qed

theorem receive_chunk_add_witness:
  "rcl_cover 1024 (snd (rcl_AddChunk 1024 (rcl_make 1000) \<lparr>rr_left = 1010, rr_right = 3\<rparr> 0)) = {10..27}"
proof -
  have ok: "ring_max_ok 1024" by (simp add: ring_max_ok_def)
  have inv: "rcl_inv 1024 (rcl_make 1000)" "rcl_map_inv (rcl_make 1000)"
    using ok by (simp_all add: rcl_inv_def rcl_map_inv_def rcl_make_def rcl_offs_def)
  have r: "rng_ok 1024 (rcl_buffer_begin (rcl_make 1000)) \<lparr>rr_left = 1010, rr_right = 3\<rparr>"
    using ok by (simp add: rng_ok_def rcl_make_def ri_Distance_if)
  from receive_chunk_add [OF inv r, of 0] show ?thesis
    using ok by (simp add: rcl_make_def rcl_cover_def rcl_offs_def offs_cover_def ri_Distance_if)
qed

text \<open>When the received ranges also end in ascending order, \<^verbatim>\<open>FindMissedChunk\<close> returns
  the first gap: all offsets before it and the one after it were received and none inside it;
  and it returns nothing only when there is no gap before a received byte.\<close>

theorem find_missed_chunk_first_gap:
  assumes "rcl_inv M l" "sorted (map snd (rcl_offs M l))"
  shows "case rcl_FindMissedChunk M l of
      Some m \<Rightarrow> (\<exists>x y. m = \<lparr>rr_left = ri_add M (rcl_buffer_begin l) x, rr_right = ri_add M (rcl_buffer_begin l) y\<rparr> \<and>
                  x \<le> y \<and> {x..y} \<inter> rcl_cover M l = {} \<and> {0..<x} \<subseteq> rcl_cover M l \<and> Suc y \<in> rcl_cover M l)
    | None \<Rightarrow> (\<forall>z \<in> rcl_cover M l. {0..z} \<subseteq> rcl_cover M l)"
proof -
  let ?b = "rcl_buffer_begin l"
  have I: "ring_max_ok M" "?b < M" "\<forall>r \<in> set (rcl_ranges l). rng_ok M ?b r" "sorted (map fst (rcl_offs M l))"
    using assms by (auto simp: rcl_inv_def)
  have wf: "\<forall>(a, b) \<in> set (rcl_offs M l). 0 \<le> Suc b \<and> a \<le> b"
    using I(3) by (auto simp: rcl_offs_def rng_offs_def rng_ok_def)
  have eq: "rcl_FindMissedChunk M l =
    map_option (\<lambda>(x, y). \<lparr>rr_left = ri_add M ?b x, rr_right = ri_add M ?b y\<rparr>) (first_gap 0 (rcl_offs M l))"
    using rcl_missed_loop_gap [OF I(1-3), of 0] I by (simp add: rcl_FindMissedChunk_def rcl_offs_def ring_max_ok_def)
  show ?thesis
  proof (cases "first_gap 0 (rcl_offs M l)")
    case None
    then show ?thesis using first_gap_None [OF None] unfolding eq rcl_cover_def by auto
  next
    case (Some g)
    then obtain x y where g: "first_gap 0 (rcl_offs M l) = Some (x, y)" by (cases g) auto
    from first_gap_Some [OF g I(4) assms(2) wf] show ?thesis unfolding eq g rcl_cover_def by auto
  qed
qed

theorem find_missed_chunk_first_gap_witness:
  "\<exists>x y. rcl_FindMissedChunk 1024 \<lparr>rcl_buffer_begin = 1000, rcl_chunks = [],
       rcl_ranges = [\<lparr>rr_left = 1000, rr_right = 20\<rparr>, \<lparr>rr_left = 30, rr_right = 40\<rparr>]\<rparr> =
     Some \<lparr>rr_left = ri_add 1024 1000 x, rr_right = ri_add 1024 1000 y\<rparr> \<and> x \<le> y"
proof -
  let ?l = "\<lparr>rcl_buffer_begin = 1000, rcl_chunks = [],
       rcl_ranges = [\<lparr>rr_left = 1000, rr_right = 20\<rparr>, \<lparr>rr_left = 30, rr_right = 40\<rparr>]\<rparr>"
  have ok: "ring_max_ok 1024" by (simp add: ring_max_ok_def)
  then have inv: "rcl_inv 1024 ?l" "sorted (map snd (rcl_offs 1024 ?l))"
    by (simp_all add: rcl_inv_def rng_ok_def rcl_offs_def rng_offs_def ri_Distance_if)
  have "rcl_FindMissedChunk 1024 ?l \<noteq> None"
    using ok by (simp add: rcl_FindMissedChunk_def ic_iffs ri_Distance_if ri_add_mod)
  with find_missed_chunk_first_gap [OF inv] show ?thesis by (auto split: option.splits)
qed

text \<open>Without that order \<^verbatim>\<open>FindMissedChunk\<close> goes back to the end of a range nested in an earlier
  one: with 0..99, 20..29 and 100..149 received it asks for 30..99 again.\<close>

lemma find_missed_chunk_nested:
  "rcl_FindMissedChunk 1024 (snd (rcl_AddChunk 1024 (snd (rcl_AddChunk 1024 (snd (rcl_AddChunk 1024
      (rcl_make 0) \<lparr>rr_left = 0, rr_right = 99\<rparr> 0)) \<lparr>rr_left = 20, rr_right = 29\<rparr> 0))
      \<lparr>rr_left = 100, rr_right = 149\<rparr> 0)) = Some \<lparr>rr_left = 30, rr_right = 99\<rparr>"
proof -
  have ok: "ring_max_ok 1024" by (simp add: ring_max_ok_def)
  show ?thesis
    by (simp add: rcl_FindMissedChunk_def rcl_AddChunk_def rcl_make_def rcl_insert_range_def Let_def
        ic_iffs ok ri_Distance_if ri_add_mod ri_sub_mod)
qed

end
