(* ===== verification/Safe_Types.thy ===== *)
theory Safe_Types
  imports Circular_Buffer Sending_Chunks Receiving_Chunks
begin

text \<open>
  The plain data of the safe stream: \<^verbatim>\<open>safe_stream_data_message.h\<close> and
  \<^verbatim>\<open>safe_stream_config.h\<close>.  Durations are counted in the ticks of the clock.
\<close>

record DataMessage =
  dm_reset :: bool
  dm_repeat_count :: nat
  dm_delta_offset :: nat
  dm_data :: "byte list"

record SafeStreamConfig =
  cfg_window_size :: nat
  cfg_max_packet_size :: nat
  cfg_max_repeat_count :: nat
  cfg_wait_ack_timeout :: nat
  cfg_send_ack_timeout :: nat
  cfg_send_repeat_timeout :: nat

text \<open>\<^verbatim>\<open>assert(window_size_ < Capacity / 2)\<close> of both constructors.\<close>

definition window_ok :: "nat \<Rightarrow> nat \<Rightarrow> bool" where
  "window_ok M w \<longleftrightarrow> w < M div 2"


lemma window_okD:
  assumes "window_ok M w"
  shows "2 * w + 2 \<le> M" "w + 1 < M"
  using assms by (auto simp: window_ok_def)

subsection \<open>Positions of a stream as ring indices\<close>

text \<open>The byte at position \<open>a\<close> of the stream of a session lives at ring index \<open>ri_make M a\<close>.\<close>

lemma ri_add_make:
  assumes "ring_max_ok M" "k \<le> M"
  shows "ri_add M (ri_make M a) k = ri_make M (a + k)"
  using assms ri_make_less [OF assms(1), of a] by (simp add: ri_add_mod ri_make_def mod_simps)

lemma ri_sub_make:
  assumes "ring_max_ok M" "k \<le> M" "k \<le> a"
  shows "ri_sub M (ri_make M a) k = ri_make M (a - k)"
  using assms ri_add_make [of M k "a - k"] ri_sub_add [of M "ri_make M (a - k)" k] by simp

lemma ri_Distance_make:
  assumes "ring_max_ok M" "a \<le> b" "b < a + M"
  shows "ri_Distance M (ri_make M a) (ri_make M b) = b - a"
  using assms ri_add_make [of M "b - a" a] ri_Distance_add [of M "ri_make M a" "b - a"] by simp

lemma ri_Distance_make_back:
  assumes "ring_max_ok M" "b < a" "a < b + M"
  shows "ri_Distance M (ri_make M a) (ri_make M b) = M - (a - b)"
proof -
  have "ri_make M (a + (M - (a - b))) = ri_make M (b + M)" using assms by (simp add: add.commute)
  also have "\<dots> = ri_make M b" by (simp add: ri_make_def)
  finally show ?thesis
    using assms ri_add_make [of M "M - (a - b)" a] ri_Distance_add [of M "ri_make M a" "M - (a - b)"] by simp
qed

end
