(* ===== verification/Safe_Recv.thy ===== *)
theory Safe_Recv
  imports Safe_Types
begin

text \<open>
  \<^verbatim>\<open>aether/safe_stream/details/safe_stream_recv_action.h\<close>: the receiving side of a safe
  stream.

  The \<^verbatim>\<open>TaskSubscription\<close> members are modelled by whether their task is pending; the
  functions \<open>rv_run_recv\<close>, \<open>rv_run_ack\<close> and \<open>rv_run_missing\<close> are the pending tasks as the scheduler
  runs them.  A subscription is linked until its task object is freed after the call, so the
  acknowledgement task, which does not reset its subscription, leaves it unset, and the
  missing-chunk task leaves it set only when it armed a new one.  The scheduler is
  assumed to accept a task.  What the action hands to its collaborators is the list of events a
  function returns.

  The main result is that, whatever packets of a stream arrive in whatever order and however often,
  the bytes emitted are a prefix of the stream.
\<close>

datatype recv_event = EvReceive "byte list" | EvSendAck nat | EvSendRepeatRequest nat

record receiver =
  rv_window_size :: nat
  rv_buffer :: circular_buffer
  rv_chunks :: "recv_chunk_list option"
  rv_session_offset :: nat
  rv_last_emitted :: ring_index
  rv_recv_enqueued :: bool
  rv_ack_timer :: bool
  rv_missing_timer :: bool

abbreviation rv_M :: "receiver \<Rightarrow> nat" where
  "rv_M s \<equiv> cb_cap (rv_buffer s)"

definition rv_make :: "byte list \<Rightarrow> SafeStreamConfig \<Rightarrow> receiver" where
  "rv_make mem config =
     \<lparr>rv_window_size = cfg_window_size config, rv_buffer = cb_make mem 0, rv_chunks = None,
      rv_session_offset = 0, rv_last_emitted = 0, rv_recv_enqueued = False, rv_ack_timer = False,
      rv_missing_timer = False\<rparr>"

definition rv_EnqueueRecv :: "receiver \<Rightarrow> receiver" where
  "rv_EnqueueRecv s = (if rv_recv_enqueued s then s else s\<lparr>rv_recv_enqueued := True\<rparr>)"

definition rv_EnqueueAck :: "receiver \<Rightarrow> receiver" where
  "rv_EnqueueAck s = (if rv_ack_timer s then s else s\<lparr>rv_ack_timer := True\<rparr>)"

definition rv_EnqueueMissing :: "receiver \<Rightarrow> receiver" where
  "rv_EnqueueMissing s = (if rv_missing_timer s then s else s\<lparr>rv_missing_timer := True\<rparr>)"

text \<open>\<^verbatim>\<open>HandleData\<close> is called with the chunk list set; without one there is nothing to do.\<close>

definition rv_HandleData :: "receiver \<Rightarrow> ring_index \<Rightarrow> nat \<Rightarrow> byte list \<Rightarrow> receiver" where
  "rv_HandleData s received_index repeat_count data =
     (let M = rv_M s;
          bgn = cb_begin (rv_buffer s);
          right = ri_sub M (ri_add M received_index (length data)) 1
      in if ri_Distance M bgn right > rv_window_size s then rv_EnqueueAck s
         else
           let overlap = ri_Distance M bgn received_index > rv_window_size s;
               left = (if overlap then bgn else received_index);
               data_span = (if overlap then drop (ri_Distance M received_index bgn) data else data);
               received_range = \<lparr>rr_left = left, rr_right = right\<rparr>
           in case rv_chunks s of
                None \<Rightarrow> s
              | Some l \<Rightarrow>
                  (case rcl_AddChunk M l received_range repeat_count of
                     (kDuplicate, l') \<Rightarrow> s\<lparr>rv_chunks := Some l'\<rparr>
                   | (kAddRepeated, l') \<Rightarrow> rv_EnqueueAck (s\<lparr>rv_chunks := Some l'\<rparr>)
                   | (_, l') \<Rightarrow>
                       let b = (case cb_Insert (rv_buffer s) left data_span of
                                  Inl _ \<Rightarrow> rv_buffer s | Inr (_, b') \<Rightarrow> b')
                       in rv_EnqueueRecv (s\<lparr>rv_chunks := Some l', rv_buffer := b\<rparr>)))"

definition rv_PushData :: "receiver \<Rightarrow> nat \<Rightarrow> DataMessage \<Rightarrow> receiver" where
  "rv_PushData s index msg =
     (let reset = (case rv_chunks s of
                     None \<Rightarrow> True
                   | Some _ \<Rightarrow> dm_reset msg \<and> rv_session_offset s \<noteq> index);
          s1 = (if reset
                then let b = cb_Reset (rv_buffer s) index
                     in s\<lparr>rv_session_offset := index, rv_buffer := b,
                          rv_chunks := Some (rcl_make (cb_begin b))\<rparr>
                else s);
          received_index = ri_make (rv_M s) (index + dm_delta_offset msg)
      in rv_HandleData s1 received_index (dm_repeat_count msg) (dm_data msg))"

definition rv_HandleCompletedChains :: "receiver \<Rightarrow> receiver \<times> recv_event list" where
  "rv_HandleCompletedChains s =
     (case rv_chunks s of
        None \<Rightarrow> (s, [])
      | Some l \<Rightarrow>
          if rcl_empty l then (s, [])
          else
            let M = rv_M s; recv_range = rcl_ReceiveChunk M l
            in if rr_IsEmpty recv_range then (rv_EnqueueMissing s, [])
               else
                 (case cb_Read (rv_buffer s) (rr_left recv_range) (sz_add (rr_distance M recv_range) 1) of
                    Inr dspan \<Rightarrow>
                      let l' = rcl_Acknowledge M l (rr_right recv_range);
                          b = cb_Erase (rv_buffer s) (ri_add M (rr_right recv_range) 1);
                          l'' = rcl_set_buffer_begin l' (cb_begin b)
                      in (rv_EnqueueAck (s\<lparr>rv_last_emitted := rr_right recv_range,
                                          rv_chunks := Some l'', rv_buffer := b\<rparr>),
                          [EvReceive (ds_bytes dspan)])
                  | Inl _ \<Rightarrow> (rv_EnqueueMissing s, [])))"

definition rv_HandleAcknowledgement :: "receiver \<Rightarrow> recv_event list" where
  "rv_HandleAcknowledgement s = [EvSendAck (u16 (rv_last_emitted s))]"

definition rv_HandleMissing :: "receiver \<Rightarrow> receiver \<times> recv_event list" where
  "rv_HandleMissing s =
     (case rv_chunks s of
        None \<Rightarrow> (s, [])
      | Some l \<Rightarrow>
          (case rcl_FindMissedChunk (rv_M s) l of
             Some res \<Rightarrow> (rv_EnqueueMissing (s\<lparr>rv_missing_timer := False\<rparr>),
                          [EvSendRepeatRequest (u16 (rr_left res))])
           | None \<Rightarrow> (s, [])))"

text \<open>The tasks, as the scheduler runs them when they are pending.\<close>

definition rv_run_recv :: "receiver \<Rightarrow> receiver \<times> recv_event list" where
  "rv_run_recv s =
     (if rv_recv_enqueued s then rv_HandleCompletedChains (s\<lparr>rv_recv_enqueued := False\<rparr>) else (s, []))"

definition rv_run_ack :: "receiver \<Rightarrow> receiver \<times> recv_event list" where
  "rv_run_ack s =
     (if rv_ack_timer s then (s\<lparr>rv_ack_timer := False\<rparr>, rv_HandleAcknowledgement s) else (s, []))"

definition rv_run_missing :: "receiver \<Rightarrow> receiver \<times> recv_event list" where
  "rv_run_missing s =
     (if rv_missing_timer s
      then case rv_HandleMissing s of (s', evs) \<Rightarrow> (s'\<lparr>rv_missing_timer := evs \<noteq> []\<rparr>, evs)
      else (s, []))"

datatype recv_input = RvPacket nat DataMessage | RvRunRecv | RvRunAck | RvRunMissing

fun rv_step :: "receiver \<Rightarrow> recv_input \<Rightarrow> receiver \<times> recv_event list" where
  "rv_step s (RvPacket index msg) = (rv_PushData s index msg, [])"
| "rv_step s RvRunRecv = rv_run_recv s"
| "rv_step s RvRunAck = rv_run_ack s"
| "rv_step s RvRunMissing = rv_run_missing s"

fun received_bytes :: "recv_event list \<Rightarrow> byte list" where
  "received_bytes [] = []"
| "received_bytes (EvReceive d # es) = d @ received_bytes es"
| "received_bytes (_ # es) = received_bytes es"


text \<open>No operation changes the capacity or the window.\<close>

lemma rv_Enqueue_shape [simp]:
  "rv_buffer (rv_EnqueueRecv s) = rv_buffer s" "rv_window_size (rv_EnqueueRecv s) = rv_window_size s"
  "rv_buffer (rv_EnqueueAck s) = rv_buffer s" "rv_window_size (rv_EnqueueAck s) = rv_window_size s"
  "rv_buffer (rv_EnqueueMissing s) = rv_buffer s" "rv_window_size (rv_EnqueueMissing s) = rv_window_size s"
  by (simp_all add: rv_EnqueueRecv_def rv_EnqueueAck_def rv_EnqueueMissing_def)

subsection \<open>Invariant: the buffer holds the stream from the emitted position on\<close>

text \<open>\<open>rv_rel S s0 n s\<close>: the receiver \<open>s\<close> of the session that started at offset \<open>s0\<close> has emitted
  \<open>n\<close> bytes of the stream \<open>S\<close>, and every byte its chunk list records is in the buffer and is the byte
  of the stream at its position.\<close>

definition rv_rel :: "byte list \<Rightarrow> nat \<Rightarrow> nat \<Rightarrow> receiver \<Rightarrow> bool" where
  "rv_rel S s0 n s \<longleftrightarrow>
     (case rv_chunks s of
        None \<Rightarrow> False
      | Some l \<Rightarrow>
          cb_inv (rv_buffer s) \<and> window_ok (rv_M s) (rv_window_size s) \<and>
          rv_session_offset s = s0 \<and> n \<le> length S \<and>
          cb_begin (rv_buffer s) = ri_make (rv_M s) (s0 + n) \<and>
          rcl_buffer_begin l = cb_begin (rv_buffer s) \<and> rcl_inv (rv_M s) l \<and> rcl_map_inv l \<and>
          cb_size (rv_buffer s) \<le> rv_window_size s + 1 \<and>
          (\<forall>x \<in> rcl_cover (rv_M s) l. x < cb_size (rv_buffer s) \<and> n + x < length S \<and>
             cb_at (rv_buffer s) x = S ! (n + x)))"

lemmas rv_Enqueue_defs = rv_EnqueueRecv_def rv_EnqueueAck_def rv_EnqueueMissing_def

lemma rv_rel_Enqueue [simp]:
  "rv_rel S s0 n (rv_EnqueueRecv s) = rv_rel S s0 n s"
  "rv_rel S s0 n (rv_EnqueueAck s) = rv_rel S s0 n s"
  "rv_rel S s0 n (rv_EnqueueMissing s) = rv_rel S s0 n s"
  by (simp_all add: rv_Enqueue_defs rv_rel_def split: option.split)

lemma rv_rel_flags [simp]:
  "rv_rel S s0 n (s\<lparr>rv_recv_enqueued := f\<rparr>) = rv_rel S s0 n s"
  "rv_rel S s0 n (s\<lparr>rv_ack_timer := f\<rparr>) = rv_rel S s0 n s"
  "rv_rel S s0 n (s\<lparr>rv_missing_timer := f\<rparr>) = rv_rel S s0 n s"
  by (simp_all add: rv_rel_def split: option.split)

lemma rv_rel_chunks:
  assumes "rv_rel S s0 n s"
  obtains l where "rv_chunks s = Some l" "cb_inv (rv_buffer s)"
    "window_ok (rv_M s) (rv_window_size s)" "rv_session_offset s = s0" "n \<le> length S"
    "cb_begin (rv_buffer s) = ri_make (rv_M s) (s0 + n)"
    "rcl_buffer_begin l = cb_begin (rv_buffer s)" "rcl_inv (rv_M s) l" "rcl_map_inv l"
    "cb_size (rv_buffer s) \<le> rv_window_size s + 1"
    "\<And>x. x \<in> rcl_cover (rv_M s) l \<Longrightarrow> x < cb_size (rv_buffer s) \<and> n + x < length S \<and>
       cb_at (rv_buffer s) x = S ! (n + x)"
  using assms by (auto simp: rv_rel_def split: option.splits)

text \<open>The part of \<^verbatim>\<open>HandleData\<close> behind the window check, for the range at offset \<open>i\<close>.\<close>

definition rv_store :: "receiver \<Rightarrow> ring_range \<Rightarrow> nat \<Rightarrow> byte list \<Rightarrow> receiver" where
  "rv_store s received_range repeat_count data_span =
     (case rv_chunks s of
        None \<Rightarrow> s
      | Some l \<Rightarrow>
          (case rcl_AddChunk (rv_M s) l received_range repeat_count of
             (kDuplicate, l') \<Rightarrow> s\<lparr>rv_chunks := Some l'\<rparr>
           | (kAddRepeated, l') \<Rightarrow> rv_EnqueueAck (s\<lparr>rv_chunks := Some l'\<rparr>)
           | (_, l') \<Rightarrow>
               let b = (case cb_Insert (rv_buffer s) (rr_left received_range) data_span of
                          Inl _ \<Rightarrow> rv_buffer s | Inr (_, b') \<Rightarrow> b')
               in rv_EnqueueRecv (s\<lparr>rv_chunks := Some l', rv_buffer := b\<rparr>)))"

lemma rcl_AddChunk_not_invalid: "fst (rcl_AddChunk M l r n) \<noteq> kInvalid"
  by (simp add: rcl_AddChunk_def Let_def split: option.splits)

lemma rv_store_known:
  assumes "rv_chunks s = Some l" "rcl_AddChunk (rv_M s) l r rep = (res, l')" "res \<noteq> kAdded"
    and "rv_rel S s0 n s" "rng_ok (rv_M s) (rcl_buffer_begin l) r"
  shows "rv_rel S s0 n (rv_store s r rep d)"
proof -
  have "res \<noteq> kInvalid" using rcl_AddChunk_not_invalid [of "rv_M s" l r rep] assms by auto
  moreover have "rv_rel S s0 n (s\<lparr>rv_chunks := Some l'\<rparr>)"
    using rv_rel_chunks [OF assms(4)] rcl_AddChunk_inv [of "rv_M s" l r rep] rcl_AddChunk_begin [of "rv_M s" l r rep]
      rcl_AddChunk_map_inv [of l "rv_M s" r rep] rcl_AddChunk_cover [of "rv_M s" l r rep] assms
    by (auto simp: rv_rel_def rcl_inv_def)
  ultimately show ?thesis using assms by (cases res) (auto simp: rv_store_def)
qed

lemma rv_store_added:
  assumes l: "rv_chunks s = Some l" "rcl_AddChunk (rv_M s) l r rep = (kAdded, l')"
    and rel: "rv_rel S s0 n s" and r: "rng_ok (rv_M s) (rcl_buffer_begin l) r"
    and i: "rr_left r = cb_index (rv_buffer s) i" "i + length d \<le> rv_window_size s + 1" "d \<noteq> []"
    and right: "ri_Distance (rv_M s) (cb_begin (rv_buffer s)) (rr_right r) = i + length d - 1"
    and S: "n + i + length d \<le> length S" "\<And>j. j < length d \<Longrightarrow> d ! j = S ! (n + i + j)"
  shows "rv_rel S s0 n (rv_store s r rep d)"
proof -
  let ?M = "rv_M s" and ?b = "rv_buffer s"
  from rel l(1) have I: "cb_inv ?b" "window_ok ?M (rv_window_size s)" "rcl_buffer_begin l = cb_begin ?b"
    "rcl_inv ?M l" "rcl_map_inv l" "cb_size ?b \<le> rv_window_size s + 1"
    and cov: "\<And>x. x \<in> rcl_cover ?M l \<Longrightarrow> x < cb_size ?b \<and> n + x < length S \<and> cb_at ?b x = S ! (n + x)"
    by (auto simp: rv_rel_def)
  note w = window_okD [OF I(2)]
  have "i < ?M" and fits: "length d \<le> ?M - i" using w i by auto
  then obtain b' where b': "cb_Insert ?b (rr_left r) d =
       Inr (\<lparr>rr_left = cb_index ?b i, rr_right = ri_sub ?M (cb_index ?b (i + length d)) 1\<rparr>, b')"
    "cb_inv b'" "cb_cap b' = ?M" "cb_begin b' = cb_begin ?b"
    and at: "\<And>j. j < ?M \<Longrightarrow> cb_at b' j = (if i \<le> j \<and> j < i + length d then d ! (j - i) else cb_at ?b j)"
    and sz: "cb_size b' = (if i + length d < ?M then max (cb_size ?b) (i + length d) else cb_size ?b)"
    using cb_Insert_ok [OF I(1), of i d] unfolding i(1) by blast
  have sz': "cb_size b' = max (cb_size ?b) (i + length d)" using sz w i by simp
  have left: "ri_Distance ?M (cb_begin ?b) (rr_left r) = i"
    using cb_Distance_index [OF I(1) \<open>i < ?M\<close>] i(1) by simp
  have cov': "rcl_cover ?M l' = rcl_cover ?M l \<union> {i .. i + length d - 1}"
    using rcl_AddChunk_cover [of ?M l r rep] l(2) left right I(3) by simp
  have "x < cb_size b' \<and> n + x < length S \<and> cb_at b' x = S ! (n + x)" if "x \<in> rcl_cover ?M l'" for x
  proof (cases "i \<le> x \<and> x < i + length d")
    case True
    then have "x - i < length d" by linarith
    then show ?thesis using True S(1) S(2) [of "x - i"] at [of x] sz' w i by auto
  next
    case False
    then have "x \<in> rcl_cover ?M l" using that cov' i(3) by (cases d) auto
    then show ?thesis using False cov [of x] at [of x] sz' cb_size_less [OF I(1)] by auto
  qed
  moreover have "rcl_inv ?M l'" "rcl_map_inv l'" "rcl_buffer_begin l' = cb_begin ?b"
    using rcl_AddChunk_inv [OF I(4) r, of rep] rcl_AddChunk_map_inv [OF I(5), of ?M r rep]
      rcl_AddChunk_begin [of ?M l r rep] I l by (auto simp: rcl_inv_def)
  ultimately have "rv_rel S s0 n (s\<lparr>rv_chunks := Some l', rv_buffer := b'\<rparr>)"
    using rel l(1) b' sz' I i by (simp add: rv_rel_def)
  then show ?thesis using l b'(1) by (simp add: rv_store_def)
qed

lemma rv_store_rel:
  assumes rel: "rv_rel S s0 n s"
    and i: "rr_left r = cb_index (rv_buffer s) i" "rr_right r = cb_index (rv_buffer s) (i + length d - 1)"
      "i + length d \<le> rv_window_size s + 1" "d \<noteq> []"
    and S: "n + i + length d \<le> length S" "\<And>j. j < length d \<Longrightarrow> d ! j = S ! (n + i + j)"
  shows "rv_rel S s0 n (rv_store s r rep d)"
proof -
  obtain l where l: "rv_chunks s = Some l" and I: "cb_inv (rv_buffer s)"
    "window_ok (rv_M s) (rv_window_size s)" "rcl_buffer_begin l = cb_begin (rv_buffer s)"
    using rv_rel_chunks [OF rel] by metis
  note w = window_okD [OF I(2)]
  have d: "ri_Distance (rv_M s) (cb_begin (rv_buffer s)) (rr_right r) = i + length d - 1"
    "ri_Distance (rv_M s) (cb_begin (rv_buffer s)) (rr_left r) = i"
    using w i cb_Distance_index [OF I(1), of i] cb_Distance_index [OF I(1), of "i + length d - 1"] by auto
  have "i \<le> i + length d - 1" using i by (cases d) simp_all
  then have r: "rng_ok (rv_M s) (rcl_buffer_begin l) r"
    using d w i(3) I(3) cb_index_less [OF I(1)] i(1,2) by (auto simp: rng_ok_def)
  obtain res l' where "rcl_AddChunk (rv_M s) l r rep = (res, l')" by fastforce
  then show ?thesis
    using rv_store_known [OF l _ _ rel r] rv_store_added [OF l _ rel r i(1,3,4) d(1) S] by metis
qed

lemma rv_HandleData_store:
  "rv_HandleData s received_index rep data =
     (let M = rv_M s; bgn = cb_begin (rv_buffer s);
          right = ri_sub M (ri_add M received_index (length data)) 1;
          overlap = ri_Distance M bgn received_index > rv_window_size s
      in if ri_Distance M bgn right > rv_window_size s then rv_EnqueueAck s
         else rv_store s \<lparr>rr_left = if overlap then bgn else received_index, rr_right = right\<rparr> rep
                (if overlap then drop (ri_Distance M received_index bgn) data else data))"
  unfolding rv_HandleData_def rv_store_def Let_def ring_range.select_convs by simp

lemma rv_store_shape: "rv_M (rv_store s r rep d) = rv_M s \<and> rv_window_size (rv_store s r rep d) = rv_window_size s"
  by (auto simp: rv_store_def Let_def cb_Insert_cap
      split: option.splits prod.splits ChunkAddResult.splits sum.splits)

lemma rv_HandleData_shape:
  "rv_M (rv_HandleData s i rep d) = rv_M s \<and> rv_window_size (rv_HandleData s i rep d) = rv_window_size s"
  by (simp add: rv_HandleData_store Let_def rv_store_shape)

lemma rv_PushData_shape:
  "rv_M (rv_PushData s i m) = rv_M s \<and> rv_window_size (rv_PushData s i m) = rv_window_size s"
  by (auto simp: rv_PushData_def Let_def rv_HandleData_shape split: option.splits)

lemma rv_step_shape:
  "rv_step s inp = (s', evs) \<Longrightarrow> rv_M s' = rv_M s \<and> rv_window_size s' = rv_window_size s"
  by (cases inp) (auto simp: rv_PushData_shape rv_run_recv_def rv_run_ack_def rv_run_missing_def
      rv_HandleMissing_def rv_HandleCompletedChains_def Let_def
      split: if_splits option.splits prod.splits sum.splits)

text \<open>A packet of the stream: \<open>len\<close> bytes of \<open>S\<close> from position \<open>p\<close> on, seen while \<open>n\<close> bytes have been
  emitted.  It ends inside the window and does not start a full ring minus the window behind.\<close>

definition fresh_packet :: "nat \<Rightarrow> nat \<Rightarrow> byte list \<Rightarrow> nat \<Rightarrow> nat \<Rightarrow> byte list \<Rightarrow> bool" where
  "fresh_packet M w S n p data \<longleftrightarrow>
     data \<noteq> [] \<and> p + length data \<le> length S \<and> data = take (length data) (drop p S) \<and>
     p + length data \<le> n + w + 1 \<and> n + w < p + M"

lemma rv_HandleData_rel:
  assumes rel: "rv_rel S s0 n s" and f: "fresh_packet (rv_M s) (rv_window_size s) S n p data"
  shows "rv_rel S s0 n (rv_HandleData s (ri_make (rv_M s) (s0 + p)) rep data)"
proof -
  let ?M = "rv_M s" and ?b = "rv_buffer s" and ?k = "length data" and ?w = "rv_window_size s"
  obtain l where I: "cb_inv ?b" "window_ok ?M ?w" "cb_begin ?b = ri_make ?M (s0 + n)"
    using rv_rel_chunks [OF rel] by metis
  have R: "ring_max_ok ?M" using I by (simp add: cb_inv_def)
  note w = window_okD [OF I(2)]
  obtain q where q: "?k = Suc q" using f by (cases data) (auto simp: fresh_packet_def)
  have k: "?k \<le> ?M" "p + q < length S" "p + q \<le> n + ?w" "n + ?w < p + ?M"
    using f q by (auto simp: fresh_packet_def)
  have d: "data ! j = S ! (p + j)" if "j < ?k" for j
    using f that k nth_take [of j ?k "drop p S"] by (simp add: fresh_packet_def)
  have right: "ri_sub ?M (ri_add ?M (ri_make ?M (s0 + p)) ?k) 1 = ri_make ?M (s0 + p + q)"
    using R k q ri_sub_make [of ?M 1 "s0 + p + ?k"] by (simp add: ri_add_make)
  show ?thesis
  proof (cases "p + q < n")
    case True
    have "ri_Distance ?M (ri_make ?M (s0 + n)) (ri_make ?M (s0 + p + q)) = ?M - (n - (p + q))"
      using True R k ri_Distance_make_back [of ?M "s0 + p + q" "s0 + n"] by simp
    then have "ri_Distance ?M (ri_make ?M (s0 + n)) (ri_make ?M (s0 + p + q)) > ?w"
      using True k by linarith
    then show ?thesis using rel I by (simp add: rv_HandleData_store Let_def right del: One_nat_def)
  next
    case False
    have in_w: "\<not> ri_Distance ?M (ri_make ?M (s0 + n)) (ri_make ?M (s0 + p + q)) > ?w"
      using False R k w ri_Distance_make [of ?M "s0 + n" "s0 + p + q"] by simp
    have ov: "ri_Distance ?M (ri_make ?M (s0 + n)) (ri_make ?M (s0 + p)) > ?w \<longleftrightarrow> p < n"
      using R k w False ri_Distance_make [of ?M "s0 + n" "s0 + p"]
        ri_Distance_make_back [of ?M "s0 + p" "s0 + n"] by (cases "p < n") auto
    have dist: "p < n \<Longrightarrow> ri_Distance ?M (ri_make ?M (s0 + p)) (ri_make ?M (s0 + n)) = n - p"
      using R k ri_Distance_make [of ?M "s0 + p" "s0 + n"] by simp
    have idx: "i \<le> ?M \<Longrightarrow> cb_index ?b i = ri_make ?M (s0 + n + i)" for i
      using I R by (simp add: cb_index_def ri_add_make)
    have "rv_rel S s0 n (rv_store s \<lparr>rr_left = if p < n then ri_make ?M (s0 + n) else ri_make ?M (s0 + p),
        rr_right = ri_make ?M (s0 + p + q)\<rparr> rep (drop (n - p) data))"
      using False k w d q idx [of "p - n"] idx [of "p + q - n"]
      by (cases "p < n"; intro rv_store_rel [OF rel, of _ "p - n"]) (auto simp: add.assoc add.commute [of q p])
    then show ?thesis
      using in_w ov dist I by (cases "p < n") (simp_all add: rv_HandleData_store Let_def right del: One_nat_def)
  qed
qed

lemma rv_rel_reset:
  assumes "cb_inv (rv_buffer s)" "window_ok (rv_M s) (rv_window_size s)"
  shows "rv_rel S index 0 (s\<lparr>rv_session_offset := index, rv_buffer := cb_Reset (rv_buffer s) index,
    rv_chunks := Some (rcl_make (cb_begin (cb_Reset (rv_buffer s) index)))\<rparr>)"
proof -
  have "ring_max_ok (rv_M s)" using assms by (simp add: cb_inv_def)
  then show ?thesis using assms cb_inv_Reset [OF assms(1), of index]
    by (simp add: rv_rel_def cb_Reset_def rcl_make_def rcl_inv_def rcl_map_inv_def rcl_offs_def cb_size_def
      rcl_cover_def offs_cover_def)
qed

text \<open>What a receiver may be given: before the first packet nothing but a sane buffer is known, and a
  packet then starts the session; later a \<^verbatim>\<open>reset\<close> flag repeats the index of the session.\<close>

definition rv_ok :: "byte list \<Rightarrow> nat \<Rightarrow> nat \<Rightarrow> receiver \<Rightarrow> bool" where
  "rv_ok S s0 n s \<longleftrightarrow>
     (if rv_chunks s = None
      then n = 0 \<and> cb_inv (rv_buffer s) \<and> window_ok (rv_M s) (rv_window_size s)
      else rv_rel S s0 n s)"

definition genuine_packet :: "byte list \<Rightarrow> nat \<Rightarrow> nat \<Rightarrow> receiver \<Rightarrow> nat \<Rightarrow> DataMessage \<Rightarrow> nat \<Rightarrow> bool" where
  "genuine_packet S s0 n s index msg p \<longleftrightarrow>
     ri_make (rv_M s) (index + dm_delta_offset msg) = ri_make (rv_M s) (s0 + p) \<and>
     fresh_packet (rv_M s) (rv_window_size s) S n p (dm_data msg) \<and>
     (rv_chunks s = None \<or> dm_reset msg \<longrightarrow> index = s0)"

lemma rv_PushData_rel:
  assumes "rv_ok S s0 n s" "genuine_packet S s0 n s index msg p"
  shows "rv_rel S s0 n (rv_PushData s index msg)"
proof -
  define s1 where "s1 = (if rv_chunks s = None
     then s\<lparr>rv_session_offset := index, rv_buffer := cb_Reset (rv_buffer s) index,
       rv_chunks := Some (rcl_make (cb_begin (cb_Reset (rv_buffer s) index)))\<rparr> else s)"
  have "rv_rel S s0 n s1"
    using assms rv_rel_reset [of s S index] by (auto simp: rv_ok_def genuine_packet_def s1_def)
  moreover have "rv_M s1 = rv_M s" "rv_window_size s1 = rv_window_size s"
    by (auto simp: s1_def cb_Reset_def)
  moreover have "rv_PushData s index msg =
      rv_HandleData s1 (ri_make (rv_M s) (s0 + p)) (dm_repeat_count msg) (dm_data msg)"
    using assms by (auto simp: rv_PushData_def Let_def s1_def genuine_packet_def rv_ok_def rv_rel_def
      split: option.splits)
  ultimately show ?thesis using rv_HandleData_rel [of S s0 n s1 p] assms by (simp add: genuine_packet_def)
qed

subsection \<open>Emission\<close>

text \<open>The number of bytes that are contiguous from the emitted position on.\<close>

definition rv_ready :: "receiver \<Rightarrow> nat" where
  "rv_ready s = (case rv_chunks s of None \<Rightarrow> 0 | Some l \<Rightarrow> reach 0 (rcl_offs (rv_M s) l))"

lemma rcl_advance_cover:
  assumes "rcl_inv M l" "k = reach 0 (rcl_offs M l)" "0 < k" "x \<in> rcl_cover M (rcl_advance M l k)"
  shows "x + k \<in> rcl_cover M l"
proof -
  from assms(4) obtain a b where ab: "(a, b) \<in> set (rcl_offs M l)" "k < a" "a - k \<le> x" "x \<le> b - k"
    by (auto simp: rcl_cover_def offs_cover_def rcl_advance_offs [OF assms(1-3)])
  then have "a \<le> x + k" "x + k \<le> b" by linarith+
  then show ?thesis using ab(1) by (auto simp: rcl_cover_def offs_cover_def)
qed

lemma rv_ready_covered:
  assumes "rv_chunks s = Some l" "x < rv_ready s"
  shows "x \<in> rcl_cover (rv_M s) l"
  using assms reach_covered [of 0 x] by (simp add: rv_ready_def rcl_cover_def)

lemma rv_ready_bounds:
  assumes rel: "rv_rel S s0 n s"
  shows "rv_ready s \<le> cb_size (rv_buffer s)" "n + rv_ready s \<le> length S" "rv_ready s < rv_M s"
proof -
  obtain l where l: "rv_chunks s = Some l" "cb_inv (rv_buffer s)" "n \<le> length S"
    and cov: "\<And>x. x \<in> rcl_cover (rv_M s) l \<Longrightarrow> x < cb_size (rv_buffer s) \<and> n + x < length S"
    using rv_rel_chunks [OF rel] by metis
  have *: "x < cb_size (rv_buffer s)" "n + x < length S" if "x < rv_ready s" for x
    using cov [OF rv_ready_covered [OF l(1) that]] by auto
  show "rv_ready s \<le> cb_size (rv_buffer s)" 
    using *(1) [of "cb_size (rv_buffer s)"] by (cases "cb_size (rv_buffer s) < rv_ready s") simp_all
  then show "rv_ready s < rv_M s" using cb_size_less [OF l(2)] by simp
  have "rv_ready s \<le> length S - n"
  proof (rule ccontr)
    assume "\<not> rv_ready s \<le> length S - n"
    then show False using *(2) [of "length S - n"] l(3) by simp
  qed
  then show "n + rv_ready s \<le> length S" using l(3) by simp
qed

text \<open>Nothing is emitted when at most one byte is ready.\<close>

lemma rv_HandleCompletedChains_wait:
  assumes rel: "rv_rel S s0 n s" and k: "rv_ready s \<le> 1"
  shows "rv_HandleCompletedChains s =
    (if rcl_empty (the (rv_chunks s)) then s else rv_EnqueueMissing s, [])"
proof -
  obtain l where l: "rv_chunks s = Some l" "rcl_inv (rv_M s) l" "ring_max_ok (rv_M s)" "rcl_buffer_begin l < rv_M s"
    using rv_rel_chunks [OF rel] by (metis rcl_inv_def)
  have "rr_IsEmpty (rcl_ReceiveChunk (rv_M s) l)"
    using k l by (simp add: rcl_ReceiveChunk_reach rr_IsEmpty_def rv_ready_def)
  then show ?thesis using l by (simp add: rv_HandleCompletedChains_def Let_def)
qed

lemma rv_HandleCompletedChains_emit:
  assumes rel: "rv_rel S s0 n s" and k: "k = rv_ready s" "1 < k" and l: "rv_chunks s = Some l"
  shows "rv_HandleCompletedChains s =
    (rv_EnqueueAck (s\<lparr>rv_last_emitted := cb_index (rv_buffer s) (k - 1),
        rv_chunks := Some (rcl_advance (rv_M s) l k),
        rv_buffer := cb_Erase (rv_buffer s) (cb_index (rv_buffer s) k)\<rparr>),
     [EvReceive (take k (drop n S))])"
proof -
  let ?M = "rv_M s" and ?b = "rv_buffer s"
  from rel l have I: "cb_inv ?b" "rcl_buffer_begin l = cb_begin ?b" "rcl_inv ?M l" "rcl_map_inv l"
    and cov: "\<And>x. x \<in> rcl_cover ?M l \<Longrightarrow> x < cb_size ?b \<and> n + x < length S \<and> cb_at ?b x = S ! (n + x)"
    by (auto simp: rv_rel_def)
  note C = cb_invD [OF I(1)]
  have in_k: "x < cb_size ?b \<and> n + x < length S \<and> cb_at ?b x = S ! (n + x)" if "x < k" for x
    using cov rv_ready_covered [OF l] that k by blast
  have kM: "k < ?M" "k \<le> cb_size ?b" "n + k \<le> length S" using rv_ready_bounds [OF rel] k by simp_all
  have rng: "rcl_ReceiveChunk ?M l = \<lparr>rr_left = cb_begin ?b, rr_right = cb_index ?b (k - 1)\<rparr>"
    using rcl_ReceiveChunk_reach [OF I(3)] k l I(2) by (simp add: rv_ready_def cb_index_def)
  have dist: "ri_Distance ?M (cb_begin ?b) (cb_index ?b (k - 1)) = k - 1"
    using cb_Distance_index [OF I(1), of "k - 1"] kM by simp
  have "cb_begin ?b \<noteq> cb_index ?b (k - 1)" using dist k C ri_Distance_self [of ?M "cb_begin ?b"] by auto
  then have ne: "\<not> rr_IsEmpty (rcl_ReceiveChunk ?M l)" by (simp add: rng rr_IsEmpty_def)
  have "rcl_ranges l \<noteq> []" using k l by (auto simp: rv_ready_def rcl_offs_def)
  then have "\<not> rcl_empty l" using I(4) by (cases "rcl_ranges l") (auto simp: rcl_empty_def rcl_map_inv_def)
  moreover have "sz_add (k - 1) 1 = k" using k kM C by (simp add: size_simps)
  moreover obtain d where d: "cb_Read ?b (cb_begin ?b) k = Inr d" "ds_bytes d = take k (cb_contents ?b)"
    using cb_Read_in [OF I(1), of 0 k] k kM C by (auto simp: cb_index_def)
  moreover have "take k (cb_contents ?b) = take k (drop n S)"
    using in_k kM by (intro nth_equalityI) (auto simp: cb_contents_def)
  moreover have succ: "ri_add ?M (cb_index ?b (k - 1)) 1 = cb_index ?b k"
    using ri_add_add [of ?M "cb_begin ?b" "k - 1" 1] C k kM by (simp add: cb_index_def)
  moreover have "cb_begin (cb_Erase ?b (cb_index ?b k)) = cb_index ?b k"
    by (rule cb_Erase_in(3) [OF I(1) kM(2)])
  ultimately show ?thesis
    using l ne dist I(2)
    by (simp add: rv_HandleCompletedChains_def Let_def rng rr_distance_def rcl_advance_def cb_index_def del: One_nat_def)
qed

lemma rv_emit_rel:
  assumes rel: "rv_rel S s0 n s" and k: "k = rv_ready s" "0 < k" and l: "rv_chunks s = Some l"
  shows "rv_rel S s0 (n + k) (s\<lparr>rv_last_emitted := e, rv_chunks := Some (rcl_advance (rv_M s) l k),
        rv_buffer := cb_Erase (rv_buffer s) (cb_index (rv_buffer s) k)\<rparr>)"
proof -
  let ?M = "rv_M s" and ?b = "rv_buffer s"
  from rel l have I: "cb_inv ?b" "rcl_buffer_begin l = cb_begin ?b" "rcl_inv ?M l" "rcl_map_inv l"
    "cb_begin ?b = ri_make ?M (s0 + n)" "cb_size ?b \<le> rv_window_size s + 1"
    and cov: "\<And>x. x \<in> rcl_cover ?M l \<Longrightarrow> x < cb_size ?b \<and> n + x < length S \<and> cb_at ?b x = S ! (n + x)"
    by (auto simp: rv_rel_def)
  have kr: "k = reach 0 (rcl_offs ?M l)" using k l by (simp add: rv_ready_def)
  have kb: "k \<le> cb_size ?b" "n + k \<le> length S" using rv_ready_bounds [OF rel] k by simp_all
  note E = cb_Erase_in [OF I(1) kb(1)]
  note adv = rcl_advance_inv [OF I(3) kr k(2)] rcl_advance_map_inv [OF I(3) kr k(2) I(4)]
  have sz: "cb_size (cb_Erase ?b (cb_index ?b k)) = cb_size ?b - k"
    using arg_cong [OF E(5), of length] by simp
  have idx: "cb_index ?b k = ri_make ?M (s0 + (n + k))"
    using I kb(1) cb_size_less [OF I(1)] cb_invD [OF I(1)] by (simp add: cb_index_def ri_add_make add.assoc)
  have bgn: "rcl_buffer_begin (rcl_advance ?M l k) = cb_index ?b k"
    using I(2) by (simp add: rcl_advance_def rcl_set_buffer_begin_def cb_index_def)
  have "x < cb_size ?b - k \<and> n + k + x < length S \<and>
      cb_at (cb_Erase ?b (cb_index ?b k)) x = S ! (n + k + x)" if "x \<in> rcl_cover ?M (rcl_advance ?M l k)" for x
    using cov [OF rcl_advance_cover [OF I(3) kr k(2) that]] E(6) [of x] cb_size_less [OF I(1)]
    by (auto simp: algebra_simps)
  moreover have "cb_size ?b - k \<le> rv_window_size s + 1" using I(6) by linarith
  ultimately show ?thesis using rel l E adv sz idx bgn kb by (simp add: rv_rel_def)
qed

lemma rv_HandleCompletedChains_rel:
  assumes "rv_rel S s0 n s" "rv_HandleCompletedChains s = (s', evs)"
  shows "rv_rel S s0 (n + length (received_bytes evs)) s' \<and>
    received_bytes evs = (if rv_ready s \<le> 1 then [] else take (rv_ready s) (drop n S))"
proof (cases "rv_ready s \<le> 1")
  case True
  then show ?thesis using rv_HandleCompletedChains_wait [OF assms(1)] assms by (auto split: if_splits)
next
  case False
  obtain l where l: "rv_chunks s = Some l" using assms(1) by (auto simp: rv_rel_def split: option.splits)
  show ?thesis
    using False rv_HandleCompletedChains_emit [OF assms(1) refl _ l] rv_emit_rel [OF assms(1) refl _ l]
      rv_ready_bounds [OF assms(1)] assms(2) by auto
qed


subsection \<open>Executions\<close>

text \<open>\<open>rv_exec S s0 init s out\<close>: from \<open>init\<close>, by packets of the stream and by its own tasks in any
  order, the receiver has come to \<open>s\<close> and emitted \<open>out\<close>.\<close>

inductive rv_exec :: "byte list \<Rightarrow> nat \<Rightarrow> receiver \<Rightarrow> receiver \<Rightarrow> byte list \<Rightarrow> bool" for S s0 init where
  start: "rv_exec S s0 init init []"
| packet: "rv_exec S s0 init s out \<Longrightarrow> genuine_packet S s0 (length out) s index msg p \<Longrightarrow>
    rv_step s (RvPacket index msg) = (s', evs) \<Longrightarrow> rv_exec S s0 init s' (out @ received_bytes evs)"
| task: "rv_exec S s0 init s out \<Longrightarrow> inp \<in> {RvRunRecv, RvRunAck, RvRunMissing} \<Longrightarrow>
    rv_step s inp = (s', evs) \<Longrightarrow> rv_exec S s0 init s' (out @ received_bytes evs)"

lemma rv_run_ack_ok:
  assumes "rv_ok S s0 n s" "rv_run_ack s = (s', evs)"
  shows "rv_ok S s0 n s' \<and> received_bytes evs = []"
  using assms by (auto simp: rv_run_ack_def rv_HandleAcknowledgement_def rv_ok_def split: if_splits)

lemma rv_run_missing_ok:
  assumes "rv_ok S s0 n s" "rv_run_missing s = (s', evs)"
  shows "rv_ok S s0 n s' \<and> received_bytes evs = []"
  using assms by (auto simp: rv_run_missing_def rv_HandleMissing_def rv_ok_def rv_Enqueue_defs
    split: if_splits option.splits prod.splits)

lemma rv_run_recv_ok:
  assumes "rv_ok S s0 n s" "rv_run_recv s = (s', evs)"
  shows "rv_ok S s0 (n + length (received_bytes evs)) s' \<and>
    received_bytes evs = take (length (received_bytes evs)) (drop n S)"
proof (cases "rv_chunks s = None \<or> \<not> rv_recv_enqueued s")
  case True
  then show ?thesis
    using assms by (auto simp: rv_run_recv_def rv_HandleCompletedChains_def rv_ok_def split: if_splits)
next
  case False
  let ?s = "s\<lparr>rv_recv_enqueued := False\<rparr>"
  have "rv_rel S s0 n ?s" "rv_HandleCompletedChains ?s = (s', evs)"
    using False assms by (auto simp: rv_run_recv_def rv_ok_def)
  note res = rv_HandleCompletedChains_rel [OF this]
  then have rel: "rv_rel S s0 (n + length (received_bytes evs)) s'" by (rule conjunct1)
  have "received_bytes evs = take (if rv_ready ?s \<le> 1 then 0 else rv_ready ?s) (drop n S)"
    using conjunct2 [OF res] by simp
  then have "received_bytes evs = take (length (received_bytes evs)) (drop n S)" by (blast intro: take_own_length)
  moreover have "rv_chunks s' \<noteq> None" using rel by (auto simp: rv_rel_def split: option.splits)
  ultimately show ?thesis using rel by (auto simp: rv_ok_def)
qed

lemma rv_exec_ok:
  assumes "rv_exec S s0 init s out" "rv_ok S s0 0 init"
  shows "rv_ok S s0 (length out) s \<and> out = take (length out) S"
  using assms
proof induction
  case start
  then show ?case by simp
next
  case (packet s out index msg p s' evs)
  then have "rv_rel S s0 (length out) s'" "evs = []" using rv_PushData_rel [of S s0 "length out" s] by auto
  then show ?case using packet.IH packet.prems by (auto simp: rv_ok_def rv_rel_def split: option.splits)
next
  case (task s out inp s' evs)
  then have IH: "rv_ok S s0 (length out) s" "out = take (length out) S" by auto
  have "rv_ok S s0 (length out + length (received_bytes evs)) s' \<and>
      received_bytes evs = take (length (received_bytes evs)) (drop (length out) S)"
    using task.hyps rv_run_recv_ok [OF IH(1)] rv_run_ack_ok [OF IH(1)] rv_run_missing_ok [OF IH(1)]
    by auto
  then show ?case using IH(2) by (metis length_append take_add)
qed

lemma rv_ok_make:
  assumes "ring_max_ok (length mem)" "window_ok (length mem) (cfg_window_size config)"
  shows "rv_ok S s0 0 (rv_make mem config)"
  using assms cb_inv_make [of mem 0] by (simp add: rv_ok_def rv_make_def cb_make_def)


text \<open>Runs of the three tasks only.\<close>

fun rv_run_tasks :: "receiver \<Rightarrow> recv_input list \<Rightarrow> receiver \<times> recv_event list" where
  "rv_run_tasks s [] = (s, [])"
| "rv_run_tasks s (inp # inps) =
     (case rv_step s inp of (s1, evs) \<Rightarrow>
      case rv_run_tasks s1 inps of (s2, evs') \<Rightarrow> (s2, evs @ evs'))"

lemma received_bytes_append [simp]: "received_bytes (xs @ ys) = received_bytes xs @ received_bytes ys"
  by (induction xs rule: received_bytes.induct) auto

lemma rv_ready_flags [simp]:
  "rv_ready (s\<lparr>rv_recv_enqueued := f\<rparr>) = rv_ready s"
  "rv_ready (s\<lparr>rv_ack_timer := f\<rparr>) = rv_ready s"
  "rv_ready (s\<lparr>rv_missing_timer := f\<rparr>) = rv_ready s"
  "rv_ready (rv_EnqueueMissing s) = rv_ready s"
  by (simp_all add: rv_ready_def rv_Enqueue_defs split: option.split)

lemma rv_waiting_step:
  assumes "rv_rel S s0 n s" "rv_ready s \<le> 1" "inp \<in> {RvRunRecv, RvRunAck, RvRunMissing}"
    and "rv_step s inp = (s', evs)"
  shows "rv_rel S s0 n s' \<and> rv_ready s' = rv_ready s \<and> received_bytes evs = []"
  using assms rv_HandleCompletedChains_wait [of S s0 n "s\<lparr>rv_recv_enqueued := False\<rparr>"]
  by (auto simp: rv_run_recv_def rv_run_ack_def rv_run_missing_def rv_HandleMissing_def
      rv_HandleAcknowledgement_def split: if_splits option.splits prod.splits)

lemma rv_waiting_run:
  assumes "rv_rel S s0 n s" "rv_ready s \<le> 1" "set inps \<subseteq> {RvRunRecv, RvRunAck, RvRunMissing}"
  shows "received_bytes (snd (rv_run_tasks s inps)) = []"
  using assms
proof (induction inps arbitrary: s)
  case (Cons inp inps)
  obtain s1 evs where st: "rv_step s inp = (s1, evs)" by fastforce
  have "rv_rel S s0 n s1 \<and> rv_ready s1 = rv_ready s \<and> received_bytes evs = []"
    using rv_waiting_step [OF Cons.prems(1,2) _ st] Cons.prems(3) by simp
  then show ?case using Cons.IH [of s1] Cons.prems st by (auto split: prod.splits)
qed simp


subsection \<open>Properties\<close>


definition test_config :: SafeStreamConfig where
  "test_config = \<lparr>cfg_window_size = 3, cfg_max_packet_size = 2, cfg_max_repeat_count = 5,
     cfg_wait_ack_timeout = 10, cfg_send_ack_timeout = 1, cfg_send_repeat_timeout = 1\<rparr>"

definition test_msg :: "nat \<Rightarrow> byte list \<Rightarrow> DataMessage" where
  "test_msg delta data = \<lparr>dm_reset = False, dm_repeat_count = 0, dm_delta_offset = delta, dm_data = data\<rparr>"

definition test_receiver :: receiver where
  "test_receiver = rv_make [0, 0, 0, 0, 0, 0, 0, 0, 0, 0] test_config"

text \<open>The receiver after its first packet, two bytes at offset 9 of the ring of 10.\<close>

definition test_receiver_1 :: receiver where
  "test_receiver_1 = \<lparr>rv_window_size = 3,
      rv_buffer = \<lparr>cb_begin = 9, cb_end = 1, cb_buffer = [2, 0, 0, 0, 0, 0, 0, 0, 0, 1]\<rparr>,
      rv_chunks = Some \<lparr>rcl_buffer_begin = 9,
        rcl_chunks = [(9, \<lparr>rc_range = \<lparr>rr_left = 9, rr_right = 0\<rparr>, rc_repeat_count = 0\<rparr>)],
        rcl_ranges = [\<lparr>rr_left = 9, rr_right = 0\<rparr>]\<rparr>,
      rv_session_offset = 9, rv_last_emitted = 0, rv_recv_enqueued = True, rv_ack_timer = False,
      rv_missing_timer = False\<rparr>"

lemma test_receiver_step: "rv_step test_receiver (RvPacket 9 (test_msg 0 [1, 2])) = (test_receiver_1, [])"
  by code_simp

definition test_receiver_2 :: receiver where
  "test_receiver_2 = \<lparr>rv_window_size = 3,
      rv_buffer = \<lparr>cb_begin = 1, cb_end = 1, cb_buffer = [2, 0, 0, 0, 0, 0, 0, 0, 0, 1]\<rparr>,
      rv_chunks = Some \<lparr>rcl_buffer_begin = 1, rcl_chunks = [], rcl_ranges = []\<rparr>,
      rv_session_offset = 9, rv_last_emitted = 0, rv_recv_enqueued = False, rv_ack_timer = True,
      rv_missing_timer = False\<rparr>"

lemma test_receiver_emits: "rv_step test_receiver_1 RvRunRecv = (test_receiver_2, [EvReceive [1, 2]])"
  by code_simp

lemma rv_exec_example_1: "rv_exec [1, 2, 3, 4] 9 test_receiver test_receiver_1 []"
proof -
  have "genuine_packet [1, 2, 3, 4] 9 (length []) test_receiver 9 (test_msg 0 [1, 2]) 0" by code_simp
  from rv_exec.packet [OF rv_exec.start this test_receiver_step] show ?thesis by simp
qed

lemma rv_exec_example_2: "rv_exec [1, 2, 3, 4] 9 test_receiver test_receiver_2 [1, 2]"
  using rv_exec.task [OF rv_exec_example_1 _ test_receiver_emits] by simp


text \<open>What the receive task emits in a reachable state: with \<open>k\<close> the number of bytes received
  without a gap from the emitted position on, it emits exactly the next \<open>k\<close> bytes of the stream when
  \<open>k\<close> is at least two, and nothing otherwise; then those bytes are gone from the buffer and an
  acknowledgement is pending.\<close>

theorem receiver_emits_contiguous_run:
  assumes "ring_max_ok (length mem)" "window_ok (length mem) (cfg_window_size config)"
    and "rv_exec S s0 (rv_make mem config) s out" "rv_chunks s = Some l"
  shows "\<exists>k. {0..<k} \<subseteq> rcl_cover (rv_M s) l \<and> k \<notin> rcl_cover (rv_M s) l \<and>
    (case rv_HandleCompletedChains s of (s', evs) \<Rightarrow>
       evs = (if k \<le> 1 then [] else [EvReceive (take k (drop (length out) S))]) \<and>
       (1 < k \<longrightarrow> rv_ack_timer s' \<and> cb_contents (rv_buffer s') = drop k (cb_contents (rv_buffer s)) \<and>
          rv_last_emitted s' = ri_make (rv_M s) (s0 + length out + k - 1)))"
proof -
  have rel: "rv_rel S s0 (length out) s"
    using rv_exec_ok [OF assms(3) rv_ok_make [OF assms(1,2)]] assms(4) by (simp add: rv_ok_def)
  let ?k = "rv_ready s" and ?b = "rv_buffer s"
  have I: "rcl_inv (rv_M s) l" "cb_inv ?b" "cb_begin ?b = ri_make (rv_M s) (s0 + length out)"
    using rel assms(4) by (auto simp: rv_rel_def)
  have "{0..<?k} \<subseteq> rcl_cover (rv_M s) l" using rv_ready_covered [OF assms(4)] by auto
  moreover have "?k \<notin> rcl_cover (rv_M s) l"
    using reach_not_covered I assms(4) by (simp add: rv_ready_def rcl_cover_def rcl_inv_def)
  moreover have "case rv_HandleCompletedChains s of (s', evs) \<Rightarrow>
      evs = (if ?k \<le> 1 then [] else [EvReceive (take ?k (drop (length out) S))]) \<and>
      (1 < ?k \<longrightarrow> rv_ack_timer s' \<and> cb_contents (rv_buffer s') = drop ?k (cb_contents (rv_buffer s)) \<and>
         rv_last_emitted s' = ri_make (rv_M s) (s0 + length out + ?k - 1))"
  proof (cases "?k \<le> 1")
    case True
    then show ?thesis using rv_HandleCompletedChains_wait [OF rel] by simp
  next
    case False
    have "cb_index ?b (?k - 1) = ri_make (rv_M s) (s0 + length out + ?k - 1)"
      using I(3) False rv_ready_bounds(3) [OF rel] cb_invD(1) [OF I(2)] ri_add_make [of "rv_M s" "?k - 1"]
      by (simp add: cb_index_def)
    moreover have "cb_contents (cb_Erase ?b (cb_index ?b ?k)) = drop ?k (cb_contents ?b)"
      by (rule cb_Erase_in(5) [OF I(2) rv_ready_bounds(1) [OF rel]])
    moreover have "1 < ?k" using False by simp
    ultimately show ?thesis
      unfolding rv_HandleCompletedChains_emit [OF rel refl \<open>1 < ?k\<close> assms(4)] by (simp add: rv_EnqueueAck_def)
  qed
  ultimately show ?thesis by (intro exI [of _ ?k] conjI)
qed

theorem receiver_emits_contiguous_run_witness:
  "\<exists>k. {0..<k} \<subseteq> rcl_cover (rv_M test_receiver_1) (the (rv_chunks test_receiver_1)) \<and>
    k \<notin> rcl_cover (rv_M test_receiver_1) (the (rv_chunks test_receiver_1)) \<and>
    (case rv_HandleCompletedChains test_receiver_1 of (s', evs) \<Rightarrow>
       evs = (if k \<le> 1 then [] else [EvReceive (take k (drop (length ([] :: byte list)) [1, 2, 3, 4]))]) \<and>
       (1 < k \<longrightarrow> rv_ack_timer s' \<and>
          cb_contents (rv_buffer s') = drop k (cb_contents (rv_buffer test_receiver_1)) \<and>
          rv_last_emitted s' = ri_make (rv_M test_receiver_1) (9 + length ([] :: byte list) + k - 1)))"
  by (rule receiver_emits_contiguous_run [OF _ _ rv_exec_example_1 [unfolded test_receiver_def]])
    (simp_all add: ring_max_ok_def window_ok_def test_config_def test_receiver_1_def)

text \<open>(C11) A message of a single byte is not delivered: when exactly one byte is ready, the range
  from it to itself counts as empty, so none of the receiver's tasks ever emits it, in whatever order
  and however often they run, until another byte arrives.\<close>

theorem receiver_single_byte_not_emitted:
  assumes "ring_max_ok (length mem)" "window_ok (length mem) (cfg_window_size config)"
    and "rv_exec S s0 (rv_make mem config) s out" "rv_chunks s = Some l"
    and "0 \<in> rcl_cover (rv_M s) l" "1 \<notin> rcl_cover (rv_M s) l"
    and "set inps \<subseteq> {RvRunRecv, RvRunAck, RvRunMissing}"
  shows "received_bytes (snd (rv_run_tasks s inps)) = []"
proof -
  have rel: "rv_rel S s0 (length out) s"
    using rv_exec_ok [OF assms(3) rv_ok_make [OF assms(1,2)]] assms(4) by (simp add: rv_ok_def)
  have "rv_ready s \<le> 1" using rv_ready_covered [OF assms(4), of 1] assms(6) by fastforce
  then show ?thesis using rv_waiting_run [OF rel _ assms(7)] by simp
qed

text \<open>The receiver that holds one byte.\<close>

definition test_receiver_byte :: receiver where
  "test_receiver_byte = \<lparr>rv_window_size = 3,
      rv_buffer = \<lparr>cb_begin = 9, cb_end = 0, cb_buffer = [0, 0, 0, 0, 0, 0, 0, 0, 0, 7]\<rparr>,
      rv_chunks = Some \<lparr>rcl_buffer_begin = 9,
        rcl_chunks = [(9, \<lparr>rc_range = \<lparr>rr_left = 9, rr_right = 9\<rparr>, rc_repeat_count = 0\<rparr>)],
        rcl_ranges = [\<lparr>rr_left = 9, rr_right = 9\<rparr>]\<rparr>,
      rv_session_offset = 9, rv_last_emitted = 0, rv_recv_enqueued = True, rv_ack_timer = False,
      rv_missing_timer = False\<rparr>"

lemma rv_exec_example_byte: "rv_exec [7, 8, 9] 9 test_receiver test_receiver_byte []"
proof -
  have "genuine_packet [7, 8, 9] 9 (length []) test_receiver 9 (test_msg 0 [7]) 0" by code_simp
  moreover have "rv_step test_receiver (RvPacket 9 (test_msg 0 [7])) = (test_receiver_byte, [])"
    by code_simp
  ultimately show ?thesis using rv_exec.packet [OF rv_exec.start] by fastforce
qed

theorem receiver_single_byte_not_emitted_witness:
  "received_bytes (snd (rv_run_tasks test_receiver_byte [RvRunRecv, RvRunMissing, RvRunRecv])) = []"
proof -
  let ?l = "\<lparr>rcl_buffer_begin = 9,
        rcl_chunks = [(9, \<lparr>rc_range = \<lparr>rr_left = 9, rr_right = 9\<rparr>, rc_repeat_count = 0\<rparr>)],
        rcl_ranges = [\<lparr>rr_left = 9, rr_right = 9\<rparr>]\<rparr>"
  have "rv_chunks test_receiver_byte = Some ?l" "rv_M test_receiver_byte = 10"
    by (simp_all add: test_receiver_byte_def)
  moreover have "rcl_cover 10 ?l = {0}"
    by (auto simp: rcl_cover_def rcl_offs_def rng_offs_def offs_cover_def ri_Distance_def Let_def size_simps)
  ultimately show ?thesis
    using receiver_single_byte_not_emitted [OF _ _ rv_exec_example_byte [unfolded test_receiver_def],
        of ?l "[RvRunRecv, RvRunMissing, RvRunRecv]"]
    by (simp add: ring_max_ok_def window_ok_def test_config_def)
qed

text \<open>A packet that ends before the emitted position is recognised as old: nothing but the
  acknowledgement timer changes.\<close>

theorem receiver_old_packet_only_acked:
  assumes "rv_rel S s0 n s" "fresh_packet (rv_M s) (rv_window_size s) S n p data" "p + length data \<le> n"
  shows "rv_HandleData s (ri_make (rv_M s) (s0 + p)) rep data = s\<lparr>rv_ack_timer := True\<rparr>"
proof -
  let ?M = "rv_M s" and ?w = "rv_window_size s"
  have I: "cb_begin (rv_buffer s) = ri_make ?M (s0 + n)" "ring_max_ok ?M"
    using assms(1) by (auto simp: rv_rel_def cb_inv_def split: option.splits)
  obtain q where q: "length data = Suc q" using assms(2) by (cases data) (auto simp: fresh_packet_def)
  have k: "p + q < n" "n + ?w < p + ?M" "Suc q \<le> ?M" using assms q by (auto simp: fresh_packet_def)
  have right: "ri_sub ?M (ri_add ?M (ri_make ?M (s0 + p)) (length data)) 1 = ri_make ?M (s0 + p + q)"
    using I k q ri_sub_make [of ?M 1 "s0 + p + length data"] by (simp add: ri_add_make)
  have "ri_Distance ?M (ri_make ?M (s0 + n)) (ri_make ?M (s0 + p + q)) = ?M - (n - (p + q))"
    using I k ri_Distance_make_back [of ?M "s0 + p + q" "s0 + n"] by simp
  then have "ri_Distance ?M (ri_make ?M (s0 + n)) (ri_make ?M (s0 + p + q)) > ?w" using k by linarith
  then show ?thesis by (simp add: rv_HandleData_store Let_def right I rv_EnqueueAck_def del: One_nat_def)
qed

theorem receiver_old_packet_only_acked_witness:
  "rv_HandleData test_receiver_2 (ri_make 10 (9 + 0)) 1 [1, 2] = test_receiver_2\<lparr>rv_ack_timer := True\<rparr>"
proof -
  let ?s = test_receiver_2 and ?S = "[1, 2, 3, 4] :: byte list"
  have shape: "rv_M ?s = 10" "rv_window_size ?s = 3" "rv_chunks ?s \<noteq> None" by (simp_all add: test_receiver_2_def)
  have "rv_ok ?S 9 (length [1, 2 :: byte]) ?s"
    using rv_exec_ok [OF rv_exec_example_2 [unfolded test_receiver_def] rv_ok_make]
    by (simp add: ring_max_ok_def window_ok_def test_config_def)
  then have "rv_rel ?S 9 2 ?s" using shape by (simp add: rv_ok_def numeral_2_eq_2)
  from receiver_old_packet_only_acked [OF this, of 0 "[1, 2]" 1] shape show ?thesis
    by (simp add: fresh_packet_def)
qed

end
