(* ===== verification/Statistics.thy ===== *)
theory Statistics
  imports Aether_Prelude "HOL-Library.Multiset"
begin

text \<open>
  \<^verbatim>\<open>aether/types/statistic_counter.h\<close>: the sliding window of measurements behind the retransmission
  timeout of a safe stream and the channel statistics.

  The values live in an \<^verbatim>\<open>etl::circular_buffer\<close>, which is not part of the repository: a counter is
  the list of the stored values, oldest first, and the library's \<^verbatim>\<open>push\<close> is the argument \<open>push\<close> of the
  operations that use it.  The predicate \<open>window_push\<close> states what the library documents of it: a
  push appends, and drops from the front only what exceeds the capacity.
\<close>

definition st_Add :: "('a list \<Rightarrow> 'a \<Rightarrow> 'a list) \<Rightarrow> 'a list \<Rightarrow> 'a \<Rightarrow> 'a list" where
  "st_Add push values v = push values v"

definition st_Insert :: "('a list \<Rightarrow> 'a \<Rightarrow> 'a list) \<Rightarrow> 'a list \<Rightarrow> 'a list \<Rightarrow> 'a list" where
  "st_Insert push values vs = foldl push values vs"

text \<open>\<^verbatim>\<open>std::max_element\<close> and \<^verbatim>\<open>std::min_element\<close> over the non-empty buffer.\<close>

fun st_max :: "'a :: linorder list \<Rightarrow> 'a option" where
  "st_max [] = None"
| "st_max (x # xs) = Some (foldl (\<lambda>m v. if m < v then v else m) x xs)"

fun st_min :: "'a :: linorder list \<Rightarrow> 'a option" where
  "st_min [] = None"
| "st_min (x # xs) = Some (foldl (\<lambda>m v. if v < m then v else m) x xs)"

text \<open>\<^verbatim>\<open>std::ceil((size - 1) * P / 100.0)\<close>; the quotient is exact in double precision or differs from
  an integer by at least a hundredth, so the ceiling is the exact one.\<close>

definition st_index :: "nat \<Rightarrow> nat \<Rightarrow> nat" where
  "st_index P n = ((n - 1) * P + 99) div 100"

definition st_percentile :: "nat \<Rightarrow> 'a :: linorder list \<Rightarrow> 'a option" where
  "st_percentile P values =
     (if P = 0 then st_min values
      else if P = 100 then st_max values
      else if values = [] then None
      else Some (sort values ! st_index P (length values)))"

definition st_size :: "'a list \<Rightarrow> nat" where
  "st_size values = length values"

definition st_empty :: "'a list \<Rightarrow> bool" where
  "st_empty values \<longleftrightarrow> values = []"

subsection \<open>The library's buffer\<close>

definition window_push :: "nat \<Rightarrow> ('a list \<Rightarrow> 'a \<Rightarrow> 'a list) \<Rightarrow> bool" where
  "window_push cap push \<longleftrightarrow> 0 < cap \<and>
     (\<forall>xs v. length xs \<le> cap \<longrightarrow> push xs v = drop (Suc (length xs) - cap) (xs @ [v]))"

lemma window_pushD:
  assumes "window_push cap push" "length xs \<le> cap"
  shows "push xs v = drop (Suc (length xs) - cap) (xs @ [v])" "length (push xs v) = min cap (Suc (length xs))"
    "push xs v \<noteq> []" "set (push xs v) \<subseteq> insert v (set xs)"
proof -
  show *: "push xs v = drop (Suc (length xs) - cap) (xs @ [v])" using assms by (simp add: window_push_def)
  have "length (drop (Suc (length xs) - cap) (xs @ [v])) = Suc (length xs) - (Suc (length xs) - cap)"
    by (simp only: length_drop) simp
  also have "\<dots> = min cap (Suc (length xs))" by linarith
  finally show len: "length (push xs v) = min cap (Suc (length xs))" by (simp only: *)
  have "0 < cap" using assms by (simp add: window_push_def)
  then show "push xs v \<noteq> []" using len by fastforce
  show "set (push xs v) \<subseteq> insert v (set xs)" using set_drop_subset [of _ "xs @ [v]"] * by fastforce
qed

lemma window_push_foldl:
  assumes w: "window_push cap push" and "length xs \<le> cap"
  shows "foldl push xs vs = drop (length xs + length vs - cap) (xs @ vs)"
  using assms(2)
proof (induction vs arbitrary: xs)
  case (Cons v vs)
  note P = window_pushD [OF w Cons.prems]
  let ?d = "Suc (length xs) - cap"
  have pos: "0 < cap" using w by (simp add: window_push_def)
  have n: "length (push xs v) + length vs - cap + ?d = length xs + length (v # vs) - cap"
    using Cons.prems unfolding P(2) by (simp add: min_def add.commute)
  have "foldl push xs (v # vs) = drop (length (push xs v) + length vs - cap) (push xs v @ vs)"
    using Cons.IH [of "push xs v"] P(2) by simp
  also have "push xs v @ vs = drop ?d (xs @ v # vs)" using Cons.prems pos by (simp add: P(1))
  finally show ?case by (simp only: drop_drop n)
qed simp

text \<open>A buffer that keeps the last \<open>cap\<close> values behaves this way.\<close>

definition push_last :: "nat \<Rightarrow> 'a list \<Rightarrow> 'a \<Rightarrow> 'a list" where
  "push_last cap xs v = drop (Suc (length xs) - cap) (xs @ [v])"

lemma window_push_last: "0 < cap \<Longrightarrow> window_push cap (push_last cap)"
  by (simp add: window_push_def push_last_def)

subsection \<open>Order statistics\<close>

lemma foldl_max: "foldl (\<lambda>m v. if m < v then v else m) x xs = Max (set (x # xs))"
  for x :: "'a :: linorder"
proof (induction xs arbitrary: x)
  case (Cons y ys)
  have "(if x < y then y else x) = max x y" by auto
  then show ?case using Cons [of "max x y"] by (cases "ys = []") (simp_all add: max.assoc)
qed simp

lemma foldl_min: "foldl (\<lambda>m v. if v < m then v else m) x xs = Min (set (x # xs))"
  for x :: "'a :: linorder"
proof (induction xs arbitrary: x)
  case (Cons y ys)
  have "(if y < x then y else x) = min x y" by auto
  then show ?case using Cons [of "min x y"] by (cases "ys = []") (simp_all add: min.assoc)
qed simp

lemma st_max_Max: "values \<noteq> [] \<Longrightarrow> st_max values = Some (Max (set values))"
  by (cases "values") (simp_all only: st_max.simps foldl_max list.distinct simp_thms)

lemma st_min_Min: "values \<noteq> [] \<Longrightarrow> st_min values = Some (Min (set values))"
  by (cases "values") (simp_all only: st_min.simps foldl_min list.distinct simp_thms)

lemma st_index_less: "0 < n \<Longrightarrow> P \<le> 100 \<Longrightarrow> st_index P n < n"
proof -
  assume "0 < n" "P \<le> 100"
  then have "(n - 1) * P + 99 < n * 100"
    using mult_le_mono2 [of P 100 "n - 1"] by (cases n) (auto simp: less_Suc_eq_le)
  then show ?thesis unfolding st_index_def by (simp add: less_mult_imp_div_less)
qed

lemma st_index_share: "0 < n \<Longrightarrow> P \<le> 100 \<Longrightarrow> P * n \<le> 100 * Suc (st_index P n)"
proof -
  assume "0 < n" "P \<le> 100"
  then obtain k where k: "n = Suc k" by (cases n) auto
  have "k * P + 99 < 100 * ((k * P + 99) div 100) + 100" by (metis add.commute dividend_less_times_div zero_less_numeral mult.commute)
  then show ?thesis using \<open>P \<le> 100\<close> by (simp add: st_index_def k algebra_simps)
qed

lemma sorted_prefix_count:
  assumes "sorted xs" "i < length xs"
  shows "Suc i \<le> length (filter (\<lambda>x. x \<le> xs ! i) (xs :: 'a :: linorder list))"
proof -
  have "filter (\<lambda>x. x \<le> xs ! i) (take (Suc i) xs) = take (Suc i) xs"
    using assms by (intro filter_True) (auto simp: in_set_conv_nth sorted_nth_mono)
  then have "Suc i = length (filter (\<lambda>x. x \<le> xs ! i) (take (Suc i) xs))" using assms by simp
  also have "\<dots> \<le> length (filter (\<lambda>x. x \<le> xs ! i) (take (Suc i) xs @ drop (Suc i) xs))"
    by (simp only: filter_append length_append)
  finally show ?thesis by simp
qed

lemma filter_sort_length: "length (filter Q (sort xs)) = length (filter Q xs)"
  for xs :: "'a :: linorder list"
  by (metis mset_filter mset_sort size_mset)


subsection \<open>Properties\<close>

text \<open>(C16) The percentile of a non-empty window is one of its values, and at least the requested share
  of the window is not above it; the 0th and the 100th percentile are the minimum and the maximum.\<close>

theorem statistics_percentile_share:
  fixes "values" :: "'a :: linorder list"
  assumes "values \<noteq> []" "P \<le> 100"
  shows "\<exists>v \<in> set values. st_percentile P values = Some v \<and>
    P * length values \<le> 100 * length (filter (\<lambda>x. x \<le> v) values) \<and>
    (P = 0 \<longrightarrow> (\<forall>x \<in> set values. v \<le> x)) \<and> (P = 100 \<longrightarrow> (\<forall>x \<in> set values. x \<le> v))"
proof -
  consider "P = 0" | "P = 100" | "P \<noteq> 0" "P \<noteq> 100" by blast
  then show ?thesis
  proof cases
    case 1
    then show ?thesis using assms by (intro bexI [of _ "Min (set values)"]) (auto simp: st_percentile_def st_min_Min)
  next
    case 2
    moreover have "filter (\<lambda>x. x \<le> Max (set values)) values = values" by (intro filter_True) simp
    ultimately show ?thesis
      using assms by (intro bexI [of _ "Max (set values)"]) (auto simp: st_percentile_def st_max_Max)
  next
    case 3
    let ?i = "st_index P (length values)"
    have i: "?i < length values" using st_index_less assms by simp
    have "P * length values \<le> 100 * Suc ?i" using st_index_share assms by simp
    also have "\<dots> \<le> 100 * length (filter (\<lambda>x. x \<le> sort values ! ?i) values)"
      using sorted_prefix_count [of "sort values" ?i] i by (simp add: filter_sort_length)
    finally show ?thesis
      using 3 assms i nth_mem [of ?i "sort values"]
      by (intro bexI [of _ "sort values ! ?i"]) (auto simp: st_percentile_def)
  qed
qed

theorem statistics_percentile_share_witness:
  "\<exists>v \<in> set [5, 1, 9, 3 :: nat]. st_percentile 99 [5, 1, 9, 3] = Some v \<and>
     99 * 4 \<le> 100 * length (filter (\<lambda>x. x \<le> v) [5, 1, 9, 3])"
  using statistics_percentile_share [of "[5, 1, 9, 3 :: nat]" 99] by auto

text \<open>Over a buffer that behaves as its library documents, inserting a sequence of measurements
  leaves the most recent ones, as many as the buffer can hold.\<close>

theorem statistics_insert_keeps_recent:
  assumes "window_push cap push" "length values \<le> cap"
  shows "st_Insert push values vs = drop (length values + length vs - cap) (values @ vs) \<and>
    st_Add push values v = drop (Suc (length values) - cap) (values @ [v])"
  using window_push_foldl [OF assms] window_pushD(1) [OF assms] by (simp_all add: st_Insert_def st_Add_def)

theorem statistics_insert_keeps_recent_witness:
  "st_Insert (push_last 3) [1, 2] [3, 4, 5 :: nat] = [3, 4, 5]"
  using statistics_insert_keeps_recent [OF window_push_last, of 3 "[1, 2 :: nat]" "[3, 4, 5]"] by simp

end
