(* ===== verification/Safe_Send.thy ===== *)
theory Safe_Send
  imports Safe_Types Statistics
begin

text \<open>
  \<^verbatim>\<open>aether/safe_stream/details/safe_stream_send_action.h\<close>: the sending side of a safe stream.

  Time points and durations are microseconds.  \<^verbatim>\<open>Now()\<close> is the argument \<open>now\<close>, the value of
  \<^verbatim>\<open>std::rand()\<close> is the argument \<open>rnd\<close>, and the \<^verbatim>\<open>push\<close> of the buffer behind the response statistics
  is the argument \<open>push\<close>.  The pending send task is a flag, the pending repeat task the range it
  captured and its due time; \<open>sd_run_send\<close> and \<open>sd_run_repeat\<close> run them.  The scheduler is assumed
  to accept a task.  Messages handed to the stream below and events emitted are returned in order;
  the status of a handed-over write comes back through \<open>sd_WriteStatus\<close>.
\<close>

datatype WriteStatus = kSuccess | kFail | kStop

datatype send_event =
  EvPushData nat DataMessage ring_index
| EvAcknowledged ring_index ring_index
| EvStopped ring_index ring_index
| EvSendFailed ring_index ring_index

record sender =
  sd_max_repeat_count :: nat
  sd_window_size :: nat
  sd_max_payload_size :: nat
  sd_buffer :: circular_buffer
  sd_chunks :: send_chunk_list
  sd_last_sent :: ring_index
  sd_init_state :: bool
  sd_statistics :: "nat list"
  sd_repeat_timer :: "(ring_range \<times> nat) option"
  sd_send_enqueued :: bool

abbreviation sd_M :: "sender \<Rightarrow> nat" where
  "sd_M s \<equiv> cb_cap (sd_buffer s)"

definition RandomOffset :: "nat \<Rightarrow> nat" where
  "RandomOffset rnd = rnd mod ((size_mod - 1) div 2)"

definition sd_make :: "(nat list \<Rightarrow> nat \<Rightarrow> nat list) \<Rightarrow> byte list \<Rightarrow> nat \<Rightarrow> SafeStreamConfig \<Rightarrow> sender" where
  "sd_make push mem rnd config =
     (let b = cb_make mem (RandomOffset rnd)
      in \<lparr>sd_max_repeat_count = cfg_max_repeat_count config, sd_window_size = cfg_window_size config,
          sd_max_payload_size = 0, sd_buffer = b, sd_chunks = scl_make (cb_begin b),
          sd_last_sent = cb_begin b, sd_init_state = True,
          sd_statistics = st_Add push [] (cfg_wait_ack_timeout config),
          sd_repeat_timer = None, sd_send_enqueued = False\<rparr>)"

definition sd_EnqueueSend :: "sender \<Rightarrow> sender" where
  "sd_EnqueueSend s = (if sd_send_enqueued s then s else s\<lparr>sd_send_enqueued := True\<rparr>)"

text \<open>\<^verbatim>\<open>wait_ack_timeout * std::max(1.0, 1.5 * (repeat_count - 1))\<close>, truncated.\<close>

definition rto_timeout :: "nat \<Rightarrow> nat \<Rightarrow> nat" where
  "rto_timeout p repeat_count =
     (if 3 * (repeat_count - 1) \<le> 2 then p else (3 * p * (repeat_count - 1)) div 2)"

definition sd_EnqueueRepeatTimeout :: "sender \<Rightarrow> sender" where
  "sd_EnqueueRepeatTimeout s =
     (if sd_repeat_timer s \<noteq> None then s
      else case scl_chunks (sd_chunks s) of
        [] \<Rightarrow> s
      | c # _ \<Rightarrow>
          (case st_percentile 99 (sd_statistics s) of
             None \<Rightarrow> s
           | Some p \<Rightarrow>
               s\<lparr>sd_repeat_timer :=
                  Some (sc_range c, sc_send_time c + rto_timeout p (sc_repeat_count c))\<rparr>))"

definition sd_SendData :: "sender \<Rightarrow> byte list \<Rightarrow> (nat + ring_range) \<times> sender" where
  "sd_SendData s data =
     (case cb_Push (sd_buffer s) data of
        Inl _ \<Rightarrow> (Inl 1, s)
      | Inr (r, b) \<Rightarrow> (Inr r, sd_EnqueueSend (s\<lparr>sd_buffer := b\<rparr>)))"

definition sd_Stop :: "sender \<Rightarrow> ring_range \<Rightarrow> sender \<times> send_event list" where
  "sd_Stop s rng =
     (case scl_Select (sd_M s) (sd_chunks s) rng of
        Some _ \<Rightarrow> (s, [])
      | None \<Rightarrow> (s\<lparr>sd_buffer := cb_EraseFrom (sd_buffer s) (rr_left rng)\<rparr>,
                [EvStopped (cb_begin (sd_buffer s)) (rr_right rng)]))"

text \<open>\<^verbatim>\<open>duration_cast<Duration>(Now() - send_time)\<close>: the count is a \<^verbatim>\<open>std::uint32_t\<close>.\<close>

definition response_duration :: "nat \<Rightarrow> nat \<Rightarrow> nat" where
  "response_duration now send_time = nat ((int now - int send_time) mod 2 ^ 32)"

definition sd_in_range :: "sender \<Rightarrow> ring_index \<Rightarrow> bool" where
  "sd_in_range s i \<longleftrightarrow>
     rr_InRange (sd_M s) \<lparr>rr_left = cb_begin (sd_buffer s), rr_right = cb_end (sd_buffer s)\<rparr> i
       (cb_begin (sd_buffer s))"

definition sd_Acknowledge ::
  "(nat list \<Rightarrow> nat \<Rightarrow> nat list) \<Rightarrow> nat \<Rightarrow> sender \<Rightarrow> nat \<Rightarrow> bool \<times> sender \<times> send_event list"
where
  "sd_Acknowledge push now s confirm_offset =
     (let M = sd_M s;
          confirm_index = ri_make M confirm_offset;
          bgn = cb_begin (sd_buffer s)
      in if \<not> sd_in_range s confirm_index then (False, s, [])
         else
           let stats = (case scl_chunks (sd_chunks s) of
                          [] \<Rightarrow> sd_statistics s
                        | c # _ \<Rightarrow> st_Add push (sd_statistics s) (response_duration now (sc_send_time c)));
               last = (if ic_lt M bgn (sd_last_sent s) confirm_index then ri_add M confirm_index 1
                       else sd_last_sent s);
               b = cb_Erase (sd_buffer s) (ri_add M confirm_index 1);
               l = scl_set_buffer_begin (scl_RemoveUpTo M (sd_chunks s) confirm_index) (cb_begin b);
               s1 = sd_EnqueueSend (s\<lparr>sd_init_state := False, sd_statistics := stats,
                       sd_last_sent := last, sd_buffer := b, sd_chunks := l\<rparr>)
           in (True, sd_EnqueueRepeatTimeout (s1\<lparr>sd_repeat_timer := None\<rparr>),
               [EvAcknowledged bgn confirm_index]))"

definition sd_RequestRepeat :: "sender \<Rightarrow> nat \<Rightarrow> sender" where
  "sd_RequestRepeat s request_offset =
     (let request_index = ri_make (sd_M s) request_offset
      in if \<not> sd_in_range s request_index then s
         else sd_EnqueueSend (s\<lparr>sd_last_sent := request_index\<rparr>))"

definition sd_SetMaxPayload :: "sender \<Rightarrow> nat \<Rightarrow> sender" where
  "sd_SetMaxPayload s n = sd_EnqueueSend (s\<lparr>sd_max_payload_size := n\<rparr>)"

definition sd_ProcessRepeat :: "sender \<Rightarrow> ring_range \<Rightarrow> sender" where
  "sd_ProcessRepeat s rng =
     (if scl_empty (sd_chunks s) then s
      else
        let bgn = cb_begin (sd_buffer s)
        in sd_EnqueueSend
             (s\<lparr>sd_last_sent :=
                  if ri_Distance (sd_M s) bgn (rr_left rng) > sd_window_size s then bgn else rr_left rng\<rparr>))"

definition sd_GetNextChunk :: "sender \<Rightarrow> nat + DSpan" where
  "sd_GetNextChunk s =
     (let on_the_go_data_size = ri_Distance (sd_M s) (cb_begin (sd_buffer s)) (sd_last_sent s);
          payload_size = min (sd_max_payload_size s) (sz_sub (sd_window_size s) on_the_go_data_size)
      in if payload_size = 0 then Inr \<lparr>ds_first = [], ds_second = []\<rparr>
         else case cb_Read (sd_buffer s) (sd_last_sent s) payload_size of
                Inr d \<Rightarrow> Inr d
              | Inl kEmptyBuffer \<Rightarrow> Inl 0
              | Inl _ \<Rightarrow> Inl 1)"

definition sd_RegisterChunk ::
  "sender \<Rightarrow> DSpan \<Rightarrow> ring_range \<Rightarrow> nat \<Rightarrow> sender \<times> (nat + DSpan \<times> send_chunk)"
where
  "sd_RegisterChunk s dspan chunk_range current_time =
     (let l = scl_Register (sd_chunks s) chunk_range current_time;
          c = last (scl_chunks l);
          c' = c\<lparr>sc_repeat_count := u8 (sc_repeat_count c + 1)\<rparr>;
          s' = s\<lparr>sd_chunks := l\<lparr>scl_chunks := butlast (scl_chunks l) @ [c']\<rparr>\<rparr>
      in if sc_repeat_count c' > sd_max_repeat_count s then (s', Inl 2)
         else (s', Inr (dspan, c')))"

definition sd_RejectSend :: "sender \<Rightarrow> ring_index \<Rightarrow> sender \<times> send_event list" where
  "sd_RejectSend s end_index =
     (let M = sd_M s;
          b = cb_Erase (sd_buffer s) (ri_add M end_index 1);
          l = scl_set_buffer_begin (scl_RemoveUpTo M (sd_chunks s) end_index) (cb_begin b)
      in (sd_EnqueueSend (s\<lparr>sd_buffer := b, sd_chunks := l, sd_last_sent := cb_begin b\<rparr>),
          [EvSendFailed (cb_begin (sd_buffer s)) end_index]))"

definition sd_PushData :: "sender \<Rightarrow> DSpan \<Rightarrow> ring_index \<Rightarrow> nat \<Rightarrow> nat \<times> DataMessage" where
  "sd_PushData s dspan data_index repeat_count =
     (u16 (cb_begin (sd_buffer s)),
      \<lparr>dm_reset = sd_init_state s, dm_repeat_count = repeat_count,
       dm_delta_offset = u16 (ri_Distance (sd_M s) (cb_begin (sd_buffer s)) data_index),
       dm_data = ds_bytes dspan\<rparr>)"

definition sd_SendChunk :: "sender \<Rightarrow> nat \<Rightarrow> sender \<times> send_event list" where
  "sd_SendChunk s current_time =
     (if sd_max_payload_size s = 0 then (s, [])
      else
        case (case sd_GetNextChunk s of
                Inl e \<Rightarrow> (s, Inl e)
              | Inr dspan \<Rightarrow>
                  let M = sd_M s;
                      chunk_index_range =
                        \<lparr>rr_left = sd_last_sent s,
                         rr_right = ri_sub M (ri_add M (sd_last_sent s) (ds_size dspan)) 1\<rparr>
                  in sd_RegisterChunk
                       (s\<lparr>sd_last_sent := ri_add M (sd_last_sent s) (ds_size dspan)\<rparr>)
                       dspan chunk_index_range current_time) of
          (s1, Inl e) \<Rightarrow>
            (if e \<noteq> 0 then sd_RejectSend s1 (ri_sub (sd_M s1) (sd_last_sent s1) 1) else (s1, []))
        | (s1, Inr (dspan, send_chunk)) \<Rightarrow>
            (if ds_size dspan = 0 then (s1, [])
             else
               case sd_PushData s1 dspan (rr_left (sc_range send_chunk))
                      (u8 (sc_repeat_count send_chunk + 255)) of
                 (index, msg) \<Rightarrow>
                   (sd_EnqueueRepeatTimeout (sd_EnqueueSend s1),
                    [EvPushData index msg (rr_right (sc_range send_chunk))])))"

text \<open>The subscription to the status of the write that carried a chunk up to \<open>end_index\<close>.\<close>

definition sd_WriteStatus :: "sender \<Rightarrow> ring_index \<Rightarrow> WriteStatus \<Rightarrow> sender" where
  "sd_WriteStatus s end_index status =
     (case status of
        kSuccess \<Rightarrow> s
      | _ \<Rightarrow>
          sd_EnqueueSend
            (if ic_gt (sd_M s) (cb_begin (sd_buffer s)) (sd_last_sent s) end_index
             then s\<lparr>sd_last_sent := end_index\<rparr> else s))"

text \<open>The tasks, as the scheduler runs them when they are pending.\<close>

definition sd_run_send :: "sender \<Rightarrow> nat \<Rightarrow> sender \<times> send_event list" where
  "sd_run_send s now =
     (if sd_send_enqueued s then sd_SendChunk (s\<lparr>sd_send_enqueued := False\<rparr>) now else (s, []))"

definition sd_run_repeat :: "sender \<Rightarrow> sender" where
  "sd_run_repeat s =
     (case sd_repeat_timer s of
        None \<Rightarrow> s
      | Some (rng, _) \<Rightarrow> sd_ProcessRepeat (s\<lparr>sd_repeat_timer := None\<rparr>) rng)"


subsection \<open>Invariant: positions of the sender in the stream\<close>

text \<open>\<open>rng_sent M s0 w B n r\<close>: the range \<open>r\<close> covers the positions \<open>q .. q + k - 1\<close> of the stream of which
  the sender has written \<open>n\<close> bytes and seen \<open>B\<close> acknowledged; its end is not acknowledged and lies in
  the window.  An empty range (\<open>k = 0\<close>) is what a full window registers.\<close>

definition rng_sent :: "nat \<Rightarrow> nat \<Rightarrow> nat \<Rightarrow> nat \<Rightarrow> nat \<Rightarrow> ring_range \<Rightarrow> bool" where
  "rng_sent M s0 w B n r \<longleftrightarrow>
     (\<exists>q k. rr_left r = ri_make M (s0 + q) \<and> rr_right r = ri_make M (s0 + q + k - 1) \<and>
        B < q + k \<and> q + k \<le> B + w \<and> k \<le> w \<and> q + k \<le> n)"

text \<open>\<open>sd_rel S s0 B L s\<close>: of the stream \<open>S\<close>, \<open>B\<close> bytes are acknowledged and dropped from the buffer,
  and the next byte to send is \<open>L\<close> bytes further.\<close>

definition sd_rel :: "byte list \<Rightarrow> nat \<Rightarrow> nat \<Rightarrow> nat \<Rightarrow> sender \<Rightarrow> bool" where
  "sd_rel S s0 B L s \<longleftrightarrow>
     cb_inv (sd_buffer s) \<and> window_ok (sd_M s) (sd_window_size s) \<and> 0 < sd_window_size s \<and>
     cb_begin (sd_buffer s) = ri_make (sd_M s) (s0 + B) \<and> B + L \<le> length S \<and>
     cb_contents (sd_buffer s) = drop B S \<and>
     sd_last_sent s = ri_make (sd_M s) (s0 + (B + L)) \<and> L \<le> sd_window_size s \<and>
     (sd_init_state s \<longrightarrow> B = 0) \<and>
     scl_buffer_begin (sd_chunks s) = cb_begin (sd_buffer s) \<and> scl_distinct (sd_chunks s) \<and>
     (\<forall>c \<in> set (scl_chunks (sd_chunks s)). rng_sent (sd_M s) s0 (sd_window_size s) B (length S) (sc_range c)) \<and>
     (\<forall>r t. sd_repeat_timer s = Some (r, t) \<longrightarrow>
        rng_sent (sd_M s) s0 (sd_window_size s) B (length S) r)"

lemma sd_relD:
  assumes "sd_rel S s0 B L s"
  shows "cb_inv (sd_buffer s)" "window_ok (sd_M s) (sd_window_size s)" "ring_max_ok (sd_M s)"
    "cb_begin (sd_buffer s) = ri_make (sd_M s) (s0 + B)" "B + L \<le> length S"
    "cb_contents (sd_buffer s) = drop B S" "cb_size (sd_buffer s) = length S - B"
    "sd_last_sent s = ri_make (sd_M s) (s0 + (B + L))" "L \<le> sd_window_size s"
    "length S - B < sd_M s" "sd_last_sent s = cb_index (sd_buffer s) L"
    "ri_Distance (sd_M s) (cb_begin (sd_buffer s)) (sd_last_sent s) = L" "0 < sd_window_size s"
proof -
  let ?b = "sd_buffer s"
  show A: "cb_inv (sd_buffer s)" "window_ok (sd_M s) (sd_window_size s)" "0 < sd_window_size s"
    "cb_begin (sd_buffer s) = ri_make (sd_M s) (s0 + B)" "B + L \<le> length S"
    "cb_contents (sd_buffer s) = drop B S"
    "sd_last_sent s = ri_make (sd_M s) (s0 + (B + L))" "L \<le> sd_window_size s"
    using assms by (auto simp: sd_rel_def)
  show M: "ring_max_ok (sd_M s)" using A(1) by (simp add: cb_inv_def)
  show sz: "cb_size ?b = length S - B" using arg_cong [OF A(6), of length] by simp
  then show "length S - B < sd_M s" using cb_size_less [OF A(1)] by simp
  have L: "L < sd_M s" using A(8) window_okD [OF A(2)] by linarith
  then show idx: "sd_last_sent s = cb_index ?b L"
    using A M by (simp add: cb_index_def ri_add_make add.assoc)
  show "ri_Distance (sd_M s) (cb_begin ?b) (sd_last_sent s) = L"
    unfolding idx by (rule cb_Distance_index [OF A(1) L])
qed

lemma sd_rel_EnqueueSend [simp]: "sd_rel S s0 B L (sd_EnqueueSend s) = sd_rel S s0 B L s"
  by (simp add: sd_EnqueueSend_def sd_rel_def)

lemma sd_EnqueueSend_no_timer:
  "(sd_EnqueueSend s)\<lparr>sd_repeat_timer := None\<rparr> = sd_EnqueueSend (s\<lparr>sd_repeat_timer := None\<rparr>)"
  by (cases s) (simp add: sd_EnqueueSend_def)

lemma sd_rel_flags [simp]:
  "sd_rel S s0 B L (s\<lparr>sd_send_enqueued := f\<rparr>) = sd_rel S s0 B L s"
  "sd_rel S s0 B L (s\<lparr>sd_max_payload_size := n\<rparr>) = sd_rel S s0 B L s"
  by (simp_all add: sd_rel_def)

lemma sd_Enqueue_fields [simp]:
  "sd_buffer (sd_EnqueueRepeatTimeout s) = sd_buffer s" "sd_buffer (sd_EnqueueSend s) = sd_buffer s"
  "sd_window_size (sd_EnqueueRepeatTimeout s) = sd_window_size s"
  "sd_window_size (sd_EnqueueSend s) = sd_window_size s"
  "sd_init_state (sd_EnqueueRepeatTimeout s) = sd_init_state s"
  "sd_init_state (sd_EnqueueSend s) = sd_init_state s"
  "sd_send_enqueued (sd_EnqueueRepeatTimeout s) = sd_send_enqueued s" "sd_send_enqueued (sd_EnqueueSend s)"
  "sd_last_sent (sd_EnqueueRepeatTimeout s) = sd_last_sent s" "sd_last_sent (sd_EnqueueSend s) = sd_last_sent s"
  "sd_chunks (sd_EnqueueRepeatTimeout s) = sd_chunks s" "sd_chunks (sd_EnqueueSend s) = sd_chunks s"
  by (simp_all add: sd_EnqueueRepeatTimeout_def sd_EnqueueSend_def split: list.split option.split)

lemma sd_rel_no_timer: "sd_rel S s0 B L s \<Longrightarrow> sd_rel S s0 B L (s\<lparr>sd_repeat_timer := None\<rparr>)"
  by (simp add: sd_rel_def)

lemma sd_rel_EnqueueRepeatTimeout:
  assumes "sd_rel S s0 B L s"
  shows "sd_rel S s0 B L (sd_EnqueueRepeatTimeout s)"
  using assms by (auto simp: sd_EnqueueRepeatTimeout_def sd_rel_def split: list.splits option.splits)

lemma sd_rel_last_sent:
  assumes "sd_rel S s0 B L s" "L' \<le> sd_window_size s" "B + L' \<le> length S"
  shows "sd_rel S s0 B L' (s\<lparr>sd_last_sent := ri_make (sd_M s) (s0 + (B + L'))\<rparr>)"
  using assms by (simp add: sd_rel_def)

lemma rng_sent_mono: "rng_sent M s0 w B n r \<Longrightarrow> n \<le> n' \<Longrightarrow> rng_sent M s0 w B n' r"
  unfolding rng_sent_def by (meson le_trans)

lemma sd_rel_make:
  assumes "ring_max_ok (length mem)" "window_ok (length mem) (cfg_window_size config)" "0 < cfg_window_size config"
  shows "sd_rel [] (RandomOffset rnd mod length mem) 0 0 (sd_make push mem rnd config)"
  using assms cb_inv_make [of mem "RandomOffset rnd"]
    ri_Distance_self [OF assms(1) ri_make_less [OF assms(1), of "RandomOffset rnd"]]
  by (simp add: sd_rel_def sd_make_def Let_def cb_make_def scl_make_def scl_distinct_def ri_make_def
      cb_contents_def cb_size_def)

text \<open>Writing: a push that leaves a free position appends to the stream.\<close>

lemma sd_SendData_rel:
  assumes rel: "sd_rel S s0 B L s" and fits: "length S - B + length data < sd_M s"
  shows "\<exists>r b. sd_SendData s data = (Inr r, sd_EnqueueSend (s\<lparr>sd_buffer := b\<rparr>)) \<and> cb_cap b = sd_M s \<and>
    sd_rel (S @ data) s0 B L (s\<lparr>sd_buffer := b\<rparr>) \<and>
    (data \<noteq> [] \<longrightarrow> rr_right r = ri_make (sd_M s) (s0 + length S + length data - 1))"
proof -
  note D = sd_relD [OF rel]
  obtain r b where p: "cb_Push (sd_buffer s) data = Inr (r, b)" "cb_inv b" "cb_cap b = sd_M s"
    "cb_begin b = cb_begin (sd_buffer s)" "cb_contents b = cb_contents (sd_buffer s) @ data"
    "data \<noteq> [] \<longrightarrow> rr_right r = cb_index (sd_buffer s) (length S - B + length data - 1)"
    using cb_Push_fits [OF D(1), of data] fits D(7) by auto
  have "sd_rel (S @ data) s0 B L (s\<lparr>sd_buffer := b\<rparr>)"
    using rel D(5) p rng_sent_mono [of "sd_M s" s0 "sd_window_size s" B "length S" _ "length (S @ data)"]
    by (simp add: sd_rel_def)
  moreover have "cb_index (sd_buffer s) (length S - B + length data - 1) =
      ri_make (sd_M s) (s0 + length S + length data - 1)" if "data \<noteq> []"
    using that D(3,4,5) fits by (cases data) (simp_all add: cb_index_def ri_add_make add.assoc)
  ultimately show ?thesis using p by (auto simp: sd_SendData_def)
qed

text \<open>Going back: the repeat timer, a repeat request and a failed write.\<close>

lemma sd_ProcessRepeat_rel:
  assumes rel: "sd_rel S s0 B L s" and r: "rng_sent (sd_M s) s0 (sd_window_size s) B (length S) r"
  shows "\<exists>L'. sd_rel S s0 B L' (sd_ProcessRepeat s r)"
proof -
  note D = sd_relD [OF rel] and w = window_okD [OF sd_relD(2) [OF rel]]
  let ?M = "sd_M s" and ?w = "sd_window_size s"
  obtain q k where q: "rr_left r = ri_make ?M (s0 + q)" "B < q + k" "q + k \<le> B + ?w" "k \<le> ?w" "q + k \<le> length S"
    using r by (auto simp: rng_sent_def)
  show ?thesis
  proof (cases "B \<le> q")
    case True
    have "ri_Distance ?M (cb_begin (sd_buffer s)) (rr_left r) = q - B"
      using D(3,4) True q w ri_Distance_make [of ?M "s0 + B" "s0 + q"] by simp
    then have "\<not> ri_Distance ?M (cb_begin (sd_buffer s)) (rr_left r) > ?w" using q by linarith
    then show ?thesis
      using rel True q sd_rel_last_sent [OF rel, of "q - B"]
      by (intro exI [of _ "if scl_empty (sd_chunks s) then L else q - B"]) (simp add: sd_ProcessRepeat_def Let_def)
  next
    case False
    have "ri_Distance ?M (cb_begin (sd_buffer s)) (rr_left r) = ?M - (B - q)"
      using D(3,4) False q w ri_Distance_make_back [of ?M "s0 + q" "s0 + B"] by simp
    then have "ri_Distance ?M (cb_begin (sd_buffer s)) (rr_left r) > ?w" using q w False by linarith
    then show ?thesis
      using rel D(4,5) sd_rel_last_sent [OF rel, of 0]
      by (intro exI [of _ "if scl_empty (sd_chunks s) then L else 0"]) (simp add: sd_ProcessRepeat_def Let_def)
  qed
qed

text \<open>Which indices the range check accepts: a position of the stream that is not a whole ring old.\<close>

lemma sd_in_range_iff:
  assumes rel: "sd_rel S s0 B L s" and a: "a \<le> length S" "length S < a + sd_M s"
  shows "sd_in_range s (ri_make (sd_M s) (s0 + a)) \<longleftrightarrow> B \<le> a"
proof -
  note D = sd_relD [OF rel]
  let ?M = "sd_M s" and ?b = "sd_buffer s"
  have e: "ri_Distance ?M (cb_begin ?b) (cb_end ?b) = length S - B" using D(7) by (simp add: cb_size_def)
  have i: "ri_Distance ?M (cb_begin ?b) (ri_make ?M (s0 + a)) = (if B \<le> a then a - B else ?M - (B - a))"
    using D(3,4,5,10) a ri_Distance_make [of ?M "s0 + B" "s0 + a"]
      ri_Distance_make_back [of ?M "s0 + a" "s0 + B"] by auto
  show ?thesis
    using cb_invD [OF D(1)] e i a D(5)
    by (auto simp: sd_in_range_def rr_InRange_iff)
qed

lemma sd_RequestRepeat_rel:
  assumes rel: "sd_rel S s0 B L s" and q: "q \<le> length S" "q \<le> B + sd_window_size s" "length S < q + sd_M s"
    and off: "ri_make (sd_M s) off = ri_make (sd_M s) (s0 + q)"
  shows "\<exists>L'. sd_rel S s0 B L' (sd_RequestRepeat s off)"
proof (cases "B \<le> q")
  case True
  then show ?thesis
    using sd_in_range_iff [OF rel q(1,3)] off sd_rel_last_sent [OF rel, of "q - B"] q
    by (intro exI [of _ "q - B"]) (simp add: sd_RequestRepeat_def)
next
  case False
  then show ?thesis using sd_in_range_iff [OF rel q(1,3)] off rel by (auto simp: sd_RequestRepeat_def)
qed

lemma sd_WriteStatus_rel:
  assumes rel: "sd_rel S s0 B L s" and e: "e < length S" "B + sd_window_size s < e + sd_M s"
  shows "\<exists>L'. sd_rel S s0 B L' (sd_WriteStatus s (ri_make (sd_M s) (s0 + e)) st)"
proof -
  note D = sd_relD [OF rel]
  let ?M = "sd_M s" and ?b = "sd_buffer s" and ?e = "ri_make (sd_M s) (s0 + e)"
  have d: "ri_Distance ?M (cb_begin ?b) ?e = (if B \<le> e then e - B else ?M - (B - e))"
    using D(3,4,10) e ri_Distance_make [of ?M "s0 + B" "s0 + e"]
      ri_Distance_make_back [of ?M "s0 + e" "s0 + B"] by auto
  have gt: "ic_gt ?M (cb_begin ?b) (sd_last_sent s) ?e \<longleftrightarrow> B \<le> e \<and> e - B < L"
    using D(3,4,8,9,12) d e by (auto simp: ic_gt_iff)
  show ?thesis
  proof (cases "B \<le> e \<and> e - B < L")
    case True
    then have "sd_rel S s0 B (e - B) (s\<lparr>sd_last_sent := ?e\<rparr>)"
      using sd_rel_last_sent [OF rel, of "e - B"] D(9) e by simp
    then show ?thesis using rel True gt by (cases st) (auto simp: sd_WriteStatus_def)
  next
    case False
    then show ?thesis using rel gt by (cases st) (auto simp: sd_WriteStatus_def)
  qed
qed

subsection \<open>Acknowledgement\<close>

lemma rng_sent_advance:
  assumes M: "ring_max_ok M" "w + 1 < M" and r: "rng_sent M s0 w B n r" "B \<le> a" "a < B + M"
    and kept: "\<not> ic_le M (ri_make M (s0 + B)) (rr_right r) (ri_make M (s0 + a))"
  shows "rng_sent M s0 w (a + 1) n r"
proof -
  obtain q k where q: "rr_left r = ri_make M (s0 + q)" "rr_right r = ri_make M (s0 + q + k - 1)"
    "B < q + k" "q + k \<le> B + w" "k \<le> w" "q + k \<le> n"
    using r by (auto simp: rng_sent_def)
  have "ri_Distance M (ri_make M (s0 + B)) (rr_right r) = q + k - 1 - B"
    using M q ri_Distance_make [of M "s0 + B" "s0 + q + k - 1"] by simp
  moreover have "ri_Distance M (ri_make M (s0 + B)) (ri_make M (s0 + a)) = a - B"
    using M r ri_Distance_make [of M "s0 + B" "s0 + a"] by simp
  ultimately have "a + 1 < q + k" using kept M q r by (simp add: ic_le_iff)
  then show ?thesis unfolding rng_sent_def using q r(2) by (intro exI [of _ q] exI [of _ k]) auto
qed

lemma sd_Acknowledge_rel:
  assumes rel: "sd_rel S s0 B L s"
    and a: "B \<le> a" "a < length S" "length S < a + sd_M s" "L \<noteq> a - B"
    and off: "ri_make (sd_M s) off = ri_make (sd_M s) (s0 + a)"
  shows "\<exists>s'. sd_Acknowledge push now s off =
      (True, s', [EvAcknowledged (cb_begin (sd_buffer s)) (ri_make (sd_M s) (s0 + a))]) \<and>
    sd_rel S s0 (a + 1) (if L < a - B then 0 else L - (a + 1 - B)) s' \<and>
    sd_M s' = sd_M s \<and> sd_window_size s' = sd_window_size s \<and> \<not> sd_init_state s' \<and> sd_send_enqueued s'"
proof -
  note D = sd_relD [OF rel] and w = window_okD [OF sd_relD(2) [OF rel]]
  let ?M = "sd_M s" and ?b = "sd_buffer s" and ?c = "ri_make (sd_M s) (s0 + a)"
  have rng: "sd_in_range s ?c" using sd_in_range_iff [OF rel, of a] a by simp
  have d: "ri_Distance ?M (cb_begin ?b) ?c = a - B"
    using D(3,4,10) a ri_Distance_make [of ?M "s0 + B" "s0 + a"] by simp
  have lt: "ic_lt ?M (cb_begin ?b) (sd_last_sent s) ?c \<longleftrightarrow> L < a - B"
    using D(3,4,8,12) d by (simp add: ic_lt_iff)
  have succ: "ri_add ?M ?c 1 = ri_make ?M (s0 + (a + 1))" using D(3) w by (simp add: ri_add_make)
  have idx: "ri_make ?M (s0 + (a + 1)) = cb_index ?b (a + 1 - B)"
    using D(3,4,10) a by (simp add: cb_index_def ri_add_make)
  have "a + 1 - B \<le> cb_size ?b" using D(7) a by simp
  note E = cb_Erase_in [OF D(1) this]
  let ?l = "scl_RemoveUpTo ?M (sd_chunks s) ?c"
  have l: "scl_distinct ?l" "\<forall>c \<in> set (scl_chunks ?l). rng_sent ?M s0 (sd_window_size s) (a + 1) (length S) (sc_range c)"
  proof -
    show "scl_distinct ?l" using rel scl_RemoveUpTo_distinct by (simp add: sd_rel_def)
    have "a < B + ?M" using D(10) a by linarith
    then show "\<forall>c \<in> set (scl_chunks ?l). rng_sent ?M s0 (sd_window_size s) (a + 1) (length S) (sc_range c)"
      using rel rng_sent_advance [OF D(3) w(2)] a(1) by (auto simp: scl_RemoveUpTo_def sd_rel_def)
  qed
  define s1 where "s1 = s\<lparr>sd_init_state := False,
    sd_statistics := (case scl_chunks (sd_chunks s) of [] \<Rightarrow> sd_statistics s
       | c # _ \<Rightarrow> st_Add push (sd_statistics s) (response_duration now (sc_send_time c))),
    sd_last_sent := (if L < a - B then ri_make ?M (s0 + (a + 1)) else sd_last_sent s),
    sd_buffer := cb_Erase ?b (cb_index ?b (a + 1 - B)),
    sd_chunks := scl_set_buffer_begin ?l (cb_index ?b (a + 1 - B)), sd_repeat_timer := None\<rparr>"
  have "sd_rel S s0 (a + 1) (if L < a - B then 0 else L - (a + 1 - B)) s1"
  proof -
    have "cb_contents (cb_Erase ?b (cb_index ?b (a + 1 - B))) = drop (a + 1) S" using E(5) D(6) a by simp
    moreover have "\<not> L < a - B \<Longrightarrow> a + 1 + (L - (a + 1 - B)) = B + L" using a by linarith
    ultimately show ?thesis
      using rel E(1-3) l idx a D(5,8,9)
      by (auto simp: s1_def sd_rel_def scl_set_buffer_begin_def scl_distinct_def add.commute [of L B])
  qed
  then have "sd_rel S s0 (a + 1) (if L < a - B then 0 else L - (a + 1 - B))
      (sd_EnqueueRepeatTimeout (sd_EnqueueSend s1))"
    by (simp only: sd_rel_EnqueueSend sd_rel_EnqueueRepeatTimeout)
  moreover have "sd_Acknowledge push now s off =
      (True, sd_EnqueueRepeatTimeout (sd_EnqueueSend s1), [EvAcknowledged (cb_begin ?b) ?c])"
    using rng off lt succ idx E(3)
    by (simp add: sd_Acknowledge_def Let_def s1_def sd_EnqueueSend_no_timer)
  moreover have "sd_M (sd_EnqueueRepeatTimeout (sd_EnqueueSend s1)) = ?M"
    "sd_window_size (sd_EnqueueRepeatTimeout (sd_EnqueueSend s1)) = sd_window_size s"
    "\<not> sd_init_state (sd_EnqueueRepeatTimeout (sd_EnqueueSend s1))"
    "sd_send_enqueued (sd_EnqueueRepeatTimeout (sd_EnqueueSend s1))"
    using E(2) by (simp_all add: s1_def)
  ultimately show ?thesis by blast
qed

lemma sd_Acknowledge_stale:
  assumes rel: "sd_rel S s0 B L s" and a: "a < B" "length S < a + sd_M s"
    and off: "ri_make (sd_M s) off = ri_make (sd_M s) (s0 + a)"
  shows "sd_Acknowledge push now s off = (False, s, [])"
  using sd_in_range_iff [OF rel, of a] sd_relD(5) [OF rel] a off by (simp add: sd_Acknowledge_def Let_def)

subsection \<open>Sending the next chunk\<close>

lemma scl_distinct_bump:
  assumes "scl_distinct l" "scl_chunks l \<noteq> []" "sc_range c = sc_range (last (scl_chunks l))"
  shows "scl_distinct (l\<lparr>scl_chunks := butlast (scl_chunks l) @ [c]\<rparr>)"
proof -
  have "map sc_left (butlast (scl_chunks l) @ [c]) = map sc_left (butlast (scl_chunks l) @ [last (scl_chunks l)])"
    using assms(3) by simp
  then show ?thesis using assms(1,2) by (simp add: scl_distinct_def)
qed

lemma sd_RegisterChunk_rel:
  assumes rel: "sd_rel S s0 B L s" and "rng_sent (sd_M s) s0 (sd_window_size s) B (length S) r"
    and reg: "sd_RegisterChunk s d r now = (s', res)"
  shows "sd_rel S s0 B L s'" "sd_buffer s' = sd_buffer s" "sd_last_sent s' = sd_last_sent s"
    "sd_init_state s' = sd_init_state s" "sd_window_size s' = sd_window_size s"
    "\<And>d' c. res = Inr (d', c) \<Longrightarrow> d' = d \<and> sc_range c = r" "\<And>e. res = Inl e \<Longrightarrow> e = 2"
proof -
  let ?l = "scl_Register (sd_chunks s) r now"
  have dl: "scl_distinct (sd_chunks s)" using rel by (simp add: sd_rel_def)
  note last = scl_Register_last [of "sd_chunks s" r now] and ch = scl_Register_chunks [OF dl, of r now]
  let ?c = "(last (scl_chunks ?l))\<lparr>sc_repeat_count := u8 (sc_repeat_count (last (scl_chunks ?l)) + 1)\<rparr>"
  have s': "s' = s\<lparr>sd_chunks := ?l\<lparr>scl_chunks := butlast (scl_chunks ?l) @ [?c]\<rparr>\<rparr>"
    and res: "res = Inl 2 \<or> res = Inr (d, ?c)"
    using reg by (auto simp: sd_RegisterChunk_def Let_def split: if_splits)
  have "\<forall>c \<in> set (butlast (scl_chunks ?l) @ [?c]). rng_sent (sd_M s) s0 (sd_window_size s) B (length S) (sc_range c)"
    using rel assms(2) last by (auto simp: ch sd_rel_def)
  moreover have "scl_distinct (?l\<lparr>scl_chunks := butlast (scl_chunks ?l) @ [?c]\<rparr>)"
    using scl_distinct_bump [OF scl_Register_distinct [OF dl]] last by simp
  ultimately show "sd_rel S s0 B L s'" using rel unfolding s' by (simp add: sd_rel_def)
  show "sd_buffer s' = sd_buffer s" "sd_last_sent s' = sd_last_sent s"
    "sd_init_state s' = sd_init_state s" "sd_window_size s' = sd_window_size s" by (simp_all add: s')
  show "\<And>d' c. res = Inr (d', c) \<Longrightarrow> d' = d \<and> sc_range c = r" using res last by auto
  show "\<And>e. res = Inl e \<Longrightarrow> e = 2" using res by auto
qed

text \<open>What \<^verbatim>\<open>GetNextChunk\<close> returns, by the position in the window and in the buffer.\<close>

lemma sd_GetNextChunk_cases:
  assumes rel: "sd_rel S s0 B L s" and mp: "0 < sd_max_payload_size s"
  shows "L = sd_window_size s \<Longrightarrow> sd_GetNextChunk s = Inr \<lparr>ds_first = [], ds_second = []\<rparr>"
    "L < sd_window_size s \<Longrightarrow> B + L = length S \<Longrightarrow> sd_GetNextChunk s = Inl 0"
    "L < sd_window_size s \<Longrightarrow> B + L < length S \<Longrightarrow>
       \<exists>d. sd_GetNextChunk s = Inr d \<and>
         ds_bytes d = take (min (sd_max_payload_size s) (sd_window_size s - L)) (drop (B + L) S)"
proof -
  note D = sd_relD [OF rel] and w = window_okD [OF sd_relD(2) [OF rel]]
  let ?p = "min (sd_max_payload_size s) (sd_window_size s - L)"
  have sub: "sz_sub (sd_window_size s) L = sd_window_size s - L"
    using D(9) w cb_invD(5) [OF D(1)] by (simp add: size_simps)
  have get: "sd_GetNextChunk s =
     (if ?p = 0 then Inr \<lparr>ds_first = [], ds_second = []\<rparr>
      else case cb_Read (sd_buffer s) (cb_index (sd_buffer s) L) ?p of
             Inr d \<Rightarrow> Inr d | Inl kEmptyBuffer \<Rightarrow> Inl 0 | Inl _ \<Rightarrow> Inl 1)"
    unfolding sd_GetNextChunk_def Let_def D(12) sub unfolding D(11) ..
  show "sd_GetNextChunk s = Inr \<lparr>ds_first = [], ds_second = []\<rparr>" if "L = sd_window_size s"
    unfolding get using that by simp
  show "sd_GetNextChunk s = Inl 0" if "L < sd_window_size s" "B + L = length S"
  proof -
    have "L < sd_M s" "L = cb_size (sd_buffer s)" using D(7,9) w that by linarith+
    then have "cb_Read (sd_buffer s) (cb_index (sd_buffer s) L) ?p = Inl kEmptyBuffer"
      by (intro cb_Read_empty [OF D(1)]) simp_all
    then show ?thesis unfolding get using mp that by simp
  qed
  show "\<exists>d. sd_GetNextChunk s = Inr d \<and> ds_bytes d = take ?p (drop (B + L) S)"
    if "L < sd_window_size s" "B + L < length S"
  proof -
    have "L < cb_size (sd_buffer s)" using D(7) that by simp
    from cb_Read_in [OF D(1) this, of ?p] obtain d where
      "cb_Read (sd_buffer s) (cb_index (sd_buffer s) L) ?p = Inr d"
      "ds_bytes d = take ?p (drop L (cb_contents (sd_buffer s)))" by blast
    moreover have "?p \<noteq> 0" using mp that by simp
    ultimately show ?thesis unfolding get if_not_P [OF \<open>?p \<noteq> 0\<close>] using D(6) by (simp add: add.commute)
  qed
qed

text \<open>One run of the send task that does not report a failure either leaves the stream position or
  hands exactly the next bytes of the window to the stream below.\<close>

lemma ds_size_bytes: "ds_size d = length (ds_bytes d)"
  by (simp add: ds_size_def ds_bytes_def)

definition is_failure :: "send_event \<Rightarrow> bool" where
  "is_failure e = (case e of EvSendFailed _ _ \<Rightarrow> True | _ \<Rightarrow> False)"

lemma sd_RejectSend_failure: "\<not> list_all (\<lambda>e. \<not> is_failure e) (snd (sd_RejectSend s i))"
  by (simp add: sd_RejectSend_def Let_def is_failure_def)

text \<open>\<^verbatim>\<open>SendChunk\<close> after the next chunk was found and registered.\<close>

lemma sd_SendChunk_eq:
  assumes "0 < sd_max_payload_size s" "sd_GetNextChunk s = Inr d"
    and "sd_RegisterChunk (s\<lparr>sd_last_sent := ri_add (sd_M s) (sd_last_sent s) (ds_size d)\<rparr>) d
      \<lparr>rr_left = sd_last_sent s, rr_right = ri_sub (sd_M s) (ri_add (sd_M s) (sd_last_sent s) (ds_size d)) 1\<rparr> now = (s1, res)"
  shows "res = Inl e \<Longrightarrow> sd_SendChunk s now =
      (if e \<noteq> 0 then sd_RejectSend s1 (ri_sub (sd_M s1) (sd_last_sent s1) 1) else (s1, []))"
    "res = Inr (d', c) \<Longrightarrow> sd_SendChunk s now =
      (if ds_size d' = 0 then (s1, [])
       else (sd_EnqueueRepeatTimeout (sd_EnqueueSend s1),
         [EvPushData (fst (sd_PushData s1 d' (rr_left (sc_range c)) (u8 (sc_repeat_count c + 255))))
            (snd (sd_PushData s1 d' (rr_left (sc_range c)) (u8 (sc_repeat_count c + 255)))) (rr_right (sc_range c))]))"
  using assms by (simp_all add: sd_SendChunk_def Let_def split: prod.split del: One_nat_def)

lemma sd_SendChunk_idle:
  assumes rel: "sd_rel S s0 B L s" and mp: "0 < sd_max_payload_size s"
    and L: "L = sd_window_size s \<or> B + L = length S"
    and run: "sd_SendChunk s now = (s', evs)" "list_all (\<lambda>e. \<not> is_failure e) evs"
  shows "evs = [] \<and> sd_rel S s0 B L s' \<and> sd_M s' = sd_M s \<and> sd_window_size s' = sd_window_size s"
proof (cases "L = sd_window_size s")
  case False
  then have "sd_GetNextChunk s = Inl 0"
    using L sd_GetNextChunk_cases(2) [OF rel mp] sd_relD(9) [OF rel] by simp
  then show ?thesis using run(1) mp rel by (simp add: sd_SendChunk_def)
next
  case True
  note D = sd_relD [OF rel] and w = window_okD [OF sd_relD(2) [OF rel]]
  let ?r = "\<lparr>rr_left = sd_last_sent s, rr_right = ri_sub (sd_M s) (ri_add (sd_M s) (sd_last_sent s) 0) 1\<rparr>"
  let ?s = "s\<lparr>sd_last_sent := ri_add (sd_M s) (sd_last_sent s) 0\<rparr>"
  have z: "ri_add (sd_M s) (sd_last_sent s) 0 = sd_last_sent s" using D(3,8) by simp
  have "0 < L" using True D(13) by simp
  then have "ri_sub (sd_M s) (sd_last_sent s) 1 = ri_make (sd_M s) (s0 + (B + L) - 1)"
    using D(3,8) w ri_sub_make [of "sd_M s" 1 "s0 + (B + L)"] by simp
  then have r: "rng_sent (sd_M s) s0 (sd_window_size s) B (length S) ?r"
    using True D(5,8) \<open>0 < L\<close> unfolding rng_sent_def z
    by (intro exI [of _ "B + L"] exI [of _ 0]) (simp add: add.assoc)
  have rel': "sd_rel S s0 B L ?s" using rel z by simp
  obtain s1 res where reg: "sd_RegisterChunk ?s \<lparr>ds_first = [], ds_second = []\<rparr> ?r now = (s1, res)" by fastforce
  have r': "rng_sent (sd_M ?s) s0 (sd_window_size ?s) B (length S) ?r" using r by simp
  note R = sd_RegisterChunk_rel [OF rel' r' reg]
  have d0: "ds_size \<lparr>ds_first = [], ds_second = []\<rparr> = 0" by (simp add: ds_size_def)
  note eqs = sd_SendChunk_eq [OF mp sd_GetNextChunk_cases(1) [OF rel mp True], unfolded d0, OF reg]
  show ?thesis
  proof (cases res)
    case (Inl e)
    then have "(s', evs) = sd_RejectSend s1 (ri_sub (sd_M s1) (sd_last_sent s1) 1)"
      using eqs(1) [of e] run(1) R(7) by simp
    then show ?thesis using run(2) sd_RejectSend_failure by (metis snd_conv)
  next
    case (Inr dc)
    then have "dc = (\<lparr>ds_first = [], ds_second = []\<rparr>, snd dc)" using R(6) [of "fst dc" "snd dc"] by (simp add: prod_eq_iff)
    then show ?thesis using eqs(2) [of "\<lparr>ds_first = [], ds_second = []\<rparr>" "snd dc"] run(1) R(1,2,5) Inr d0 by simp
  qed
qed

lemma sd_SendChunk_next:
  assumes rel: "sd_rel S s0 B L s" and mp: "0 < sd_max_payload_size s"
    and L: "L < sd_window_size s" "B + L < length S"
    and run: "sd_SendChunk s now = (s', evs)" "list_all (\<lambda>e. \<not> is_failure e) evs"
    and k: "k = min (min (sd_max_payload_size s) (sd_window_size s - L)) (length S - (B + L))"
  shows "\<exists>rep. evs = [EvPushData (u16 (cb_begin (sd_buffer s)))
        \<lparr>dm_reset = sd_init_state s, dm_repeat_count = rep, dm_delta_offset = u16 L, dm_data = take k (drop (B + L) S)\<rparr>
        (ri_make (sd_M s) (s0 + (B + L + k - 1)))] \<and>
    sd_rel S s0 B (L + k) s' \<and> sd_M s' = sd_M s \<and> sd_window_size s' = sd_window_size s"
proof -
  note D = sd_relD [OF rel] and w = window_okD [OF sd_relD(2) [OF rel]]
  let ?p = "min (sd_max_payload_size s) (sd_window_size s - L)"
  have k0: "0 < k" "L + k \<le> sd_window_size s" "B + L + k \<le> length S" "k \<le> sd_M s"
    using mp L w unfolding k by (auto simp: min_def)
  obtain d where d: "sd_GetNextChunk s = Inr d" "ds_bytes d = take ?p (drop (B + L) S)"
    using sd_GetNextChunk_cases(3) [OF rel mp L] by blast
  have size_d: "ds_size d = k" using d(2) by (simp add: ds_size_bytes k min.commute)
  then have bytes: "ds_bytes d = take k (drop (B + L) S)"
    using take_own_length [OF d(2)] by (simp add: ds_size_bytes)
  let ?s = "s\<lparr>sd_last_sent := ri_add (sd_M s) (sd_last_sent s) (ds_size d)\<rparr>"
  let ?r = "\<lparr>rr_left = sd_last_sent s, rr_right = ri_sub (sd_M s) (ri_add (sd_M s) (sd_last_sent s) (ds_size d)) 1\<rparr>"
  have add: "ri_add (sd_M s) (sd_last_sent s) (ds_size d) = ri_make (sd_M s) (s0 + (B + (L + k)))"
    using D(3,8) k0 size_d by (simp add: ri_add_make add.assoc)
  have right: "rr_right ?r = ri_make (sd_M s) (s0 + (B + L + k - 1))"
    using D(3) k0 w ri_sub_make [of "sd_M s" 1 "s0 + (B + (L + k))"] by (simp add: add add.assoc)
  have r: "rng_sent (sd_M s) s0 (sd_window_size s) B (length S) ?r"
    unfolding rng_sent_def using D(8) right k0
    by (intro exI [of _ "B + L"] exI [of _ k]) (simp add: add.assoc)
  have rel': "sd_rel S s0 B (L + k) ?s" using sd_rel_last_sent [OF rel, of "L + k"] k0 add by (simp add: add.assoc)
  obtain s1 res where reg: "sd_RegisterChunk ?s d ?r now = (s1, res)" by fastforce
  have r': "rng_sent (sd_M ?s) s0 (sd_window_size ?s) B (length S) ?r" using r by simp
  note R = sd_RegisterChunk_rel [OF rel' r' reg] and eqs = sd_SendChunk_eq [OF mp d(1) reg]
  show ?thesis
  proof (cases res)
    case (Inl e)
    then have "(s', evs) = sd_RejectSend s1 (ri_sub (sd_M s1) (sd_last_sent s1) 1)"
      using eqs(1) [of e] run(1) R(7) by simp
    then show ?thesis using run(2) sd_RejectSend_failure by (metis snd_conv)
  next
    case (Inr dc)
    obtain d' c where "dc = (d', c)" by (cases dc)
    then have res: "res = Inr (d', c)" using Inr by (simp only:)
    have d': "d' = d" "sc_range c = ?r" using R(6) [OF res] by (rule conjunct1, rule conjunct2)
    note c = res [unfolded d'(1)] d'(2)
    have s': "s' = sd_EnqueueRepeatTimeout (sd_EnqueueSend s1)"
      and evs: "evs = [EvPushData (fst (sd_PushData s1 d (rr_left ?r) (u8 (sc_repeat_count c + 255))))
            (snd (sd_PushData s1 d (rr_left ?r) (u8 (sc_repeat_count c + 255)))) (rr_right ?r)]"
      using eqs(2) [OF c(1)] run(1) size_d k0(1) unfolding c(2) by simp_all
    have "sd_rel S s0 B (L + k) s'" "sd_M s' = sd_M s" "sd_window_size s' = sd_window_size s"
      unfolding s' using R(1,2,5) by (simp_all add: sd_rel_EnqueueRepeatTimeout)
    moreover have "evs = [EvPushData (u16 (cb_begin (sd_buffer s)))
        \<lparr>dm_reset = sd_init_state s, dm_repeat_count = u8 (sc_repeat_count c + 255), dm_delta_offset = u16 L,
         dm_data = take k (drop (B + L) S)\<rparr> (ri_make (sd_M s) (s0 + (B + L + k - 1)))]"
      unfolding evs right using R(2,4) D(12) bytes by (simp add: sd_PushData_def)
    ultimately show ?thesis by blast
  qed
qed

subsection \<open>A full window\<close>

text \<open>With the window full, \<^verbatim>\<open>GetNextChunk\<close> returns an empty span, and that span is registered as a
  chunk at the next position: each run of the send task adds one to its repeat count.\<close>

lemma scl_repeats_RegisterChunk:
  assumes "scl_distinct (sd_chunks s)" "sd_RegisterChunk s d r now = (s', res)"
  defines "n \<equiv> u8 ((case scl_repeats (sd_chunks s) (rr_left r) of None \<Rightarrow> 0 | Some m \<Rightarrow> m) + 1)"
  shows "scl_repeats (sd_chunks s') (rr_left r) = Some n"
    "n > sd_max_repeat_count s \<Longrightarrow> res = Inl 2" "n \<le> sd_max_repeat_count s \<Longrightarrow> \<exists>c. res = Inr (d, c)"
proof -
  let ?l = "scl_Register (sd_chunks s) r now"
  note ch = scl_Register_chunks [OF assms(1), of r now]
  have none: "find (\<lambda>c. sc_left c = rr_left r) (filter (\<lambda>c. sc_left c \<noteq> rr_left r) xs) = None" for xs
    by (simp add: find_None_iff)
  have find_append: "find P (xs @ ys) = (case find P xs of None \<Rightarrow> find P ys | Some x \<Rightarrow> Some x)" for P and xs ys :: "send_chunk list"
    by (induction xs) auto
  show "scl_repeats (sd_chunks s') (rr_left r) = Some n"
    using assms(2) by (auto simp: sd_RegisterChunk_def Let_def ch scl_repeats_def find_append none n_def
        split: if_splits)
  show "n > sd_max_repeat_count s \<Longrightarrow> res = Inl 2" "n \<le> sd_max_repeat_count s \<Longrightarrow> \<exists>c. res = Inr (d, c)"
    using assms(2) by (auto simp: sd_RegisterChunk_def Let_def ch n_def split: if_splits)
qed

lemma sd_SendChunk_full_window:
  assumes rel: "sd_rel S s0 B L s" and mp: "0 < sd_max_payload_size s" and L: "L = sd_window_size s"
  defines "n \<equiv> u8 ((case scl_repeats (sd_chunks s) (sd_last_sent s) of None \<Rightarrow> 0 | Some m \<Rightarrow> m) + 1)"
  shows "n \<le> sd_max_repeat_count s \<Longrightarrow> \<exists>s'. sd_SendChunk s now = (s', []) \<and> sd_rel S s0 B L s' \<and>
      scl_repeats (sd_chunks s') (sd_last_sent s') = Some n \<and> sd_max_repeat_count s' = sd_max_repeat_count s \<and>
      sd_max_payload_size s' = sd_max_payload_size s \<and> sd_window_size s' = sd_window_size s \<and> sd_buffer s' = sd_buffer s"
    "n > sd_max_repeat_count s \<Longrightarrow> \<exists>s'. sd_SendChunk s now =
        (s', [EvSendFailed (cb_begin (sd_buffer s)) (ri_sub (sd_M s) (sd_last_sent s) 1)]) \<and>
      cb_contents (sd_buffer s') = drop (B + L) S"
proof -
  note D = sd_relD [OF rel] and w = window_okD [OF sd_relD(2) [OF rel]]
  let ?d = "\<lparr>ds_first = [], ds_second = []\<rparr>"
  let ?r = "\<lparr>rr_left = sd_last_sent s, rr_right = ri_sub (sd_M s) (ri_add (sd_M s) (sd_last_sent s) 0) 1\<rparr>"
  have d0: "ds_size ?d = 0" by (simp add: ds_size_def)
  have z: "ri_add (sd_M s) (sd_last_sent s) 0 = sd_last_sent s" using D(3,8) by simp
  have s_eq: "s\<lparr>sd_last_sent := ri_add (sd_M s) (sd_last_sent s) 0\<rparr> = s" by (simp add: z)
  obtain s1 res where reg: "sd_RegisterChunk s ?d ?r now = (s1, res)" by fastforce
  note get = sd_GetNextChunk_cases(1) [OF rel mp L]
  note eqs = sd_SendChunk_eq [OF mp get, unfolded d0 s_eq, OF reg]
  have dist: "scl_distinct (sd_chunks s)" using rel by (simp add: sd_rel_def)
  note rep = scl_repeats_RegisterChunk [OF dist reg, unfolded ring_range.select_convs, folded n_def]
  have s1: "sd_buffer s1 = sd_buffer s" "sd_last_sent s1 = sd_last_sent s" "sd_window_size s1 = sd_window_size s"
    "sd_max_repeat_count s1 = sd_max_repeat_count s" "sd_max_payload_size s1 = sd_max_payload_size s"
    using reg by (auto simp: sd_RegisterChunk_def Let_def split: if_splits)
  have "0 < L" using L D(13) by simp
  then have prev: "ri_sub (sd_M s) (sd_last_sent s) 1 = ri_make (sd_M s) (s0 + (B + L - 1))"
    using D(3,8) w ri_sub_make [of "sd_M s" 1 "s0 + (B + L)"] by simp
  then have r: "rng_sent (sd_M s) s0 (sd_window_size s) B (length S) ?r"
    using L D(5,8) \<open>0 < L\<close> unfolding rng_sent_def z
    by (intro exI [of _ "B + L"] exI [of _ 0]) (simp add: add.assoc)
  show "\<exists>s'. sd_SendChunk s now = (s', []) \<and> sd_rel S s0 B L s' \<and>
      scl_repeats (sd_chunks s') (sd_last_sent s') = Some n \<and> sd_max_repeat_count s' = sd_max_repeat_count s \<and>
      sd_max_payload_size s' = sd_max_payload_size s \<and> sd_window_size s' = sd_window_size s \<and> sd_buffer s' = sd_buffer s"
    if "n \<le> sd_max_repeat_count s"
    using rep(1) rep(3) [OF that] eqs(2) [of ?d] d0 s1 sd_RegisterChunk_rel(1) [OF rel r reg] by auto
  show "\<exists>s'. sd_SendChunk s now =
        (s', [EvSendFailed (cb_begin (sd_buffer s)) (ri_sub (sd_M s) (sd_last_sent s) 1)]) \<and>
      cb_contents (sd_buffer s') = drop (B + L) S" if "n > sd_max_repeat_count s"
  proof -
    have "ri_add (sd_M s) (ri_sub (sd_M s) (sd_last_sent s) 1) 1 = cb_index (sd_buffer s) L"
      using prev D(3,8,11) \<open>0 < L\<close> w by (simp add: ri_add_make)
    moreover have "L \<le> cb_size (sd_buffer s)" using D(5,7) by simp
    ultimately have "cb_contents (cb_Erase (sd_buffer s) (ri_add (sd_M s) (ri_sub (sd_M s) (sd_last_sent s) 1) 1)) = drop (B + L) S"
      using cb_Erase_in(5) [OF D(1)] D(6) by (simp add: add.commute)
    then show ?thesis
      using eqs(1) [OF rep(2) [OF that]] s1 by (simp add: sd_RejectSend_def Let_def)
  qed
qed

fun sd_send_times :: "sender \<Rightarrow> nat list \<Rightarrow> sender \<times> send_event list" where
  "sd_send_times s [] = (s, [])"
| "sd_send_times s (t # ts) =
     (case sd_SendChunk s t of (s1, evs) \<Rightarrow> case sd_send_times s1 ts of (s2, evs') \<Rightarrow> (s2, evs @ evs'))"

lemma sd_full_window_run:
  assumes "sd_rel S s0 B L s" "0 < sd_max_payload_size s" "L = sd_window_size s" "sd_max_repeat_count s < 255"
    and "(case scl_repeats (sd_chunks s) (sd_last_sent s) of None \<Rightarrow> 0 | Some m \<Rightarrow> m) + length ts = sd_max_repeat_count s + 1"
    and "ts \<noteq> []"
  shows "\<exists>s'. sd_send_times s ts =
      (s', [EvSendFailed (cb_begin (sd_buffer s)) (ri_make (sd_M s) (s0 + (B + L - 1)))]) \<and>
    cb_contents (sd_buffer s') = drop (B + L) S"
  using assms
proof (induction ts arbitrary: s)
  case (Cons t ts)
  note D = sd_relD [OF Cons.prems(1)] and w = window_okD [OF sd_relD(2) [OF Cons.prems(1)]]
  let ?m = "case scl_repeats (sd_chunks s) (sd_last_sent s) of None \<Rightarrow> 0 | Some m \<Rightarrow> m"
  have "0 < L" using Cons.prems(3) D(13) by simp
  then have prev: "ri_sub (sd_M s) (sd_last_sent s) 1 = ri_make (sd_M s) (s0 + (B + L - 1))"
    using D(3,8) w ri_sub_make [of "sd_M s" 1 "s0 + (B + L)"] by simp
  have u: "u8 (?m + 1) = ?m + 1" using Cons.prems(4,5) by simp
  note F = sd_SendChunk_full_window [OF Cons.prems(1-3), of t, unfolded u]
  show ?case
  proof (cases "ts = []")
    case True
    then have "?m + 1 > sd_max_repeat_count s" using Cons.prems(5) by simp
    from F(2) [OF this] show ?thesis using True prev by auto
  next
    case False
    then have "?m + 1 \<le> sd_max_repeat_count s" using Cons.prems(5) by (cases ts) auto
    from F(1) [OF this] obtain s1 where s1: "sd_SendChunk s t = (s1, [])" "sd_rel S s0 B L s1"
      "scl_repeats (sd_chunks s1) (sd_last_sent s1) = Some (?m + 1)"
      "sd_max_repeat_count s1 = sd_max_repeat_count s" "sd_max_payload_size s1 = sd_max_payload_size s"
      "sd_window_size s1 = sd_window_size s" "sd_buffer s1 = sd_buffer s" by blast
    then show ?thesis using Cons.IH [OF s1(2)] Cons.prems False by auto
  qed
qed simp

lemma sd_payload_Enqueue:
  "sd_max_payload_size (sd_EnqueueRepeatTimeout s) = sd_max_payload_size s"
  "sd_max_payload_size (sd_EnqueueSend s) = sd_max_payload_size s"
  by (simp_all add: sd_EnqueueRepeatTimeout_def sd_EnqueueSend_def split: list.split option.split)

subsection \<open>Properties\<close>

text \<open>(C12) One run of the send task that reports no failure hands to the stream below exactly the next
  bytes of the stream, as many as the payload size, the rest of the window and the data written allow,
  labelled with the position of the first unacknowledged byte and the offset from it; when there is
  nothing to send or the window is full it sends nothing.  The invariant of the sender is kept.\<close>

theorem sender_sends_next_bytes:
  assumes "sd_rel S s0 B L s" "0 < sd_max_payload_size s"
    and "sd_SendChunk s now = (s', evs)" "list_all (\<lambda>e. \<not> is_failure e) evs"
    and "k = min (min (sd_max_payload_size s) (sd_window_size s - L)) (length S - (B + L))"
  shows "sd_rel S s0 B (L + k) s' \<and>
    (if k = 0 then evs = []
     else \<exists>rep. evs = [EvPushData (u16 (cb_begin (sd_buffer s)))
        \<lparr>dm_reset = sd_init_state s, dm_repeat_count = rep, dm_delta_offset = u16 L,
         dm_data = take k (drop (B + L) S)\<rparr> (ri_make (sd_M s) (s0 + (B + L + k - 1)))])"
proof (cases "L < sd_window_size s \<and> B + L < length S")
  case True
  then have "k \<noteq> 0" using assms(2,5) by (simp add: min_def)
  then show ?thesis using sd_SendChunk_next [OF assms(1,2) _ _ assms(3,4,5)] True by auto
next
  case False
  then have "L = sd_window_size s \<or> B + L = length S" using sd_relD(5,9) [OF assms(1)] by linarith
  moreover from this have "k = 0" using assms(5) by auto
  ultimately show ?thesis using sd_SendChunk_idle [OF assms(1,2) _ assms(3,4)] by simp
qed

text \<open>A sender on a ring of ten bytes with a window of three, after a write of five bytes.\<close>

definition test_send_config :: SafeStreamConfig where
  "test_send_config = \<lparr>cfg_window_size = 3, cfg_max_packet_size = 3, cfg_max_repeat_count = 2,
     cfg_wait_ack_timeout = 10, cfg_send_ack_timeout = 1, cfg_send_repeat_timeout = 1\<rparr>"

definition test_sender :: sender where
  "test_sender = sd_SetMaxPayload (sd_make (push_last 100) [0, 0, 0, 0, 0, 0, 0, 0, 0, 0] 9 test_send_config) 3"

definition test_sender_1 :: sender where
  "test_sender_1 = \<lparr>sd_max_repeat_count = 2, sd_window_size = 3, sd_max_payload_size = 3,
    sd_buffer = \<lparr>cb_begin = 9, cb_end = 4, cb_buffer = [2, 3, 4, 5, 0, 0, 0, 0, 0, 1]\<rparr>,
    sd_chunks = \<lparr>scl_buffer_begin = 9, scl_chunks = []\<rparr>, sd_last_sent = 9,
    sd_init_state = True, sd_statistics = [10], sd_repeat_timer = None, sd_send_enqueued = True\<rparr>"

text \<open>The same sender after its first packet: the window is full.\<close>

definition test_sender_2 :: sender where
  "test_sender_2 = test_sender_1\<lparr>sd_chunks := \<lparr>scl_buffer_begin = 9, scl_chunks =
        [\<lparr>sc_range = \<lparr>rr_left = 9, rr_right = 1\<rparr>, sc_send_time = 7, sc_repeat_count = 1\<rparr>]\<rparr>,
     sd_last_sent := 2, sd_repeat_timer := Some (\<lparr>rr_left = 9, rr_right = 1\<rparr>, 17)\<rparr>"

lemma test_sender_rel: "sd_rel [] 9 0 0 test_sender"
  using sd_rel_make [of "[0, 0, 0, 0, 0, 0, 0, 0, 0, 0]" test_send_config 9 "push_last 100"]
  by (simp add: test_sender_def sd_SetMaxPayload_def test_send_config_def ring_max_ok_def window_ok_def
      RandomOffset_def)

lemma test_sender_fields: "sd_M test_sender = 10" "sd_max_payload_size test_sender = 3"
  "sd_window_size test_sender = 3" "sd_max_repeat_count test_sender = 2"
  by (simp_all add: test_sender_def sd_SetMaxPayload_def sd_make_def Let_def cb_make_def sd_EnqueueSend_def test_send_config_def)

lemma test_sender_0_eq:
  "sd_SendData test_sender [1, 2, 3, 4, 5] = (Inr \<lparr>rr_left = 9, rr_right = 3\<rparr>, test_sender_1)"
  by code_simp

lemma test_sender_1_eq: "sd_SendChunk test_sender_1 7 = (test_sender_2, [EvPushData 9
    \<lparr>dm_reset = True, dm_repeat_count = 0, dm_delta_offset = 0, dm_data = [1, 2, 3]\<rparr> 1])"
  by code_simp

lemma test_sender_1_rel: "sd_rel [1, 2, 3, 4, 5] 9 0 0 test_sender_1"
proof -
  obtain b where "test_sender_1 = sd_EnqueueSend (test_sender\<lparr>sd_buffer := b\<rparr>)"
    "sd_rel [1, 2, 3, 4, 5] 9 0 0 (test_sender\<lparr>sd_buffer := b\<rparr>)"
    using sd_SendData_rel [OF test_sender_rel, of "[1, 2, 3, 4, 5]"]
    by (auto simp: test_sender_0_eq test_sender_fields)
  then show ?thesis using sd_rel_EnqueueSend by metis
qed

lemma test_sender_1_fields: "sd_M test_sender_1 = 10" "sd_max_payload_size test_sender_1 = 3"
  "sd_window_size test_sender_1 = 3" "sd_init_state test_sender_1" "cb_begin (sd_buffer test_sender_1) = 9"
  by (simp_all add: test_sender_1_def)

lemma test_sender_2_fields: "sd_M test_sender_2 = 10" "sd_max_payload_size test_sender_2 = 3"
  "sd_window_size test_sender_2 = 3" "sd_max_repeat_count test_sender_2 = 2"
  "scl_repeats (sd_chunks test_sender_2) (sd_last_sent test_sender_2) = None"
  by (simp_all add: test_sender_2_def test_sender_1_def scl_repeats_def)

lemma test_sender_2_rel: "sd_rel [1, 2, 3, 4, 5] 9 0 3 test_sender_2"
  using sd_SendChunk_next [OF test_sender_1_rel _ _ _ test_sender_1_eq _ refl]
  by (auto simp: test_sender_1_fields is_failure_def numeral_3_eq_3)

theorem sender_sends_next_bytes_witness:
  "(\<exists>rep. snd (sd_SendChunk test_sender_1 7) = [EvPushData (u16 9) \<lparr>dm_reset = True, dm_repeat_count = rep,
      dm_delta_offset = u16 0, dm_data = [1, 2, 3]\<rparr> (ri_make 10 (9 + 2))])"
  using sender_sends_next_bytes [OF test_sender_1_rel _ test_sender_1_eq _ refl]
  by (simp add: test_sender_1_fields is_failure_def test_sender_1_eq numeral_3_eq_3)



text \<open>The retransmission timeout is the 99th percentile of the response times for the first
  transmission, one and a half times that for the second, and grows linearly and monotonically with
  the number of transmissions from there on.\<close>

theorem sender_timeout_growth:
  "(n \<le> 1 \<longrightarrow> rto_timeout p n = p) \<and> (2 \<le> n \<longrightarrow> rto_timeout p n = (3 * p * (n - 1)) div 2) \<and>
   p \<le> rto_timeout p n \<and> (n \<le> m \<longrightarrow> rto_timeout p n \<le> rto_timeout p m)"
proof -
  have two: "rto_timeout p n = (3 * p * (n - 1)) div 2" if "2 \<le> n" for n
    using that by (auto simp: rto_timeout_def)
  have one: "rto_timeout p n = p" if "n \<le> 1" for n using that by (simp add: rto_timeout_def)
  have ge: "p \<le> rto_timeout p n" for n
  proof (cases "2 \<le> n")
    case True
    then have "3 * p * 1 \<le> 3 * p * (n - 1)" by (intro mult_le_mono2) simp
    then have "2 * p \<le> 3 * p * (n - 1)" by linarith
    moreover have "2 * p \<le> x \<Longrightarrow> p \<le> x div 2" for x by presburger
    ultimately show ?thesis unfolding two [OF True] by blast
  qed (simp add: one)
  have "rto_timeout p n \<le> rto_timeout p m" if "n \<le> m" for m
  proof (cases "2 \<le> n")
    case True
    then have "2 \<le> m" using that by simp
    show ?thesis unfolding two [OF True] two [OF \<open>2 \<le> m\<close>] using that by (intro div_le_mono mult_le_mono2) simp
  next
    case False
    then show ?thesis using one [of n] ge [of m] by simp
  qed
  then show ?thesis using one two ge by auto
qed

theorem sender_timeout_growth_witness:
  "rto_timeout 100 1 = 100 \<and> rto_timeout 100 2 = 150 \<and> rto_timeout 100 2 \<le> rto_timeout 100 5"
  using sender_timeout_growth [of 1 100 2] sender_timeout_growth [of 2 100 5] by simp

text \<open>(C14) A full window is counted as failed transmissions: while the window is full each run of the
  send task (every further write triggers one) raises the repeat count of a chunk that was never sent,
  and once it exceeds the maximum all unacknowledged bytes are reported as failed and dropped, although
  none of them was transmitted more than once.\<close>

theorem sender_full_window_drops_data:
  assumes "sd_rel S s0 B L s" "0 < sd_max_payload_size s" "L = sd_window_size s" "sd_max_repeat_count s < 255"
    and "scl_repeats (sd_chunks s) (sd_last_sent s) = None" "length ts = sd_max_repeat_count s + 1"
  shows "\<exists>s'. sd_send_times s ts =
      (s', [EvSendFailed (cb_begin (sd_buffer s)) (ri_make (sd_M s) (s0 + (B + L - 1)))]) \<and>
    cb_contents (sd_buffer s') = drop (B + L) S"
proof -
  have "ts \<noteq> []" using assms(6) by auto
  then show ?thesis using assms(5,6) by (intro sd_full_window_run [OF assms(1-4)]) simp_all
qed

theorem sender_full_window_drops_data_witness:
  "\<exists>s'. sd_send_times test_sender_2 [8, 9, 10] =
      (s', [EvSendFailed (cb_begin (sd_buffer test_sender_2)) (ri_make 10 (9 + 2))]) \<and>
    cb_contents (sd_buffer s') = [4, 5]"
proof -
  have "\<exists>s'. sd_send_times test_sender_2 [8, 9, 10] = (s', [EvSendFailed (cb_begin (sd_buffer test_sender_2))
      (ri_make (sd_M test_sender_2) (9 + (0 + 3 - 1)))]) \<and> cb_contents (sd_buffer s') = drop (0 + 3) [1, 2, 3, 4, 5]"
    by (rule sender_full_window_drops_data [OF test_sender_2_rel]) (simp_all add: test_sender_2_fields)
  then show ?thesis by (simp only: test_sender_2_fields) (simp del: sd_send_times.simps)
qed



end
