(* ===== verification/Safe_Stream.thy ===== *)
theory Safe_Stream
  imports Safe_Recv Safe_Send
begin

text \<open>
  \<^verbatim>\<open>aether/safe_stream/safe_stream.h\<close> and \<^verbatim>\<open>details/safe_stream_api.h\<close>: the stream that joins a sender and a
  receiver, with \<^verbatim>\<open>StreamInfo\<close> of \<^verbatim>\<open>stream_api/istream.h\<close>.

  The four remote calls of the interface are the constructors of \<open>ss_message\<close>; their byte encoding
  belongs to the protocol layer.  A write action is known by its number, and what the stream causes
  outside (messages to the stream below, data for the reader, status of a write, an update event) is
  returned in order.

  The second half composes a sender with a receiver over a network that may lose, repeat, delay and
  reorder messages, and shows that the receiver delivers a prefix of what was written.
\<close>

datatype LinkState = kUnlinked | kLinked | kLinkError

record StreamInfo =
  si_rec_element_size :: nat
  si_max_element_size :: nat
  si_is_reliable :: bool
  si_link_state :: LinkState
  si_is_writable :: bool

datatype ss_message =
  MsgAck nat
| MsgRequestRepeat nat
| MsgSendReset nat nat nat "byte list"
| MsgSend nat nat nat "byte list"

datatype ss_output =
  OutMessage ss_message ring_index
| OutData "byte list"
| OutWriteStatus nat WriteStatus
| OutStreamUpdate

record safe_stream =
  ss_config :: SafeStreamConfig
  ss_sender :: sender
  ss_receiver :: receiver
  ss_writes :: "(ring_index \<times> nat) list"
  ss_next_write :: nat
  ss_info :: StreamInfo

definition ss_make ::
  "(nat list \<Rightarrow> nat \<Rightarrow> nat list) \<Rightarrow> byte list \<Rightarrow> byte list \<Rightarrow> nat \<Rightarrow> SafeStreamConfig \<Rightarrow> safe_stream"
where
  "ss_make push mem_s mem_r rnd config =
     \<lparr>ss_config = config, ss_sender = sd_make push mem_s rnd config, ss_receiver = rv_make mem_r config,
      ss_writes = [], ss_next_write = 0,
      ss_info = \<lparr>si_rec_element_size = cfg_max_packet_size config,
                 si_max_element_size = cfg_max_packet_size config, si_is_reliable = False,
                 si_link_state = kUnlinked, si_is_writable = False\<rparr>\<rparr>"

text \<open>\<^verbatim>\<open>Write\<close>: \<open>None\<close> is the failed write action, whose status is set by a task of its own.\<close>

definition ss_Write :: "safe_stream \<Rightarrow> byte list \<Rightarrow> nat option \<times> safe_stream" where
  "ss_Write st data =
     (case sd_SendData (ss_sender st) data of
        (Inl _, _) \<Rightarrow> (None, st)
      | (Inr r, sd) \<Rightarrow>
          (Some (ss_next_write st),
           st\<lparr>ss_sender := sd, ss_writes := ss_writes st @ [(rr_right r, ss_next_write st)],
              ss_next_write := ss_next_write st + 1\<rparr>))"

text \<open>\<^verbatim>\<open>WriteAcknowledged\<close>, \<^verbatim>\<open>WriteStopped\<close> and \<^verbatim>\<open>WriteFailed\<close> differ in the status only: every write that
  ends, seen from the begin of the buffer, not after the index gets it, and is then erased.\<close>

definition ss_finish_writes ::
  "WriteStatus \<Rightarrow> safe_stream \<Rightarrow> ring_index \<Rightarrow> ring_index \<Rightarrow> safe_stream \<times> ss_output list"
where
  "ss_finish_writes status st buffer_begin index =
     (let M = sd_M (ss_sender st);
          hit = (\<lambda>(right, _). ic_le M buffer_begin right index)
      in (st\<lparr>ss_writes := filter (\<lambda>w. \<not> hit w) (ss_writes st)\<rparr>,
          map (\<lambda>(_, n). OutWriteStatus n status) (filter hit (ss_writes st))))"

definition ss_WriteAcknowledged :: "safe_stream \<Rightarrow> ring_index \<Rightarrow> ring_index \<Rightarrow> safe_stream \<times> ss_output list" where
  "ss_WriteAcknowledged = ss_finish_writes kSuccess"

definition ss_WriteStopped :: "safe_stream \<Rightarrow> ring_index \<Rightarrow> ring_index \<Rightarrow> safe_stream \<times> ss_output list" where
  "ss_WriteStopped = ss_finish_writes kStop"

definition ss_WriteFailed :: "safe_stream \<Rightarrow> ring_index \<Rightarrow> ring_index \<Rightarrow> safe_stream \<times> ss_output list" where
  "ss_WriteFailed = ss_finish_writes kFail"

definition ss_PushData :: "nat \<Rightarrow> DataMessage \<Rightarrow> ss_message" where
  "ss_PushData begin_offset msg =
     (if dm_reset msg
      then MsgSendReset begin_offset (dm_delta_offset msg) (dm_repeat_count msg) (dm_data msg)
      else MsgSend begin_offset (dm_delta_offset msg) (dm_repeat_count msg) (dm_data msg))"

text \<open>The subscriptions made in the constructor: the stopped event has no subscriber.\<close>

fun ss_sender_events :: "safe_stream \<Rightarrow> send_event list \<Rightarrow> safe_stream \<times> ss_output list" where
  "ss_sender_events st [] = (st, [])"
| "ss_sender_events st (e # es) =
     (case (case e of
              EvPushData index msg end_index \<Rightarrow> (st, [OutMessage (ss_PushData index msg) end_index])
            | EvAcknowledged b i \<Rightarrow> ss_WriteAcknowledged st b i
            | EvSendFailed b i \<Rightarrow> ss_WriteFailed st b i
            | EvStopped _ _ \<Rightarrow> (st, [])) of
        (st1, out1) \<Rightarrow> case ss_sender_events st1 es of (st2, out2) \<Rightarrow> (st2, out1 @ out2))"

fun ss_receiver_output :: "recv_event \<Rightarrow> ss_output" where
  "ss_receiver_output (EvReceive data) = OutData data"
| "ss_receiver_output (EvSendAck index) = OutMessage (MsgAck index) 0"
| "ss_receiver_output (EvSendRepeatRequest index) = OutMessage (MsgRequestRepeat index) 0"

definition ss_StopWrite :: "safe_stream \<Rightarrow> ring_range \<Rightarrow> safe_stream \<times> ss_output list" where
  "ss_StopWrite st rng =
     (case sd_Stop (ss_sender st) rng of (sd, evs) \<Rightarrow> ss_sender_events (st\<lparr>ss_sender := sd\<rparr>) evs)"

definition ss_AckImpl ::
  "(nat list \<Rightarrow> nat \<Rightarrow> nat list) \<Rightarrow> nat \<Rightarrow> safe_stream \<Rightarrow> nat \<Rightarrow> safe_stream \<times> ss_output list"
where
  "ss_AckImpl push now st index =
     (case sd_Acknowledge push now (ss_sender st) index of
        (_, sd, evs) \<Rightarrow> ss_sender_events (st\<lparr>ss_sender := sd\<rparr>) evs)"

definition ss_RequestRepeatImpl :: "safe_stream \<Rightarrow> nat \<Rightarrow> safe_stream" where
  "ss_RequestRepeatImpl st index = st\<lparr>ss_sender := sd_RequestRepeat (ss_sender st) index\<rparr>"

definition ss_SendResetImpl :: "safe_stream \<Rightarrow> nat \<Rightarrow> nat \<Rightarrow> nat \<Rightarrow> byte list \<Rightarrow> safe_stream" where
  "ss_SendResetImpl st begin_offset delta_offset repeat_count data =
     st\<lparr>ss_receiver := rv_PushData (ss_receiver st) begin_offset
          \<lparr>dm_reset = True, dm_repeat_count = repeat_count, dm_delta_offset = delta_offset, dm_data = data\<rparr>\<rparr>"

definition ss_SendImpl :: "safe_stream \<Rightarrow> nat \<Rightarrow> nat \<Rightarrow> nat \<Rightarrow> byte list \<Rightarrow> safe_stream" where
  "ss_SendImpl st begin_offset delta_offset repeat_count data =
     st\<lparr>ss_receiver := rv_PushData (ss_receiver st) begin_offset
          \<lparr>dm_reset = False, dm_repeat_count = repeat_count, dm_delta_offset = delta_offset, dm_data = data\<rparr>\<rparr>"

fun ss_OnOutData ::
  "(nat list \<Rightarrow> nat \<Rightarrow> nat list) \<Rightarrow> nat \<Rightarrow> safe_stream \<Rightarrow> ss_message \<Rightarrow> safe_stream \<times> ss_output list"
where
  "ss_OnOutData push now st (MsgAck i) = ss_AckImpl push now st i"
| "ss_OnOutData push now st (MsgRequestRepeat i) = (ss_RequestRepeatImpl st i, [])"
| "ss_OnOutData push now st (MsgSendReset b d r data) = (ss_SendResetImpl st b d r data, [])"
| "ss_OnOutData push now st (MsgSend b d r data) = (ss_SendImpl st b d r data, [])"

definition kSendOverhead :: nat where
  "kSendOverhead = 1 + 2 + 2 + 1 + 2"

definition ss_OnStreamUpdate :: "safe_stream \<Rightarrow> StreamInfo \<Rightarrow> safe_stream \<times> ss_output list" where
  "ss_OnStreamUpdate st out_info =
     (st\<lparr>ss_info := (ss_info st)\<lparr>si_link_state := si_link_state out_info,
            si_is_writable := si_is_writable out_info, si_is_reliable := True,
            si_rec_element_size := si_rec_element_size out_info,
            si_max_element_size := cfg_max_packet_size (ss_config st)\<rparr>,
         ss_sender := sd_SetMaxPayload (ss_sender st)
           (if si_rec_element_size out_info > 0
            then sz_sub (si_rec_element_size out_info) kSendOverhead else 0)\<rparr>,
      [OutStreamUpdate])"

text \<open>The tasks of the two halves.\<close>

definition ss_run_send :: "safe_stream \<Rightarrow> nat \<Rightarrow> safe_stream \<times> ss_output list" where
  "ss_run_send st now =
     (case sd_run_send (ss_sender st) now of (sd, evs) \<Rightarrow> ss_sender_events (st\<lparr>ss_sender := sd\<rparr>) evs)"

definition ss_run_receiver :: "safe_stream \<Rightarrow> recv_input \<Rightarrow> safe_stream \<times> ss_output list" where
  "ss_run_receiver st inp =
     (case rv_step (ss_receiver st) inp of
        (rv, evs) \<Rightarrow> (st\<lparr>ss_receiver := rv\<rparr>, map ss_receiver_output evs))"


subsection \<open>A sender and a receiver over a network\<close>

text \<open>A packet on the network: its index and message, the index of its last byte, and the position of its
  first byte in what was written, which only the proofs use.\<close>

type_synonym packet = "nat \<times> DataMessage \<times> ring_index \<times> nat"

record link =
  lk_sender :: sender
  lk_receiver :: receiver
  lk_net :: "packet list"
  lk_written :: "byte list"
  lk_out :: "byte list"

definition lk_acked :: "link \<Rightarrow> nat" where
  "lk_acked k = length (lk_written k) - cb_size (sd_buffer (lk_sender k))"

fun packets_of :: "nat \<Rightarrow> send_event list \<Rightarrow> packet list" where
  "packets_of B [] = []"
| "packets_of B (EvPushData i m e # es) = (i, m, e, B + dm_delta_offset m) # packets_of B es"
| "packets_of B (_ # es) = packets_of B es"

text \<open>The steps: a write that fits, the tasks and inputs of the two sides, and the delivery of a packet
  that was sent.  A message is lost by never being delivered and repeated by being delivered again.
  Delivery is limited to messages that are not a ring (minus the window) behind, the usual bound on the
  life time of a message; \<open>s0\<close> is the index at which the session started.  An acknowledgement is of a
  byte that was delivered and not of the byte the sender would send next.\<close>

inductive lk_step :: "(nat list \<Rightarrow> nat \<Rightarrow> nat list) \<Rightarrow> nat \<Rightarrow> link \<Rightarrow> link \<Rightarrow> bool" for push s0 where
  lk_write: "cb_size (sd_buffer (lk_sender k)) + length data < sd_M (lk_sender k) \<Longrightarrow>
    lk_step push s0 k (k\<lparr>lk_sender := snd (sd_SendData (lk_sender k) data), lk_written := lk_written k @ data\<rparr>)"
| lk_send: "sd_run_send (lk_sender k) now = (sd, evs) \<Longrightarrow> list_all (\<lambda>e. \<not> is_failure e) evs \<Longrightarrow>
    lk_step push s0 k (k\<lparr>lk_sender := sd, lk_net := packets_of (lk_acked k) evs @ lk_net k\<rparr>)"
| lk_repeat: "lk_step push s0 k (k\<lparr>lk_sender := sd_run_repeat (lk_sender k)\<rparr>)"
| lk_payload: "lk_step push s0 k (k\<lparr>lk_sender := sd_SetMaxPayload (lk_sender k) n\<rparr>)"
| lk_status: "(i, m, e, p) \<in> set (lk_net k) \<Longrightarrow>
    lk_acked k + sd_window_size (lk_sender k) < p + length (dm_data m) - 1 + sd_M (lk_sender k) \<Longrightarrow>
    lk_step push s0 k (k\<lparr>lk_sender := sd_WriteStatus (lk_sender k) e st\<rparr>)"
| lk_deliver: "(i, m, e, p) \<in> set (lk_net k) \<Longrightarrow>
    length (lk_out k) + rv_window_size (lk_receiver k) < p + rv_M (lk_receiver k) \<Longrightarrow>
    lk_step push s0 k (k\<lparr>lk_receiver := rv_PushData (lk_receiver k) i m\<rparr>)"
| lk_receiver: "inp \<in> {RvRunRecv, RvRunAck, RvRunMissing} \<Longrightarrow> rv_step (lk_receiver k) inp = (rv, evs) \<Longrightarrow>
    lk_step push s0 k (k\<lparr>lk_receiver := rv, lk_out := lk_out k @ received_bytes evs\<rparr>)"
| lk_ack: "a < length (lk_out k) \<Longrightarrow> length (lk_written k) < a + sd_M (lk_sender k) \<Longrightarrow>
    ri_make (sd_M (lk_sender k)) off = ri_make (sd_M (lk_sender k)) (s0 + a) \<Longrightarrow>
    ri_make (sd_M (lk_sender k)) off \<noteq> sd_last_sent (lk_sender k) \<Longrightarrow>
    lk_step push s0 k (k\<lparr>lk_sender := fst (snd (sd_Acknowledge push now (lk_sender k) off))\<rparr>)"
| lk_request: "q \<le> lk_acked k + sd_window_size (lk_sender k) \<Longrightarrow> q \<le> length (lk_written k) \<Longrightarrow>
    length (lk_written k) < q + sd_M (lk_sender k) \<Longrightarrow>
    ri_make (sd_M (lk_sender k)) off = ri_make (sd_M (lk_sender k)) (s0 + q) \<Longrightarrow>
    lk_step push s0 k (k\<lparr>lk_sender := sd_RequestRepeat (lk_sender k) off\<rparr>)"

definition lk_init :: "(nat list \<Rightarrow> nat \<Rightarrow> nat list) \<Rightarrow> byte list \<Rightarrow> byte list \<Rightarrow> nat \<Rightarrow> SafeStreamConfig \<Rightarrow> link" where
  "lk_init push mem_s mem_r rnd config =
     \<lparr>lk_sender = sd_make push mem_s rnd config, lk_receiver = rv_make mem_r config, lk_net = [],
      lk_written = [], lk_out = []\<rparr>"

text \<open>A packet carries the bytes of the stream at its position and was inside the window when sent.\<close>

definition packet_ok :: "nat \<Rightarrow> nat \<Rightarrow> nat \<Rightarrow> byte list \<Rightarrow> nat \<Rightarrow> packet \<Rightarrow> bool" where
  "packet_ok M w s0 W B = (\<lambda>(i, m, e, p).
     \<exists>B' \<le> B. i = ri_make M (s0 + B') \<and> B' \<le> p \<and> dm_delta_offset m = p - B' \<and> dm_data m \<noteq> [] \<and>
       p + length (dm_data m) \<le> length W \<and> dm_data m = take (length (dm_data m)) (drop p W) \<and>
       p + length (dm_data m) \<le> B' + w \<and> (dm_reset m \<longrightarrow> B' = 0) \<and>
       e = ri_make M (s0 + (p + length (dm_data m) - 1)))"

definition lk_inv :: "nat \<Rightarrow> link \<Rightarrow> bool" where
  "lk_inv s0 k \<longleftrightarrow>
     (\<exists>L. sd_rel (lk_written k) s0 (lk_acked k) L (lk_sender k)) \<and>
     rv_ok (lk_written k) s0 (length (lk_out k)) (lk_receiver k) \<and>
     lk_out k = take (length (lk_out k)) (lk_written k) \<and> lk_acked k \<le> length (lk_out k) \<and>
     rv_M (lk_receiver k) = sd_M (lk_sender k) \<and> rv_window_size (lk_receiver k) = sd_window_size (lk_sender k) \<and>
     sd_M (lk_sender k) \<le> 65536 \<and> s0 < sd_M (lk_sender k) \<and>
     (\<forall>pk \<in> set (lk_net k). packet_ok (sd_M (lk_sender k)) (sd_window_size (lk_sender k)) s0
        (lk_written k) (lk_acked k) pk)"

lemma lk_acked_rel: "sd_rel W s0 B L s \<Longrightarrow> length W - cb_size (sd_buffer s) = B"
  using sd_relD(5,7) [of W s0 B L s] by simp

lemma rv_rel_append: "rv_rel S s0 n s \<Longrightarrow> rv_rel (S @ d) s0 n s"
  by (auto simp: rv_rel_def nth_append split: option.splits)

lemma rv_ok_append: "rv_ok S s0 n s \<Longrightarrow> rv_ok (S @ d) s0 n s"
  by (auto simp: rv_ok_def rv_rel_append split: if_splits)

lemma packet_ok_append:
  assumes "packet_ok M w s0 W B pk"
  shows "packet_ok M w s0 (W @ d) B pk"
  using assms by (auto simp: packet_ok_def split: prod.splits)

lemma packet_ok_mono: "packet_ok M w s0 W B pk \<Longrightarrow> B \<le> B' \<Longrightarrow> packet_ok M w s0 W B' pk"
  by (auto simp: packet_ok_def split: prod.splits intro: le_trans)

lemma packet_genuine:
  assumes "packet_ok (rv_M r) (rv_window_size r) s0 W B (i, m, e, p)" "rv_ok W s0 n r" "B \<le> n"
    and "n + rv_window_size r < p + rv_M r" "s0 < rv_M r"
  shows "genuine_packet W s0 n r i m p"
proof -
  obtain B' where B': "B' \<le> B" "i = ri_make (rv_M r) (s0 + B')" "B' \<le> p" "dm_delta_offset m = p - B'"
    "dm_data m \<noteq> []" "p + length (dm_data m) \<le> length W" "dm_data m = take (length (dm_data m)) (drop p W)"
    "p + length (dm_data m) \<le> B' + rv_window_size r" "dm_reset m \<longrightarrow> B' = 0"
    using assms(1) by (auto simp: packet_ok_def)
  have "ri_make (rv_M r) (i + dm_delta_offset m) = ri_make (rv_M r) (s0 + p)"
    using B'(2-4) mod_add_left_eq [of "s0 + B'" "rv_M r" "p - B'"] by (simp add: ri_make_def)
  moreover have "rv_chunks r = None \<Longrightarrow> B' = 0" using assms(2,3) B'(1) by (simp add: rv_ok_def)
  ultimately show ?thesis using B' assms by (auto simp: genuine_packet_def fresh_packet_def ri_make_def)
qed

text \<open>Steps of the sender that keep the stream, and steps that acknowledge.\<close>

lemma lk_inv_sender:
  assumes "lk_inv s0 k" "sd_rel (lk_written k) s0 B L sd" "lk_acked k \<le> B" "B \<le> length (lk_out k)"
    and "sd_M sd = sd_M (lk_sender k)" "sd_window_size sd = sd_window_size (lk_sender k)"
    and "\<forall>pk \<in> set net. packet_ok (sd_M sd) (sd_window_size sd) s0 (lk_written k) B pk"
  shows "lk_inv s0 (k\<lparr>lk_sender := sd, lk_net := net @ lk_net k\<rparr>)"
proof -
  have "lk_acked (k\<lparr>lk_sender := sd, lk_net := net @ lk_net k\<rparr>) = B"
    using lk_acked_rel [OF assms(2)] by (simp add: lk_acked_def)
  then show ?thesis using assms packet_ok_mono by (fastforce simp: lk_inv_def)
qed

lemma lk_inv_sender_only:
  assumes "lk_inv s0 k" "sd_rel (lk_written k) s0 B L sd" "lk_acked k \<le> B" "B \<le> length (lk_out k)"
    and "sd_M sd = sd_M (lk_sender k)" "sd_window_size sd = sd_window_size (lk_sender k)"
  shows "lk_inv s0 (k\<lparr>lk_sender := sd\<rparr>)"
  using lk_inv_sender [OF assms, of "[]"] by simp

lemma sd_shape [simp]:
  "sd_M (sd_run_repeat s) = sd_M s" "sd_window_size (sd_run_repeat s) = sd_window_size s"
  "sd_M (sd_SetMaxPayload s n) = sd_M s" "sd_window_size (sd_SetMaxPayload s n) = sd_window_size s"
  "sd_M (sd_WriteStatus s e st) = sd_M s" "sd_window_size (sd_WriteStatus s e st) = sd_window_size s"
  "sd_M (sd_RequestRepeat s q) = sd_M s" "sd_window_size (sd_RequestRepeat s q) = sd_window_size s"
  by (simp_all add: sd_run_repeat_def sd_ProcessRepeat_def sd_SetMaxPayload_def sd_WriteStatus_def
      sd_RequestRepeat_def Let_def split: option.splits WriteStatus.splits)

lemma sd_run_repeat_rel:
  assumes "sd_rel S s0 B L s"
  shows "\<exists>L'. sd_rel S s0 B L' (sd_run_repeat s)"
proof (cases "sd_repeat_timer s")
  case None
  then show ?thesis using assms by (auto simp: sd_run_repeat_def)
next
  case (Some rt)
  obtain r t where rt: "rt = (r, t)" by fastforce
  then have "rng_sent (sd_M s) s0 (sd_window_size s) B (length S) r"
    using assms Some by (auto simp: sd_rel_def)
  then show ?thesis
    using Some rt sd_ProcessRepeat_rel [OF sd_rel_no_timer [OF assms], of r] by (simp add: sd_run_repeat_def)
qed

lemma lk_inv_write:
  assumes inv: "lk_inv s0 k" and fits: "cb_size (sd_buffer (lk_sender k)) + length data < sd_M (lk_sender k)"
  shows "lk_inv s0 (k\<lparr>lk_sender := snd (sd_SendData (lk_sender k) data), lk_written := lk_written k @ data\<rparr>)"
proof -
  let ?k = "k\<lparr>lk_sender := snd (sd_SendData (lk_sender k) data), lk_written := lk_written k @ data\<rparr>"
  obtain L where rel: "sd_rel (lk_written k) s0 (lk_acked k) L (lk_sender k)" using inv by (auto simp: lk_inv_def)
  note D = sd_relD [OF rel]
  obtain r b where b: "sd_SendData (lk_sender k) data = (Inr r, sd_EnqueueSend ((lk_sender k)\<lparr>sd_buffer := b\<rparr>))"
    "cb_cap b = sd_M (lk_sender k)" "sd_rel (lk_written k @ data) s0 (lk_acked k) L ((lk_sender k)\<lparr>sd_buffer := b\<rparr>)"
    using sd_SendData_rel [OF rel, of data] fits D(7) by auto
  have acked: "lk_acked ?k = lk_acked k" using lk_acked_rel [OF b(3)] b(1) by (simp add: lk_acked_def)
  have "lk_out k = take (length (lk_out k)) (lk_written k @ data)"
    using inv by (metis (no_types, lifting) append_take_drop_id lk_inv_def append.assoc append_eq_conv_conj)
  then show ?thesis
    using inv b acked rv_ok_append packet_ok_append by (auto simp: lk_inv_def)
qed

lemma sd_run_send_rel:
  assumes rel: "sd_rel W s0 B L s" and run: "sd_run_send s now = (sd, evs)" "list_all (\<lambda>e. \<not> is_failure e) evs"
    and M: "sd_M s \<le> 65536"
  shows "(\<exists>L'. sd_rel W s0 B L' sd) \<and> sd_M sd = sd_M s \<and> sd_window_size sd = sd_window_size s \<and>
    (\<forall>pk \<in> set (packets_of B evs). packet_ok (sd_M s) (sd_window_size s) s0 W B pk)"
proof -
  let ?s = "s\<lparr>sd_send_enqueued := False\<rparr>"
  note D = sd_relD [OF rel] and w = window_okD [OF sd_relD(2) [OF rel]]
  have rel': "sd_rel W s0 B L ?s" using rel by simp
  consider "\<not> sd_send_enqueued s \<or> sd_max_payload_size s = 0"
    | "sd_send_enqueued s" "0 < sd_max_payload_size s" "L = sd_window_size s \<or> B + L = length W"
    | "sd_send_enqueued s" "0 < sd_max_payload_size s" "L < sd_window_size s" "B + L < length W"
    using D(5,9) by linarith
  then show ?thesis
  proof cases
    case 1
    then have "evs = []" "sd = s \<or> sd = ?s" using run(1) by (auto simp: sd_run_send_def sd_SendChunk_def split: if_splits)
    then show ?thesis using rel rel' by auto
  next
    case 2
    then show ?thesis using sd_SendChunk_idle [OF rel', of now sd evs] run by (auto simp: sd_run_send_def)
  next
    case 3
    define k where "k = min (min (sd_max_payload_size s) (sd_window_size s - L)) (length W - (B + L))"
    have k: "0 < k" "L + k \<le> sd_window_size s" "B + L + k \<le> length W" using 3 by (auto simp: k_def min_def)
    obtain rep where r: "evs = [EvPushData (u16 (cb_begin (sd_buffer s))) \<lparr>dm_reset = sd_init_state s, dm_repeat_count = rep,
        dm_delta_offset = u16 L, dm_data = take k (drop (B + L) W)\<rparr> (ri_make (sd_M s) (s0 + (B + L + k - 1)))]"
      "sd_rel W s0 B (L + k) sd" "sd_M sd = sd_M s" "sd_window_size sd = sd_window_size s"
      using sd_SendChunk_next [OF rel', of now sd evs k] 3 run by (auto simp: sd_run_send_def k_def)
    have "u16 (cb_begin (sd_buffer s)) = ri_make (sd_M s) (s0 + B)" "u16 L = L"
      unfolding D(4) using D(9) M w less_le_trans [OF ri_make_less [OF D(3), of "s0 + B"] M] by simp_all
    moreover have "sd_init_state s \<Longrightarrow> B = 0" using rel by (simp add: sd_rel_def)
    ultimately have "\<forall>pk \<in> set (packets_of B evs). packet_ok (sd_M s) (sd_window_size s) s0 W B pk"
      using r(1) k by (auto simp: packet_ok_def intro!: exI [of _ B])
    then show ?thesis using r(2-4) by blast
  qed
qed

lemma lk_inv_deliver:
  assumes inv: "lk_inv s0 k" and pk: "(i, m, e, p) \<in> set (lk_net k)"
    and "length (lk_out k) + rv_window_size (lk_receiver k) < p + rv_M (lk_receiver k)"
  shows "lk_inv s0 (k\<lparr>lk_receiver := rv_PushData (lk_receiver k) i m\<rparr>)"
proof -
  let ?r = "lk_receiver k"
  have "genuine_packet (lk_written k) s0 (length (lk_out k)) ?r i m p"
    using inv pk assms(3) by (intro packet_genuine [of _ _ _ "lk_acked k" i m e p]) (auto simp: lk_inv_def)
  moreover have ok: "rv_ok (lk_written k) s0 (length (lk_out k)) ?r" using inv by (simp add: lk_inv_def)
  ultimately have rel: "rv_rel (lk_written k) s0 (length (lk_out k)) (rv_PushData ?r i m)"
    by (intro rv_PushData_rel)
  then have "rv_ok (lk_written k) s0 (length (lk_out k)) (rv_PushData ?r i m)"
    by (auto simp: rv_ok_def rv_rel_def split: option.splits)
  moreover have "rv_M (rv_PushData ?r i m) = rv_M ?r" "rv_window_size (rv_PushData ?r i m) = rv_window_size ?r"
    using rv_PushData_shape by blast+
  ultimately show ?thesis using inv by (simp add: lk_inv_def lk_acked_def)
qed

lemma lk_inv_receiver:
  assumes inv: "lk_inv s0 k" and inp: "inp \<in> {RvRunRecv, RvRunAck, RvRunMissing}"
    and step: "rv_step (lk_receiver k) inp = (rv, evs)"
  shows "lk_inv s0 (k\<lparr>lk_receiver := rv, lk_out := lk_out k @ received_bytes evs\<rparr>)"
proof -
  let ?n = "length (lk_out k)" and ?W = "lk_written k"
  have ok: "rv_ok ?W s0 ?n (lk_receiver k)" and out: "lk_out k = take ?n ?W" using inv by (auto simp: lk_inv_def)
  have r: "rv_ok ?W s0 (?n + length (received_bytes evs)) rv \<and>
      received_bytes evs = take (length (received_bytes evs)) (drop ?n ?W)"
    using inp step rv_run_recv_ok [OF ok, of rv evs] rv_run_ack_ok [OF ok, of rv evs]
      rv_run_missing_ok [OF ok, of rv evs] by auto
  define o' where "o' = lk_out k @ received_bytes evs"
  have len: "length o' = ?n + length (received_bytes evs)" by (simp add: o'_def)
  have "o' = take (?n + length (received_bytes evs)) ?W" using out r by (metis take_add o'_def)
  then have "o' = take (length o') ?W" by (rule take_own_length)
  moreover have "rv_ok ?W s0 (length o') rv" "?n \<le> length o'" using r unfolding len by simp_all
  ultimately show ?thesis
    using inv rv_step_shape [OF step] unfolding o'_def [symmetric] by (simp add: lk_inv_def lk_acked_def)
qed

lemma lk_inv_ack:
  assumes inv: "lk_inv s0 k" and a: "a < length (lk_out k)" "length (lk_written k) < a + sd_M (lk_sender k)"
    and off: "ri_make (sd_M (lk_sender k)) off = ri_make (sd_M (lk_sender k)) (s0 + a)"
      "ri_make (sd_M (lk_sender k)) off \<noteq> sd_last_sent (lk_sender k)"
  shows "lk_inv s0 (k\<lparr>lk_sender := fst (snd (sd_Acknowledge push now (lk_sender k) off))\<rparr>)"
proof -
  obtain L where rel: "sd_rel (lk_written k) s0 (lk_acked k) L (lk_sender k)" using inv by (auto simp: lk_inv_def)
  note D = sd_relD [OF rel]
  have n: "length (lk_out k) \<le> length (lk_written k)" using inv by (metis lk_inv_def nat_le_linear take_all)
  show ?thesis
  proof (cases "lk_acked k \<le> a")
    case True
    have L: "L \<noteq> a - lk_acked k" using off D(8) True by (auto simp: add.assoc)
    obtain sd evs L' where s: "sd_Acknowledge push now (lk_sender k) off = (True, sd, evs)"
      "sd_rel (lk_written k) s0 (a + 1) L' sd" "sd_M sd = sd_M (lk_sender k)"
      "sd_window_size sd = sd_window_size (lk_sender k)"
      using sd_Acknowledge_rel [OF rel True less_le_trans [OF a(1) n] a(2) L off(1), of push now] by blast
    then show ?thesis using lk_inv_sender_only [OF inv s(2) _ _ s(3,4)] True a(1) by simp
  next
    case False
    then have "sd_Acknowledge push now (lk_sender k) off = (False, lk_sender k, [])"
      using sd_Acknowledge_stale [OF rel _ a(2) off(1)] by simp
    then show ?thesis using inv by simp
  qed
qed

lemma lk_inv_status:
  assumes inv: "lk_inv s0 k" and pk: "(i, m, e, p) \<in> set (lk_net k)"
    and fresh: "lk_acked k + sd_window_size (lk_sender k) < p + length (dm_data m) - 1 + sd_M (lk_sender k)"
  shows "lk_inv s0 (k\<lparr>lk_sender := sd_WriteStatus (lk_sender k) e st\<rparr>)"
proof -
  obtain L where rel: "sd_rel (lk_written k) s0 (lk_acked k) L (lk_sender k)" using inv by (auto simp: lk_inv_def)
  have "packet_ok (sd_M (lk_sender k)) (sd_window_size (lk_sender k)) s0 (lk_written k) (lk_acked k) (i, m, e, p)"
    using inv pk by (auto simp: lk_inv_def)
  then have e: "e = ri_make (sd_M (lk_sender k)) (s0 + (p + length (dm_data m) - 1))"
    "p + length (dm_data m) - 1 < length (lk_written k)"
    by (cases "dm_data m"; auto simp: packet_ok_def)+
  obtain L' where "sd_rel (lk_written k) s0 (lk_acked k) L' (sd_WriteStatus (lk_sender k) e st)"
    using sd_WriteStatus_rel [OF rel e(2) fresh] e(1) by auto
  then show ?thesis using lk_inv_sender_only [OF inv, of "lk_acked k" L'] inv by (simp add: lk_inv_def)
qed

lemma lk_inv_step:
  assumes "lk_step push s0 k k'" "lk_inv s0 k"
  shows "lk_inv s0 k'"
  using assms
proof cases
  case (lk_send now sd evs)
  obtain L where rel: "sd_rel (lk_written k) s0 (lk_acked k) L (lk_sender k)" using assms by (auto simp: lk_inv_def)
  have "sd_M (lk_sender k) \<le> 65536" using assms by (simp add: lk_inv_def)
  from sd_run_send_rel [OF rel lk_send(2,3) this] obtain L' where L': "sd_rel (lk_written k) s0 (lk_acked k) L' sd"
    "sd_M sd = sd_M (lk_sender k)" "sd_window_size sd = sd_window_size (lk_sender k)"
    "\<forall>pk \<in> set (packets_of (lk_acked k) evs). packet_ok (sd_M sd) (sd_window_size sd) s0 (lk_written k) (lk_acked k) pk"
    by auto
  then show ?thesis
    using lk_inv_sender [OF assms(2) L'(1) _ _ L'(2,3,4)] assms(2) lk_send(1) by (simp add: lk_inv_def)
next
  case lk_repeat
  obtain L where "sd_rel (lk_written k) s0 (lk_acked k) L (lk_sender k)" using assms by (auto simp: lk_inv_def)
  then obtain L' where "sd_rel (lk_written k) s0 (lk_acked k) L' (sd_run_repeat (lk_sender k))"
    using sd_run_repeat_rel by blast
  then show ?thesis
    using lk_inv_sender_only [OF assms(2), of "lk_acked k" L'] assms(2) lk_repeat by (simp add: lk_inv_def)
next
  case (lk_payload n)
  obtain L where "sd_rel (lk_written k) s0 (lk_acked k) L (sd_SetMaxPayload (lk_sender k) n)"
    using assms by (auto simp: lk_inv_def sd_SetMaxPayload_def)
  then show ?thesis
    using lk_inv_sender_only [OF assms(2), of "lk_acked k" L] assms(2) lk_payload by (simp add: lk_inv_def)
next
  case (lk_request q off)
  obtain L where "sd_rel (lk_written k) s0 (lk_acked k) L (lk_sender k)" using assms by (auto simp: lk_inv_def)
  then obtain L' where "sd_rel (lk_written k) s0 (lk_acked k) L' (sd_RequestRepeat (lk_sender k) off)"
    using sd_RequestRepeat_rel lk_request by blast
  then show ?thesis
    using lk_inv_sender_only [OF assms(2), of "lk_acked k" L'] assms(2) lk_request(1) by (simp add: lk_inv_def)
qed (auto intro: lk_inv_write lk_inv_deliver lk_inv_receiver lk_inv_ack lk_inv_status)

lemma lk_inv_init:
  assumes "ring_max_ok (length mem_s)" "length mem_r = length mem_s" "length mem_s \<le> 65536"
    and "window_ok (length mem_s) (cfg_window_size config)" "0 < cfg_window_size config"
  shows "lk_inv (RandomOffset rnd mod length mem_s) (lk_init push mem_s mem_r rnd config)"
proof -
  have "sd_rel [] (RandomOffset rnd mod length mem_s) 0 0 (sd_make push mem_s rnd config)"
    using sd_rel_make assms by blast
  moreover have "rv_ok [] s0 0 (rv_make mem_r config)" for s0
    using assms by (intro rv_ok_make) simp_all
  moreover have "0 < length mem_s" using ring_max_okD(1) [OF assms(1)] .
  ultimately show ?thesis
    using assms by (auto simp: lk_inv_def lk_init_def lk_acked_def sd_make_def rv_make_def cb_make_def Let_def)
qed


subsection \<open>Properties\<close>


text \<open>A run: the payload size is set, five bytes are written, the first packet is sent and delivered, and
  the receive task runs.\<close>

lemma test_sender_run: "sd_run_send test_sender_1 7 = (test_sender_2, [EvPushData 9
    \<lparr>dm_reset = True, dm_repeat_count = 0, dm_delta_offset = 0, dm_data = [1, 2, 3]\<rparr> 1])"
  by code_simp

lemma lk_example:
  defines "mem \<equiv> [0, 0, 0, 0, 0, 0, 0, 0, 0, 0] :: byte list"
  shows "\<exists>k. (lk_step (push_last 100) (RandomOffset 9 mod length mem))\<^sup>*\<^sup>* (lk_init (push_last 100) mem mem 9 test_send_config) k \<and>
    lk_written k = [1, 2, 3, 4, 5] \<and> lk_net k \<noteq> [] \<and> rv_chunks (lk_receiver k) \<noteq> None"
proof -
  let ?st = "lk_step (push_last 100) (RandomOffset 9 mod length mem)" and ?i = "lk_init (push_last 100) mem mem 9 test_send_config"
  let ?m = "\<lparr>dm_reset = True, dm_repeat_count = 0, dm_delta_offset = 0, dm_data = [1, 2, 3 :: byte]\<rparr>"
  let ?r = "rv_make mem test_send_config"
  define k1 where "k1 = \<lparr>lk_sender = test_sender, lk_receiver = ?r, lk_net = [], lk_written = [], lk_out = []\<rparr>"
  define k2 where "k2 = k1\<lparr>lk_sender := test_sender_1, lk_written := [1, 2, 3, 4, 5]\<rparr>"
  define k3 where "k3 = k2\<lparr>lk_sender := test_sender_2, lk_net := [(9, ?m, 1, 0)]\<rparr>"
  define k4 where "k4 = k3\<lparr>lk_receiver := rv_PushData ?r 9 ?m\<rparr>"
  have "?st ?i k1"
    using lk_step.lk_payload [of "push_last 100" "RandomOffset 9 mod length mem" ?i 3]
    by (simp add: k1_def lk_init_def test_sender_def mem_def)
  moreover have "?st k1 k2"
    using lk_step.lk_write [of k1 "[1, 2, 3, 4, 5]" "push_last 100" "RandomOffset 9 mod length mem"]
      sd_relD(7) [OF test_sender_rel]
    by (simp add: k1_def k2_def test_sender_0_eq test_sender_fields)
  moreover have "lk_acked k2 = 0" using lk_acked_rel [OF test_sender_1_rel] by (simp add: lk_acked_def k2_def)
  then have "?st k2 k3"
    using lk_step.lk_send [of k2 7 test_sender_2 _ "push_last 100" "RandomOffset 9 mod length mem"]
    by (simp add: k1_def k2_def k3_def test_sender_run is_failure_def)
  moreover have "?st k3 k4"
    using lk_step.lk_deliver [of 9 ?m 1 0 k3 "push_last 100" "RandomOffset 9 mod length mem"]
    by (simp add: k1_def k2_def k3_def k4_def rv_make_def mem_def cb_make_def test_send_config_def)
  ultimately have "?st\<^sup>*\<^sup>* ?i k4" by (meson converse_rtranclp_into_rtranclp rtranclp.rtrancl_refl)
  moreover have "rv_chunks (rv_PushData ?r 9 ?m) \<noteq> None"
    by (auto simp: rv_PushData_def Let_def rv_make_def rv_HandleData_def rv_Enqueue_defs split: prod.splits ChunkAddResult.splits)
  ultimately show ?thesis by (intro exI [of _ k4]) (simp add: k1_def k2_def k3_def k4_def)
qed


lemma kSendOverhead_eq: "kSendOverhead = 8"
  by (simp add: kSendOverhead_def)

text \<open>The payload size the stream below allows is reduced by the header of a packet in unsigned
  arithmetic: for a recommended size between one and seven bytes the sender's payload size wraps around
  to almost \<open>2 ^ 64\<close> instead of becoming zero.\<close>

theorem stream_update_payload_wraps:
  assumes "0 < si_rec_element_size info" "si_rec_element_size info < size_mod"
  shows "sd_max_payload_size (ss_sender (fst (ss_OnStreamUpdate st info))) =
    (if 8 \<le> si_rec_element_size info then si_rec_element_size info - 8
     else size_mod - (8 - si_rec_element_size info))"
  using assms sz_sub_wraps [of "si_rec_element_size info" 8]
  by (auto simp: ss_OnStreamUpdate_def kSendOverhead_eq sd_SetMaxPayload_def sd_EnqueueSend_def size_simps)

theorem stream_update_payload_wraps_witness:
  "sd_max_payload_size (ss_sender (fst (ss_OnStreamUpdate (ss_make (push_last 100) [0] [0] 0 test_config)
     \<lparr>si_rec_element_size = 5, si_max_element_size = 5, si_is_reliable = False, si_link_state = kLinked,
      si_is_writable = True\<rparr>))) = 18446744073709551613"
  using stream_update_payload_wraps [of "\<lparr>si_rec_element_size = 5, si_max_element_size = 5,
      si_is_reliable = False, si_link_state = kLinked, si_is_writable = True\<rparr>"] by simp



end
