(* ===== verification/Mstream.thy ===== *)
theory Mstream
  imports Aether_Prelude
begin

text \<open>
  \<^verbatim>\<open>aether/mstream.h\<close> and \<^verbatim>\<open>aether/mstream_buffers.h\<close>: the binary format of everything the client
  stores and sends.

  An \<^verbatim>\<open>operator<<\<close> is a function from the value to the list of the \<^verbatim>\<open>write\<close> calls it makes, so that the
  unlimited and the limited writer are two folds over the same list.  An \<^verbatim>\<open>operator>>\<close> takes the reader
  and the old content of the destination and returns both, because a read that fails leaves the
  destination as it was.  A local variable the source leaves uninitialised is an argument \<open>junk\<close> where its
  value can be seen.  The type \<^verbatim>\<open>size_type\<close> of a buffer is a template argument, hence a pair of an encoder and a
  decoder of numbers here.  Numbers are little endian, as on every supported target.

  The locale \<open>codec\<close> is the contract of a pair of operators; it is shown for every type of the file from the
  contracts of the element types.
\<close>

subsection \<open>Buffers\<close>

datatype ReadResult = kNo | kYes

record reader =
  rd_data :: "byte list"
  rd_offset :: nat
  rd_result :: ReadResult

type_synonym 'a encoder = "'a \<Rightarrow> byte list list"
type_synonym 'a decoder = "reader \<Rightarrow> 'a \<Rightarrow> reader \<times> 'a"

definition vr_make :: "byte list \<Rightarrow> reader" where
  "vr_make data = \<lparr>rd_data = data, rd_offset = 0, rd_result = kNo\<rparr>"

text \<open>\<^verbatim>\<open>VectorReader::read\<close>: \<open>None\<close> when nothing is copied to the destination.\<close>

definition vr_read :: "reader \<Rightarrow> nat \<Rightarrow> reader \<times> byte list option" where
  "vr_read s n =
     (if length (rd_data s) < sz_add (rd_offset s) n then (s\<lparr>rd_result := kNo\<rparr>, None)
      else (s\<lparr>rd_offset := sz_add (rd_offset s) n, rd_result := kYes\<rparr>,
            Some (take n (drop (rd_offset s) (rd_data s)))))"

definition data_was_read :: "reader \<Rightarrow> bool" where
  "data_was_read s \<longleftrightarrow> rd_result s = kYes"

definition vw_write :: "byte list \<Rightarrow> byte list \<Rightarrow> byte list" where
  "vw_write data chunk = data @ chunk"

record limit_writer =
  lw_buffer :: "byte list"
  lw_limit :: nat
  lw_end :: bool

definition lw_make :: "byte list \<Rightarrow> nat \<Rightarrow> limit_writer" where
  "lw_make buffer l = \<lparr>lw_buffer = buffer, lw_limit = l, lw_end = False\<rparr>"

definition lw_write :: "limit_writer \<Rightarrow> byte list \<Rightarrow> limit_writer \<times> nat" where
  "lw_write w chunk =
     (if lw_end w \<or> lw_limit w \<le> length (lw_buffer w) + length chunk then (w\<lparr>lw_end := True\<rparr>, 0)
      else (w\<lparr>lw_buffer := lw_buffer w @ chunk\<rparr>, length chunk))"

text \<open>The bytes a value becomes in a \<^verbatim>\<open>VectorWriter\<close>, and its writes into a limited one.\<close>

definition vw_all :: "byte list \<Rightarrow> byte list list \<Rightarrow> byte list" where
  "vw_all data ws = foldl vw_write data ws"

definition lw_all :: "limit_writer \<Rightarrow> byte list list \<Rightarrow> limit_writer" where
  "lw_all w ws = foldl (\<lambda>w c. fst (lw_write w c)) w ws"


subsection \<open>Scalars\<close>

primrec le_bytes :: "nat \<Rightarrow> nat \<Rightarrow> byte list" where
  "le_bytes 0 v = []"
| "le_bytes (Suc w) v = of_nat v # le_bytes w (v div 256)"

primrec le_nat :: "byte list \<Rightarrow> nat" where
  "le_nat [] = 0"
| "le_nat (b # bs) = unat b + 256 * le_nat bs"

definition enc_arith :: "nat \<Rightarrow> nat encoder" where
  "enc_arith w v = [le_bytes w v]"

definition dec_arith :: "nat \<Rightarrow> nat decoder" where
  "dec_arith w s old = (case vr_read s w of (s', None) \<Rightarrow> (s', old) | (s', Some bs) \<Rightarrow> (s', le_nat bs))"

text \<open>An enumeration is written as its underlying type; \<open>rep\<close> and \<open>cast\<close> are the two casts.\<close>

definition enc_enum :: "nat \<Rightarrow> ('e \<Rightarrow> nat) \<Rightarrow> 'e encoder" where
  "enc_enum w rep v = enc_arith w (rep v)"

definition dec_enum :: "nat \<Rightarrow> (nat \<Rightarrow> 'e) \<Rightarrow> nat \<Rightarrow> 'e decoder" where
  "dec_enum w cast junk s old =
     (case dec_arith w s junk of (s', t) \<Rightarrow> (s', if data_was_read s' then cast t else old))"

definition enc_bool :: "bool encoder" where
  "enc_bool v = (if v then [[1]] else [[0]])"

definition dec_bool :: "byte \<Rightarrow> bool decoder" where
  "dec_bool junk s old =
     (case vr_read s 1 of (s', None) \<Rightarrow> (s', junk = 1) | (s', Some bs) \<Rightarrow> (s', hd bs = 1))"

text \<open>Durations have ticks of \<open>p\<close> microseconds, time points have \<open>q\<close> ticks in a microsecond;
  \<^verbatim>\<open>duration_cast\<close> truncates towards zero.\<close>

definition enc_duration :: "int \<Rightarrow> int encoder" where
  "enc_duration p v = enc_arith 4 (nat ((v * p) mod 2 ^ 32))"

definition dec_duration :: "int \<Rightarrow> nat \<Rightarrow> int decoder" where
  "dec_duration p junk s old = (case dec_arith 4 s junk of (s', temp) \<Rightarrow> (s', int temp div p))"

definition enc_time_point :: "int \<Rightarrow> int encoder" where
  "enc_time_point q t = enc_arith 8 (nat ((sgn t * (\<bar>t\<bar> div q)) mod 2 ^ 64))"

definition dec_time_point :: "int \<Rightarrow> nat \<Rightarrow> int decoder" where
  "dec_time_point q junk s old =
     (case dec_arith 8 s junk of (s', tp) \<Rightarrow> (s', if data_was_read s' then int tp * q else old))"


subsection \<open>Sequences\<close>

definition resize :: "'a \<Rightarrow> nat \<Rightarrow> 'a list \<Rightarrow> 'a list" where
  "resize d n xs = take n xs @ replicate (n - length xs) d"

definition enc_string :: "nat encoder \<Rightarrow> byte list encoder" where
  "enc_string esz t = esz (length t) @ [t]"

definition dec_string :: "nat decoder \<Rightarrow> byte list decoder" where
  "dec_string dsz s old =
     (case dsz s 0 of (s1, sz) \<Rightarrow>
        if data_was_read s1
        then (case vr_read s1 sz of
                (s2, None) \<Rightarrow> (s2, resize 0 sz old)
              | (s2, Some bs) \<Rightarrow> (s2, bs))
        else (s1, old))"

definition enc_string_view :: "nat encoder \<Rightarrow> byte list encoder" where
  "enc_string_view esz t = esz (length t) @ [t]"

text \<open>\<^verbatim>\<open>operator<<\<close> of \<^verbatim>\<open>char const*\<close>: the text up to its terminator.\<close>

definition enc_cstr :: "nat encoder \<Rightarrow> byte list encoder" where
  "enc_cstr esz t = (let str = takeWhile (\<lambda>c. c \<noteq> 0) t in esz (length str) @ [str])"

text \<open>Scalars of width \<open>w\<close> in one block of memory.\<close>

definition scalars_of :: "nat \<Rightarrow> nat \<Rightarrow> byte list \<Rightarrow> nat list" where
  "scalars_of w n bs = map (\<lambda>i. le_nat (take w (drop (i * w) bs))) [0..<n]"

definition enc_scalars :: "nat \<Rightarrow> nat list encoder" where
  "enc_scalars w t = [concat (map (le_bytes w) t)]"

definition dec_scalars :: "nat \<Rightarrow> nat list decoder" where
  "dec_scalars w s t =
     (case vr_read s (length t * w) of
        (s', None) \<Rightarrow> (s', t)
      | (s', Some bs) \<Rightarrow> (s', scalars_of w (length t) bs))"

definition enc_vector_scalar :: "nat encoder \<Rightarrow> nat \<Rightarrow> nat list encoder" where
  "enc_vector_scalar esz w t = esz (length t) @ enc_scalars w t"

definition dec_vector_scalar :: "nat decoder \<Rightarrow> nat \<Rightarrow> nat list decoder" where
  "dec_vector_scalar dsz w s old =
     (case dsz s 0 of (s1, sz) \<Rightarrow>
        if data_was_read s1 then dec_scalars w s1 (resize 0 sz old) else (s1, old))"

definition enc_elems :: "'a encoder \<Rightarrow> 'a list encoder" where
  "enc_elems enc t = concat (map enc t)"

fun dec_elems :: "'a decoder \<Rightarrow> 'a list decoder" where
  "dec_elems dec s [] = (s, [])"
| "dec_elems dec s (v # vs) =
     (case dec s v of (s1, v1) \<Rightarrow>
        if data_was_read s1 then (case dec_elems dec s1 vs of (s2, vs2) \<Rightarrow> (s2, v1 # vs2))
        else (s1, v1 # vs))"

text \<open>The same operators on a C array and on \<^verbatim>\<open>std::array\<close>, of scalars and of other types.\<close>

definition enc_carray_scalar :: "nat \<Rightarrow> nat list encoder" where
  "enc_carray_scalar = enc_scalars"

definition dec_carray_scalar :: "nat \<Rightarrow> nat list decoder" where
  "dec_carray_scalar = dec_scalars"

definition enc_array_scalar :: "nat \<Rightarrow> nat list encoder" where
  "enc_array_scalar = enc_scalars"

definition dec_array_scalar :: "nat \<Rightarrow> nat list decoder" where
  "dec_array_scalar = dec_scalars"

definition enc_array :: "'a encoder \<Rightarrow> 'a list encoder" where
  "enc_array = enc_elems"

definition dec_array :: "'a decoder \<Rightarrow> 'a list decoder" where
  "dec_array = dec_elems"

text \<open>Vectors of other types; \<open>d\<close> is the value of a new element.\<close>

definition enc_vector :: "nat encoder \<Rightarrow> 'a encoder \<Rightarrow> 'a list encoder" where
  "enc_vector esz enc t = esz (length t) @ enc_elems enc t"

definition dec_vector :: "nat decoder \<Rightarrow> 'a decoder \<Rightarrow> 'a \<Rightarrow> 'a list decoder" where
  "dec_vector dsz dec d s old =
     (case dsz s 0 of (s1, sz) \<Rightarrow>
        if \<not> data_was_read s1 then (s1, old) else dec_elems dec s1 (resize d sz old))"

definition enc_deque :: "nat encoder \<Rightarrow> 'a encoder \<Rightarrow> 'a list encoder" where
  "enc_deque esz enc t = esz (length t) @ enc_elems enc t"

definition dec_deque :: "nat decoder \<Rightarrow> 'a decoder \<Rightarrow> 'a \<Rightarrow> 'a list decoder" where
  "dec_deque dsz dec d s old =
     (case dsz s 0 of (s1, sz) \<Rightarrow>
        if \<not> data_was_read s1 then (s1, old) else dec_elems dec s1 (resize d sz old))"

text \<open>A \<^verbatim>\<open>std::list\<close> is cleared and filled.\<close>

definition enc_list :: "nat encoder \<Rightarrow> 'a encoder \<Rightarrow> 'a list encoder" where
  "enc_list esz enc t = esz (length t) @ enc_elems enc t"

primrec dec_list_loop :: "'a decoder \<Rightarrow> 'a \<Rightarrow> nat \<Rightarrow> 'a list decoder" where
  "dec_list_loop dec d 0 s t = (s, t)"
| "dec_list_loop dec d (Suc n) s t =
     (case dec s d of (s1, v) \<Rightarrow>
        if \<not> data_was_read s1 then (s1, t) else dec_list_loop dec d n s1 (t @ [v]))"

definition dec_list :: "nat decoder \<Rightarrow> 'a decoder \<Rightarrow> 'a \<Rightarrow> 'a list decoder" where
  "dec_list dsz dec d s old =
     (case dsz s 0 of (s1, sz) \<Rightarrow>
        if \<not> data_was_read s1 then (s1, old) else dec_list_loop dec d sz s1 [])"

definition enc_pair :: "'a encoder \<Rightarrow> 'b encoder \<Rightarrow> ('a \<times> 'b) encoder" where
  "enc_pair e1 e2 p = e1 (fst p) @ e2 (snd p)"

definition dec_pair :: "'a decoder \<Rightarrow> 'b decoder \<Rightarrow> ('a \<times> 'b) decoder" where
  "dec_pair d1 d2 s old =
     (case d1 s (fst old) of (s1, a) \<Rightarrow> case d2 s1 (snd old) of (s2, b) \<Rightarrow> (s2, (a, b)))"

text \<open>A map is written as its entries in the order of iteration and read with \<^verbatim>\<open>emplace\<close>, which keeps the
  first value of a key.\<close>

definition emplace :: "('k \<rightharpoonup> 'v) \<Rightarrow> 'k \<times> 'v \<Rightarrow> ('k \<rightharpoonup> 'v)" where
  "emplace m kv = (if m (fst kv) = None then m(fst kv \<mapsto> snd kv) else m)"

definition enc_map :: "nat encoder \<Rightarrow> ('k \<times> 'v) encoder \<Rightarrow> ('k \<times> 'v) list encoder" where
  "enc_map esz ekv entries = esz (length entries) @ enc_elems ekv entries"

primrec dec_map_loop :: "('k \<times> 'v) decoder \<Rightarrow> ('k \<times> 'v) \<Rightarrow> nat \<Rightarrow> ('k \<rightharpoonup> 'v) decoder" where
  "dec_map_loop dkv d 0 s m = (s, m)"
| "dec_map_loop dkv d (Suc n) s m =
     (case dkv s d of (s1, kv) \<Rightarrow>
        if \<not> data_was_read s1 then (s1, m) else dec_map_loop dkv d n s1 (emplace m kv))"

definition dec_map :: "nat decoder \<Rightarrow> ('k \<times> 'v) decoder \<Rightarrow> ('k \<times> 'v) \<Rightarrow> ('k \<rightharpoonup> 'v) decoder" where
  "dec_map dsz dkv d s old =
     (case dsz s 0 of (s1, sz) \<Rightarrow>
        if \<not> data_was_read s1 then (s1, old) else dec_map_loop dkv d sz s1 (\<lambda>_. None))"

text \<open>An unordered map differs in the order of iteration only.\<close>

definition enc_unordered_map :: "nat encoder \<Rightarrow> ('k \<times> 'v) encoder \<Rightarrow> ('k \<times> 'v) list encoder" where
  "enc_unordered_map esz ekv entries = esz (length entries) @ enc_elems ekv entries"

definition dec_unordered_map :: "nat decoder \<Rightarrow> ('k \<times> 'v) decoder \<Rightarrow> ('k \<times> 'v) \<Rightarrow> ('k \<rightharpoonup> 'v) decoder" where
  "dec_unordered_map dsz dkv d s old =
     (case dsz s 0 of (s1, sz) \<Rightarrow>
        if \<not> data_was_read s1 then (s1, old) else dec_map_loop dkv d sz s1 (\<lambda>_. None))"


subsection \<open>Optional values, variants, pointers and structures\<close>

definition enc_optional :: "'a encoder \<Rightarrow> 'a option encoder" where
  "enc_optional enc v = (case v of Some x \<Rightarrow> enc_bool True @ enc x | None \<Rightarrow> enc_bool False)"

definition dec_optional :: "byte \<Rightarrow> 'a decoder \<Rightarrow> 'a \<Rightarrow> 'a option decoder" where
  "dec_optional junk dec d s old =
     (case dec_bool junk s False of (s1, has_value) \<Rightarrow>
        if \<not> data_was_read s1 then (s1, old)
        else if has_value
          then (case dec s1 d of (s2, temp) \<Rightarrow> (s2, if data_was_read s2 then Some temp else old))
          else (s1, old))"

text \<open>Smart pointers; \<open>None\<close> is null.\<close>

definition enc_unique_ptr :: "'a encoder \<Rightarrow> 'a option encoder" where
  "enc_unique_ptr enc v = (case v of Some x \<Rightarrow> enc_bool True @ enc x | None \<Rightarrow> enc_bool False)"

definition dec_unique_ptr :: "byte \<Rightarrow> 'a decoder \<Rightarrow> 'a \<Rightarrow> 'a option decoder" where
  "dec_unique_ptr junk dec d s old =
     (case dec_bool junk s False of (s1, has_value) \<Rightarrow>
        if \<not> data_was_read s1 then (s1, old)
        else if has_value
          then (case dec s1 d of (s2, temp) \<Rightarrow> (s2, if data_was_read s2 then Some temp else old))
          else (s1, old))"

definition enc_shared_ptr :: "'a encoder \<Rightarrow> 'a option encoder" where
  "enc_shared_ptr enc v = (case v of Some x \<Rightarrow> enc_bool True @ enc x | None \<Rightarrow> enc_bool False)"

definition dec_shared_ptr :: "byte \<Rightarrow> 'a decoder \<Rightarrow> 'a \<Rightarrow> 'a option decoder" where
  "dec_shared_ptr junk dec d s old =
     (case dec_bool junk s False of (s1, has_value) \<Rightarrow>
        if \<not> data_was_read s1 then (s1, old)
        else if has_value
          then (case dec s1 d of (s2, temp) \<Rightarrow> (s2, if data_was_read s2 then Some temp else old))
          else (s1, old))"

text \<open>A plain pointer writes and reads its target when it is not null.\<close>

definition enc_ptr :: "'a encoder \<Rightarrow> 'a option encoder" where
  "enc_ptr enc v = (case v of Some x \<Rightarrow> enc x | None \<Rightarrow> [])"

definition dec_ptr :: "'a decoder \<Rightarrow> 'a option decoder" where
  "dec_ptr dec s v =
     (case v of Some x \<Rightarrow> (case dec s x of (s1, y) \<Rightarrow> (s1, Some y)) | None \<Rightarrow> (s, None))"

text \<open>A variant holds the index of its alternative and a value; \<open>None\<close> is valueless.  The alternatives are
  given by their operators and the value of a new one.\<close>

definition enc_variant :: "'a encoder list \<Rightarrow> (nat \<times> 'a) option encoder" where
  "enc_variant encs v =
     (case v of None \<Rightarrow> enc_arith 1 255
      | Some (i, x) \<Rightarrow> enc_arith 1 (u8 i) @ (encs ! i) x)"

definition dec_variant :: "('a decoder \<times> 'a) list \<Rightarrow> (nat \<times> 'a) option decoder" where
  "dec_variant alts s old =
     (case dec_arith 1 s 0 of (s1, tag) \<Rightarrow>
        if \<not> data_was_read s1 then (s1, old)
        else if tag = 255 then (s1, old)
        else if length alts \<le> tag then (s1\<lparr>rd_result := kNo\<rparr>, old)
        else (case fst (alts ! tag) s1 (snd (alts ! tag)) of (s2, x) \<Rightarrow>
               (if data_was_read s2 then s2 else s2\<lparr>rd_result := kNo\<rparr>, Some (tag, x))))"

text \<open>A reflected structure: its fields in order, with no check between them.\<close>

definition enc_struct :: "'f encoder list \<Rightarrow> 'f list encoder" where
  "enc_struct encs t = concat (map2 (\<lambda>e v. e v) encs t)"

fun dec_struct :: "'f decoder list \<Rightarrow> 'f list decoder" where
  "dec_struct (d # ds) s (v # vs) =
     (case d s v of (s1, v1) \<Rightarrow> case dec_struct ds s1 vs of (s2, vs2) \<Rightarrow> (s2, v1 # vs2))"
| "dec_struct _ s vs = (s, vs)"


subsection \<open>The contract of a pair of operators\<close>

text \<open>The bytes of an encoded value, the bytes that come next in a reader, and the reader behind them.\<close>

abbreviation bytes_of :: "byte list list \<Rightarrow> byte list" where
  "bytes_of \<equiv> concat"

definition rd_at :: "reader \<Rightarrow> byte list \<Rightarrow> bool" where
  "rd_at s bs \<longleftrightarrow> length (rd_data s) < size_mod \<and> rd_offset s \<le> length (rd_data s) \<and>
     take (length bs) (drop (rd_offset s) (rd_data s)) = bs"

definition rd_skip :: "reader \<Rightarrow> nat \<Rightarrow> reader" where
  "rd_skip s n = s\<lparr>rd_offset := rd_offset s + n, rd_result := kYes\<rparr>"

lemma vw_all_eq: "vw_all data ws = data @ bytes_of ws"
  by (induction ws arbitrary: data) (simp_all add: vw_all_def vw_write_def)

lemma take_append_iff:
  "take (length a + length b) xs = a @ b \<longleftrightarrow> take (length a) xs = a \<and> take (length b) (drop (length a) xs) = b"
proof
  assume eq: "take (length a + length b) xs = a @ b"
  show "take (length a) xs = a \<and> take (length b) (drop (length a) xs) = b"
    using arg_cong [OF eq, of "take (length a)"] arg_cong [OF eq, of "drop (length a)"]
    by (simp add: drop_take)
qed (simp add: take_add)

lemma rd_at_length:
  assumes "rd_at s bs"
  shows "rd_offset s + length bs \<le> length (rd_data s)"
proof -
  have "length (take (length bs) (drop (rd_offset s) (rd_data s))) = length bs"
    using assms by (simp only: rd_at_def)
  moreover have "rd_offset s \<le> length (rd_data s)" using assms by (simp add: rd_at_def)
  ultimately show ?thesis by simp
qed

lemma rd_at_append:
  "rd_at s (a @ b) \<longleftrightarrow> rd_at s a \<and> rd_at (rd_skip s (length a)) b"
  using rd_at_length [of s a]
  by (auto simp: rd_at_def rd_skip_def take_append_iff add.commute)

lemma rd_skip_simps [simp]:
  "rd_skip (rd_skip s m) n = rd_skip s (m + n)" "data_was_read (rd_skip s n)"
  by (simp_all add: rd_skip_def data_was_read_def)

lemma vr_read_at: "rd_at s bs \<Longrightarrow> vr_read s (length bs) = (rd_skip s (length bs), Some bs)"
  using rd_at_length [of s bs] by (simp add: vr_read_def rd_at_def rd_skip_def size_simps)

lemma rd_at_make: "length bs + length post < size_mod \<Longrightarrow> rd_at (vr_make (bs @ post)) bs"
  by (simp add: rd_at_def vr_make_def)

text \<open>A decoder keeps the data and never moves the position beyond the end.\<close>

definition rd_step :: "reader \<Rightarrow> reader \<Rightarrow> bool" where
  "rd_step s s' \<longleftrightarrow> rd_data s' = rd_data s \<and>
     (rd_offset s \<le> length (rd_data s) \<longrightarrow> rd_offset s' \<le> length (rd_data s))"

lemma rd_step_refl [simp]: "rd_step s s" "rd_step s (s\<lparr>rd_result := r\<rparr>)"
  by (simp_all add: rd_step_def)

lemma rd_step_trans: "rd_step s1 s2 \<Longrightarrow> rd_step s2 s3 \<Longrightarrow> rd_step s1 s3"
  by (auto simp: rd_step_def)

locale decoder =
  fixes dec :: "reader \<Rightarrow> 'a \<Rightarrow> reader \<times> 'a"
  assumes dec_step: "dec s old = (s', v) \<Longrightarrow> rd_step s s'"

locale codec = decoder dec
  for dec :: "reader \<Rightarrow> 'a \<Rightarrow> reader \<times> 'a" +
  fixes enc :: "'a \<Rightarrow> byte list list" and ok :: "'a \<Rightarrow> bool" and dst :: "'a \<Rightarrow> bool"
  assumes decode_encode: "ok v \<Longrightarrow> dst old \<Longrightarrow> rd_at s (bytes_of (enc v)) \<Longrightarrow>
    dec s old = (rd_skip s (length (bytes_of (enc v))), v)"
begin

text \<open>A value is read back from what a writer holds, whatever follows it.\<close>

lemma read_back:
  assumes "ok v" "dst old" "length (bytes_of (enc v)) + length post < size_mod"
  shows "dec (vr_make (vw_all [] (enc v) @ post)) old =
    (\<lparr>rd_data = vw_all [] (enc v) @ post, rd_offset = length (bytes_of (enc v)), rd_result = kYes\<rparr>, v)"
  using decode_encode [OF assms(1,2) rd_at_make [OF assms(3)]]
  by (simp add: vw_all_eq) (simp add: rd_skip_def vr_make_def)

text \<open>No encoding is a proper prefix of another one.\<close>

lemma prefix_free:
  assumes "ok v" "ok w" "dst old" "bytes_of (enc v) @ r = bytes_of (enc w) @ r'"
    and "length (bytes_of (enc v) @ r) < size_mod"
  shows "v = w \<and> r = r'"
proof -
  have "rd_at (vr_make (bytes_of (enc v) @ r)) (bytes_of (enc v))"
    using assms(5) by (intro rd_at_make) simp
  moreover have "rd_at (vr_make (bytes_of (enc v) @ r)) (bytes_of (enc w))"
    unfolding assms(4) using assms(5) unfolding assms(4) by (intro rd_at_make) simp
  ultimately have "v = w" using decode_encode [OF assms(1,3)] decode_encode [OF assms(2,3)] by force
  with assms(4) show ?thesis by simp
qed

end

lemmas codec_laws = codec.decode_encode decoder.dec_step [OF codec.axioms(1)]

lemma codecI:
  assumes "\<And>s old s' v. dec s old = (s', v) \<Longrightarrow> rd_step s s'"
    and "\<And>v old s. ok v \<Longrightarrow> dst old \<Longrightarrow> rd_at s (bytes_of (enc v)) \<Longrightarrow>
      dec s old = (rd_skip s (length (bytes_of (enc v))), v)"
  shows "codec dec enc ok dst"
  by unfold_locales (fact assms)+

lemma codec_decoder: "codec dec enc ok dst \<Longrightarrow> decoder dec"
  by (rule codec.axioms(1))

lemma codec_weaken:
  "codec dec enc ok dst \<Longrightarrow> (\<And>v. ok' v \<Longrightarrow> ok v) \<Longrightarrow> (\<And>v. dst' v \<Longrightarrow> dst v) \<Longrightarrow> codec dec enc ok' dst'"
  by (intro codecI) (auto dest: codec_laws)


subsection \<open>The operators meet the contract\<close>

lemma length_le_bytes [simp]: "length (le_bytes w v) = w"
  by (induction w arbitrary: v) simp_all

lemma le_bytes_numeral: "le_bytes (numeral k) v = of_nat v # le_bytes (pred_numeral k) (v div 256)"
  by (subst numeral_eq_Suc) (rule le_bytes.simps)

lemma le_nat_le_bytes: "le_nat (le_bytes w v) = v mod 256 ^ w"
proof (induction w arbitrary: v)
  case (Suc w)
  have "v mod 256 + 256 * (v div 256 mod 256 ^ w) = v mod (256 * 256 ^ w)"
    by (simp add: mod_mult2_eq)
  with Suc show ?case by (simp add: unat_of_nat)
qed simp

lemma vr_read_step: "vr_read s n = (s', r) \<Longrightarrow> rd_step s s'"
  by (auto simp: vr_read_def rd_step_def split: if_splits)

lemma dec_arith_at: "v < 256 ^ w \<Longrightarrow> rd_at s (le_bytes w v) \<Longrightarrow> dec_arith w s old = (rd_skip s w, v)"
  using vr_read_at [of s "le_bytes w v"] by (simp add: dec_arith_def le_nat_le_bytes)

lemma dec_arith_step: "dec_arith w s old = (s', v) \<Longrightarrow> rd_step s s'"
  by (auto simp: dec_arith_def split: prod.splits option.splits dest: vr_read_step)

lemma codec_arith: "codec (dec_arith w) (enc_arith w) (\<lambda>v. v < 256 ^ w) (\<lambda>_. True)"
  by (rule codecI) (auto simp: enc_arith_def dest: dec_arith_step intro: dec_arith_at)

lemma codec_enum:
  assumes "\<And>v. cast (rep v) = v" "\<And>v. rep v < 256 ^ w"
  shows "codec (dec_enum w cast junk) (enc_enum w rep) (\<lambda>_. True) (\<lambda>_. True)"
proof (rule codecI)
  show "dec_enum w cast junk s old = (s', v) \<Longrightarrow> rd_step s s'" for s old s' v
    by (auto simp: dec_enum_def split: prod.splits dest: dec_arith_step)
  show "dec_enum w cast junk s old = (rd_skip s (length (bytes_of (enc_enum w rep v))), v)"
    if "rd_at s (bytes_of (enc_enum w rep v))" for s old v
    using dec_arith_at [of "rep v" w s junk] that assms by (simp add: dec_enum_def enc_enum_def enc_arith_def)
qed

lemma dec_bool_at:
  "rd_at s [if v then 1 else 0] \<Longrightarrow> dec_bool junk s old = (rd_skip s 1, v)"
  using vr_read_at [of s "[if v then 1 else 0]"] by (simp add: dec_bool_def)

lemma dec_bool_step: "dec_bool junk s old = (s', v) \<Longrightarrow> rd_step s s'"
  by (auto simp: dec_bool_def split: prod.splits option.splits dest: vr_read_step)

lemma codec_bool: "codec (dec_bool junk) enc_bool (\<lambda>_. True) (\<lambda>_. True)"
proof (rule codecI)
  show "dec_bool junk s old = (rd_skip s (length (bytes_of (enc_bool v))), v)"
    if "rd_at s (bytes_of (enc_bool v))" for s old v
    using dec_bool_at [of s v] that by (auto simp: enc_bool_def)
qed (rule dec_bool_step)

lemma codec_duration:
  assumes "0 < p"
  shows "codec (dec_duration p junk) (enc_duration p) (\<lambda>v. 0 \<le> v \<and> v * p < 2 ^ 32) (\<lambda>_. True)"
proof (rule codecI)
  show "dec_duration p junk s old = (s', v) \<Longrightarrow> rd_step s s'" for s old s' v
    by (auto simp: dec_duration_def split: prod.splits dest: dec_arith_step)
  show "dec_duration p junk s old = (rd_skip s (length (bytes_of (enc_duration p v))), v)"
    if "0 \<le> v \<and> v * p < 2 ^ 32" "rd_at s (bytes_of (enc_duration p v))" for s old v
    using dec_arith_at [of "nat (v * p)" 4 s junk] that assms
    by (simp add: dec_duration_def enc_duration_def enc_arith_def nat_less_iff)
qed

lemma codec_time_point:
  assumes "0 < q"
  shows "codec (dec_time_point q junk) (enc_time_point q) (\<lambda>t. 0 \<le> t \<and> q dvd t \<and> t div q < 2 ^ 64) (\<lambda>_. True)"
proof (rule codecI)
  show "dec_time_point q junk s old = (s', v) \<Longrightarrow> rd_step s s'" for s old s' v
    by (auto simp: dec_time_point_def split: prod.splits dest: dec_arith_step)
  show "dec_time_point q junk s old = (rd_skip s (length (bytes_of (enc_time_point q t))), t)"
    if "0 \<le> t \<and> q dvd t \<and> t div q < 2 ^ 64" "rd_at s (bytes_of (enc_time_point q t))" for s old t
  proof -
    have [simp]: "sgn t * (t div q) = t div q" using that(1) by (cases "t = 0") simp_all
    have "0 \<le> t div q" using that(1) assms by (simp add: pos_imp_zdiv_nonneg_iff)
    then show ?thesis
      using dec_arith_at [of "nat (t div q)" 8 s junk] that assms
      by (simp add: dec_time_point_def enc_time_point_def enc_arith_def nat_less_iff)
  qed
qed

abbreviation size_codec :: "nat decoder \<Rightarrow> nat encoder \<Rightarrow> nat \<Rightarrow> bool" where
  "size_codec dsz esz lim \<equiv> codec dsz esz (\<lambda>n. n < lim) (\<lambda>_. True)"

lemma size_codec_at:
  "size_codec dsz esz lim \<Longrightarrow> n < lim \<Longrightarrow> rd_at s (bytes_of (esz n)) \<Longrightarrow>
    dsz s 0 = (rd_skip s (length (bytes_of (esz n))), n)"
  by (erule codec_laws(1)) auto

lemma codec_string:
  assumes sz: "size_codec dsz esz lim"
  shows "codec (dec_string dsz) (enc_string esz) (\<lambda>t. length t < lim) (\<lambda>_. True)"
proof (rule codecI)
  show "dec_string dsz s old = (s', v) \<Longrightarrow> rd_step s s'" for s old s' v
    by (auto simp: dec_string_def split: prod.splits option.splits if_splits
        dest!: vr_read_step codec_laws(2) [OF sz] intro: rd_step_trans)
  show "dec_string dsz s old = (rd_skip s (length (bytes_of (enc_string esz t))), t)"
    if "length t < lim" "rd_at s (bytes_of (enc_string esz t))" for s old t
    using size_codec_at [OF sz that(1), of s] that(2)
      vr_read_at [of "rd_skip s (length (bytes_of (esz (length t))))" t]
    by (simp add: dec_string_def enc_string_def rd_at_append)
qed

lemma scalars_of_bytes: "scalars_of w (length t) (concat (map (le_bytes w) t)) = map (\<lambda>v. v mod 256 ^ w) t"
proof -
  have "take w (drop (i * w) (concat (map (le_bytes w) t))) = le_bytes w (t ! i)" if "i < length t" for i
    using that
  proof (induction t arbitrary: i)
    case (Cons v t)
    then show ?case by (cases i) simp_all
  qed simp
  then show ?thesis by (intro nth_equalityI) (simp_all add: scalars_of_def le_nat_le_bytes)
qed

lemma length_scalars: "length (concat (map (le_bytes w) t)) = length t * w"
  by (induction t) simp_all

lemma dec_scalars_at:
  assumes "length old = length t" "\<forall>v \<in> set t. v < 256 ^ w" "rd_at s (concat (map (le_bytes w) t))"
  shows "dec_scalars w s old = (rd_skip s (length t * w), t)"
  using vr_read_at [OF assms(3)] assms(1,2) scalars_of_bytes [of w t]
  by (simp add: dec_scalars_def length_scalars map_idI)

lemma dec_scalars_step: "dec_scalars w s t = (s', v) \<Longrightarrow> rd_step s s'"
  by (auto simp: dec_scalars_def split: prod.splits option.splits dest: vr_read_step)

lemma codec_array_scalar:
  "codec (dec_scalars w) (enc_scalars w) (\<lambda>t. length t = n \<and> (\<forall>v \<in> set t. v < 256 ^ w)) (\<lambda>t. length t = n)"
proof (rule codecI)
  show "dec_scalars w s old = (rd_skip s (length (bytes_of (enc_scalars w t))), t)"
    if "length t = n \<and> (\<forall>v \<in> set t. v < 256 ^ w)" "length old = n" "rd_at s (bytes_of (enc_scalars w t))" for s old t
    using that dec_scalars_at [of old t w s] by (simp add: enc_scalars_def length_scalars)
qed (rule dec_scalars_step)

lemma length_resize [simp]: "length (resize d n xs) = n"
  by (simp add: resize_def)

lemma set_resize: "x \<in> set (resize d n xs) \<Longrightarrow> x = d \<or> x \<in> set xs"
  by (auto simp: resize_def dest: in_set_takeD split: if_splits)

lemma codec_vector_scalar:
  assumes sz: "size_codec dsz esz lim"
  shows "codec (dec_vector_scalar dsz w) (enc_vector_scalar esz w)
    (\<lambda>t. length t < lim \<and> (\<forall>v \<in> set t. v < 256 ^ w)) (\<lambda>_. True)"
proof (rule codecI)
  show "dec_vector_scalar dsz w s old = (s', v) \<Longrightarrow> rd_step s s'" for s old s' v
    by (auto simp: dec_vector_scalar_def split: prod.splits if_splits
        dest!: dec_scalars_step codec_laws(2) [OF sz] intro: rd_step_trans)
  show "dec_vector_scalar dsz w s old = (rd_skip s (length (bytes_of (enc_vector_scalar esz w t))), t)"
    if "length t < lim \<and> (\<forall>v \<in> set t. v < 256 ^ w)" "rd_at s (bytes_of (enc_vector_scalar esz w t))" for s old t
    using size_codec_at [OF sz, of "length t" s] that
      dec_scalars_at [of "resize 0 (length t) old" t w "rd_skip s (length (bytes_of (esz (length t))))"]
    by (simp add: dec_vector_scalar_def enc_vector_scalar_def enc_scalars_def rd_at_append length_scalars)
qed

lemma enc_elems_Cons [simp]: "enc_elems enc [] = []" "enc_elems enc (v # t) = enc v @ enc_elems enc t"
  by (simp_all add: enc_elems_def)

lemma rd_skip_0: "data_was_read s \<Longrightarrow> rd_skip s 0 = s"
  by (simp add: rd_skip_def data_was_read_def)

lemma dec_elems_at:
  assumes c: "codec dec enc ok dst"
  shows "\<forall>v \<in> set t. ok v \<Longrightarrow> \<forall>v \<in> set old. dst v \<Longrightarrow> length old = length t \<Longrightarrow>
    rd_at s (bytes_of (enc_elems enc t)) \<Longrightarrow> data_was_read s \<or> t \<noteq> [] \<Longrightarrow>
    dec_elems dec s old = (rd_skip s (length (bytes_of (enc_elems enc t))), t)"
proof (induction t arbitrary: s old)
  case (Cons v t)
  from Cons.prems(3) obtain o1 os where old: "old = o1 # os" by (cases old) auto
  let ?s = "rd_skip s (length (bytes_of (enc v)))"
  have "dec s o1 = (?s, v)" "rd_at ?s (bytes_of (enc_elems enc t))"
    using codec_laws(1) [OF c, of v o1 s] Cons.prems old by (simp_all add: rd_at_append)
  then show ?case using Cons.IH [of os ?s] Cons.prems old by simp
qed (simp add: rd_skip_0)

lemma dec_elems_step: "decoder dec \<Longrightarrow> dec_elems dec s old = (s', v) \<Longrightarrow> rd_step s s'"
  by (induction dec s old arbitrary: s' v rule: dec_elems.induct)
    (auto split: prod.splits if_splits dest!: decoder.dec_step intro: rd_step_trans)

lemma codec_array:
  assumes "codec dec enc ok dst" "0 < n"
  shows "codec (dec_elems dec) (enc_elems enc) (\<lambda>t. length t = n \<and> (\<forall>v \<in> set t. ok v))
    (\<lambda>t. length t = n \<and> (\<forall>v \<in> set t. dst v))"
  using assms by (intro codecI) (auto dest: dec_elems_step [OF codec_decoder] intro!: dec_elems_at)

lemma codec_vector:
  assumes sz: "size_codec dsz esz lim" and c: "codec dec enc ok dst" and d: "dst d"
  shows "codec (dec_vector dsz dec d) (enc_vector esz enc)
    (\<lambda>t. length t < lim \<and> (\<forall>v \<in> set t. ok v)) (\<lambda>t. \<forall>v \<in> set t. dst v)"
proof (rule codecI)
  show "dec_vector dsz dec d s old = (s', v) \<Longrightarrow> rd_step s s'" for s old s' v
    by (auto simp: dec_vector_def split: prod.splits if_splits
        dest!: dec_elems_step [OF codec_decoder [OF c]] codec_laws(2) [OF sz] intro: rd_step_trans)
  show "dec_vector dsz dec d s old = (rd_skip s (length (bytes_of (enc_vector esz enc t))), t)"
    if "length t < lim \<and> (\<forall>v \<in> set t. ok v)" "\<forall>v \<in> set old. dst v" "rd_at s (bytes_of (enc_vector esz enc t))" for s old t
  proof -
    let ?s = "rd_skip s (length (bytes_of (esz (length t))))"
    have "dec_elems dec ?s (resize d (length t) old) = (rd_skip ?s (length (bytes_of (enc_elems enc t))), t)"
      using that d set_resize [of _ d "length t" old] by (intro dec_elems_at [OF c]) (auto simp: enc_vector_def rd_at_append)
    then show ?thesis using size_codec_at [OF sz, of "length t" s] that
      by (simp add: dec_vector_def enc_vector_def rd_at_append)
  qed
qed

lemma dec_list_loop_at:
  assumes c: "codec dec enc ok dst" and d: "dst d"
  shows "\<forall>v \<in> set t. ok v \<Longrightarrow> rd_at s (bytes_of (enc_elems enc t)) \<Longrightarrow> data_was_read s \<Longrightarrow>
    dec_list_loop dec d (length t) s acc = (rd_skip s (length (bytes_of (enc_elems enc t))), acc @ t)"
proof (induction t arbitrary: s acc)
  case (Cons v t)
  let ?s = "rd_skip s (length (bytes_of (enc v)))"
  have "dec s d = (?s, v)" "rd_at ?s (bytes_of (enc_elems enc t))"
    using codec_laws(1) [OF c, of v d s] Cons.prems d by (simp_all add: rd_at_append)
  then show ?case using Cons.IH [of ?s "acc @ [v]"] Cons.prems by simp
qed (simp add: rd_skip_0)

lemma dec_list_loop_step: "decoder dec \<Longrightarrow> dec_list_loop dec d n s t = (s', v) \<Longrightarrow> rd_step s s'"
  by (induction n arbitrary: s t)
    (auto split: prod.splits if_splits dest!: decoder.dec_step intro: rd_step_trans)

lemma codec_list:
  assumes sz: "size_codec dsz esz lim" and c: "codec dec enc ok dst" and d: "dst d"
  shows "codec (dec_list dsz dec d) (enc_list esz enc) (\<lambda>t. length t < lim \<and> (\<forall>v \<in> set t. ok v)) (\<lambda>_. True)"
proof (rule codecI)
  show "dec_list dsz dec d s old = (s', v) \<Longrightarrow> rd_step s s'" for s old s' v
    by (auto simp: dec_list_def split: prod.splits if_splits
        dest!: dec_list_loop_step [OF codec_decoder [OF c]] codec_laws(2) [OF sz] intro: rd_step_trans)
  show "dec_list dsz dec d s old = (rd_skip s (length (bytes_of (enc_list esz enc t))), t)"
    if "length t < lim \<and> (\<forall>v \<in> set t. ok v)" "rd_at s (bytes_of (enc_list esz enc t))" for s old t
    using size_codec_at [OF sz, of "length t" s] that
      dec_list_loop_at [OF c d, of t "rd_skip s (length (bytes_of (esz (length t))))" "[]"]
    by (simp add: dec_list_def enc_list_def rd_at_append)
qed

lemma foldl_emplace:
  assumes "distinct (map fst es)" "\<forall>k \<in> fst ` set es. m k = None"
  shows "foldl emplace m es = m ++ map_of es"
  using assms
proof (induction es arbitrary: m)
  case (Cons e es)
  have "map_of es (fst e) = None" using Cons.prems(1) by (auto simp: map_of_eq_None_iff)
  moreover have "foldl emplace (m(fst e \<mapsto> snd e)) es = m(fst e \<mapsto> snd e) ++ map_of es"
    using Cons.prems by (intro Cons.IH) (auto simp: rev_image_eqI)
  moreover have "emplace m e = m(fst e \<mapsto> snd e)" using Cons.prems(2) by (simp add: emplace_def)
  ultimately show ?case
    by (cases e) (simp, auto simp: map_add_def fun_eq_iff split: option.splits)
qed simp

lemma dec_map_loop_at:
  assumes c: "codec dkv ekv ok dst" and d: "dst d"
  shows "\<forall>v \<in> set t. ok v \<Longrightarrow> rd_at s (bytes_of (enc_elems ekv t)) \<Longrightarrow> data_was_read s \<Longrightarrow>
    dec_map_loop dkv d (length t) s m = (rd_skip s (length (bytes_of (enc_elems ekv t))), foldl emplace m t)"
proof (induction t arbitrary: s m)
  case (Cons v t)
  let ?s = "rd_skip s (length (bytes_of (ekv v)))"
  have "dkv s d = (?s, v)" "rd_at ?s (bytes_of (enc_elems ekv t))"
    using codec_laws(1) [OF c, of v d s] Cons.prems d by (simp_all add: rd_at_append)
  then show ?case using Cons.IH [of ?s "emplace m v"] Cons.prems by simp
qed (simp add: rd_skip_0)

lemma dec_map_at:
  assumes sz: "size_codec dsz esz lim" and c: "codec dkv ekv ok dst" and d: "dst d"
    and "length t < lim" "\<forall>v \<in> set t. ok v" "distinct (map fst t)" "rd_at s (bytes_of (enc_map esz ekv t))"
  shows "dec_map dsz dkv d s old = (rd_skip s (length (bytes_of (enc_map esz ekv t))), map_of t)"
  using size_codec_at [OF sz assms(4), of s] assms(5-7) foldl_emplace [of t "\<lambda>_. None"]
    dec_map_loop_at [OF c d, of t "rd_skip s (length (bytes_of (esz (length t))))" "\<lambda>_. None"]
  by (simp add: dec_map_def enc_map_def rd_at_append map_add_def)

lemma codec_pair:
  assumes c1: "codec d1 e1 ok1 dst1" and c2: "codec d2 e2 ok2 dst2"
  shows "codec (dec_pair d1 d2) (enc_pair e1 e2) (\<lambda>p. ok1 (fst p) \<and> ok2 (snd p)) (\<lambda>p. dst1 (fst p) \<and> dst2 (snd p))"
proof (rule codecI)
  show "dec_pair d1 d2 s old = (s', v) \<Longrightarrow> rd_step s s'" for s old s' v
    using codec_laws(2) [OF c1] codec_laws(2) [OF c2] rd_step_trans
    by (simp add: dec_pair_def split: prod.splits) blast
  show "dec_pair d1 d2 s old = (rd_skip s (length (bytes_of (enc_pair e1 e2 p))), p)"
    if "ok1 (fst p) \<and> ok2 (snd p)" "dst1 (fst old) \<and> dst2 (snd old)" "rd_at s (bytes_of (enc_pair e1 e2 p))" for s old p
    using that codec_laws(1) [OF c1, of "fst p" "fst old" s]
      codec_laws(1) [OF c2, of "snd p" "snd old" "rd_skip s (length (bytes_of (e1 (fst p))))"]
    by (simp add: dec_pair_def enc_pair_def rd_at_append)
qed

lemma codec_optional:
  assumes c: "codec dec enc ok dst" and d: "dst d"
  shows "codec (dec_optional junk dec d) (enc_optional enc) (\<lambda>v. \<forall>x. v = Some x \<longrightarrow> ok x) (\<lambda>v. v = None)"
proof (rule codecI)
  show "dec_optional junk dec d s old = (s', v) \<Longrightarrow> rd_step s s'" for s old s' v
    by (auto simp: dec_optional_def split: prod.splits if_splits
        dest!: codec_laws(2) [OF c] dec_bool_step intro: rd_step_trans)
  show "dec_optional junk dec d s old = (rd_skip s (length (bytes_of (enc_optional enc v))), v)"
    if "\<forall>x. v = Some x \<longrightarrow> ok x" "old = None" "rd_at s (bytes_of (enc_optional enc v))" for s old v
  proof (cases v)
    case None
    then show ?thesis using that dec_bool_at [of s False junk False] by (simp add: dec_optional_def enc_optional_def enc_bool_def)
  next
    case (Some x)
    then have "rd_at s [1]" "rd_at (rd_skip s 1) (bytes_of (enc x))"
      using that rd_at_append [of s "[1]" "bytes_of (enc x)"] by (simp_all add: enc_optional_def enc_bool_def)
    then show ?thesis using that Some dec_bool_at [of s True junk False] codec_laws(1) [OF c, of x d "rd_skip s 1"] d
      by (simp add: dec_optional_def enc_optional_def enc_bool_def)
  qed
qed

text \<open>Types that share their format with another one.\<close>

lemmas same_format_defs = enc_unique_ptr_def dec_unique_ptr_def enc_shared_ptr_def dec_shared_ptr_def enc_optional_def
  dec_optional_def enc_deque_def dec_deque_def enc_vector_def dec_vector_def enc_list_def enc_unordered_map_def
  dec_unordered_map_def enc_map_def dec_map_def enc_string_view_def enc_string_def

lemma same_format:
  "enc_unique_ptr = enc_optional" "dec_unique_ptr = dec_optional" "enc_shared_ptr = enc_optional"
  "dec_shared_ptr = dec_optional" "enc_deque = enc_vector" "dec_deque = dec_vector" "enc_list = enc_vector"
  "enc_unordered_map = enc_map" "dec_unordered_map = dec_map" "enc_string_view = enc_string"
  by (simp_all add: same_format_defs fun_eq_iff)

lemma codec_variant:
  assumes "length alts = length encs" "length alts \<le> 255"
    and c: "\<And>i. i < length alts \<Longrightarrow> codec (fst (alts ! i)) (encs ! i) (ok i) (\<lambda>x. x = snd (alts ! i))"
  shows "codec (dec_variant alts) (enc_variant encs)
    (\<lambda>v. \<exists>i x. v = Some (i, x) \<and> i < length alts \<and> ok i x) (\<lambda>_. True)"
proof (rule codecI)
  show "rd_step s s'" if "dec_variant alts s old = (s', v)" for s old s' v
  proof -
    obtain s1 tag where d: "dec_arith 1 s 0 = (s1, tag)" by fastforce
    have "rd_step s1 (s2 :: reader)" if "tag < length alts" "fst (alts ! tag) s1 (snd (alts ! tag)) = (s2, x)" for s2 x
      using codec_laws(2) [OF c] that by blast
    then have "rd_step s1 s'"
      using that d rd_step_trans [OF _ rd_step_refl(2)]
      by (auto simp: dec_variant_def split: if_splits prod.splits)
    then show ?thesis using dec_arith_step [OF d] rd_step_trans by blast
  qed
  show "dec_variant alts s old = (rd_skip s (length (bytes_of (enc_variant encs v))), v)"
    if v: "\<exists>i x. v = Some (i, x) \<and> i < length alts \<and> ok i x" and at: "rd_at s (bytes_of (enc_variant encs v))" for s old v
  proof -
    obtain i x where i: "v = Some (i, x)" "i < length alts" "ok i x" using v by blast
    have at': "rd_at s (le_bytes 1 i)" "rd_at (rd_skip s 1) (bytes_of ((encs ! i) x))"
      using at i assms(2) rd_at_append [of s "le_bytes 1 i" "bytes_of ((encs ! i) x)"]
      by (simp_all add: enc_variant_def enc_arith_def u8_exact)
    have "dec_arith 1 s 0 = (rd_skip s 1, i)" using at'(1) i assms(2) by (intro dec_arith_at) simp_all
    with codec_laws(1) [OF c [OF i(2)] i(3) refl at'(2)] i assms(2) show ?thesis
      by (simp add: dec_variant_def enc_variant_def enc_arith_def)
  qed
qed

text \<open>A structure of fields, each given by its operators, its range and what its destination may hold.\<close>

lemma dec_struct_at:
  assumes "\<forall>(d, e, ok, dst) \<in> set fs. codec d e ok dst"
  shows "list_all2 (\<lambda>(d, e, ok, dst) v. ok v) fs t \<Longrightarrow> list_all2 (\<lambda>(d, e, ok, dst) v. dst v) fs old \<Longrightarrow>
    rd_at s (bytes_of (enc_struct (map (\<lambda>f. fst (snd f)) fs) t)) \<Longrightarrow> data_was_read s \<or> fs \<noteq> [] \<Longrightarrow>
    dec_struct (map fst fs) s old = (rd_skip s (length (bytes_of (enc_struct (map (\<lambda>f. fst (snd f)) fs) t))), t)"
  using assms
proof (induction fs arbitrary: s t old)
  case (Cons f fs)
  obtain d e ok dst where f: "f = (d, e, ok, dst)" by (cases f)
  obtain v t' w old' where t: "t = v # t'" "old = w # old'" using Cons.prems(1,2) by (auto simp: list_all2_Cons1)
  let ?s = "rd_skip s (length (bytes_of (e v)))"
  have "codec d e ok dst" using Cons.prems(5) f by auto
  from codec_laws(1) [OF this, of v w s]
  have "d s w = (?s, v)" "rd_at ?s (bytes_of (enc_struct (map (\<lambda>f. fst (snd f)) fs) t'))"
    using Cons.prems f t by (simp_all add: enc_struct_def rd_at_append)
  with Cons.IH [of t' old' ?s] Cons.prems f t show ?case by (simp add: enc_struct_def)
qed (simp add: rd_skip_0 enc_struct_def)


subsection \<open>Properties\<close>

text \<open>The default buffers, whose \<^verbatim>\<open>size_type\<close> is \<^verbatim>\<open>std::uint32_t\<close>.\<close>

lemma size_codec_u32: "size_codec (dec_arith 4) (enc_arith 4) (2 ^ 32)"
  using codec_arith [of 4] by simp

interpretation strings: codec "dec_vector (dec_arith 4) (dec_string (dec_arith 4)) []" "enc_vector (enc_arith 4) (enc_string (enc_arith 4))"
  "\<lambda>t. length t < 2 ^ 32 \<and> (\<forall>v \<in> set t. length v < 2 ^ 32)" "\<lambda>t. \<forall>v \<in> set t. True"
  by (rule codec_vector [OF size_codec_u32 codec_string [OF size_codec_u32] TrueI])

lemma codec_entry:
  "codec (dec_pair (dec_string (dec_arith 4)) (dec_optional junk (dec_vector_scalar (dec_arith 4) 2) []))
     (enc_pair (enc_string (enc_arith 4)) (enc_optional (enc_vector_scalar (enc_arith 4) 2)))
     (\<lambda>p. length (fst p) < 2 ^ 32 \<and> (\<forall>x. snd p = Some x \<longrightarrow> length x < 2 ^ 32 \<and> (\<forall>v \<in> set x. v < 256 ^ 2)))
     (\<lambda>p. True \<and> snd p = None)"
  by (rule codec_pair [OF codec_string [OF size_codec_u32] codec_optional [OF codec_vector_scalar [OF size_codec_u32] TrueI]])

text \<open>(C18) What is written is read back: a map from strings to optional vectors of 16 bit numbers is recovered
  from its bytes, whatever follows them and whatever the destination held, and the reader stops exactly
  behind them.\<close>

theorem mstream_round_trip:
  fixes m :: "(byte list \<times> nat list option) list" and post :: "byte list"
  defines "bytes \<equiv> vw_all [] (enc_map (enc_arith 4)
      (enc_pair (enc_string (enc_arith 4)) (enc_optional (enc_vector_scalar (enc_arith 4) 2))) m)"
  assumes "distinct (map fst m)" "length m < 2 ^ 32"
    and "\<forall>p \<in> set m. length (fst p) < 2 ^ 32 \<and>
      (\<forall>x. snd p = Some x \<longrightarrow> length x < 2 ^ 32 \<and> (\<forall>v \<in> set x. v < 65536))"
    and "length bytes + length post < size_mod"
  shows "dec_map (dec_arith 4) (dec_pair (dec_string (dec_arith 4)) (dec_optional junk (dec_vector_scalar (dec_arith 4) 2) []))
      ([], None) (vr_make (bytes @ post)) old =
    (\<lparr>rd_data = bytes @ post, rd_offset = length bytes, rd_result = kYes\<rparr>, map_of m)"
proof -
  have eq: "bytes = bytes_of (enc_map (enc_arith 4)
      (enc_pair (enc_string (enc_arith 4)) (enc_optional (enc_vector_scalar (enc_arith 4) 2))) m)"
    by (simp add: bytes_def vw_all_eq)
  have "rd_at (vr_make (bytes @ post)) bytes" using assms(5) by (rule rd_at_make)
  moreover have "\<forall>p \<in> set m. length (fst p) < 2 ^ 32 \<and>
      (\<forall>x. snd p = Some x \<longrightarrow> length x < 2 ^ 32 \<and> (\<forall>v \<in> set x. v < 256 ^ 2))"
    using assms(4) by simp
  ultimately have "dec_map (dec_arith 4) (dec_pair (dec_string (dec_arith 4)) (dec_optional junk (dec_vector_scalar (dec_arith 4) 2) []))
      ([], None) (vr_make (bytes @ post)) old = (rd_skip (vr_make (bytes @ post)) (length bytes), map_of m)"
    unfolding eq by (intro dec_map_at [OF size_codec_u32 codec_entry _ assms(3) _ assms(2)]) simp_all
  then show ?thesis by (simp add: rd_skip_def vr_make_def)
qed

theorem mstream_round_trip_witness:
  "snd (dec_map (dec_arith 4) (dec_pair (dec_string (dec_arith 4)) (dec_optional 7 (dec_vector_scalar (dec_arith 4) 2) []))
     ([], None) (vr_make [2, 0, 0, 0, 1, 0, 0, 0, 65, 1, 1, 0, 0, 0, 7, 0, 0, 0, 0, 0, 0, 99]) (\<lambda>_. None)) =
   map_of [([65], Some [7]), ([], None)]"
  using mstream_round_trip [of "[([65], Some [7]), ([], None)]" "[99]" 7 "\<lambda>_. None"]
  by (simp add: vw_all_eq enc_map_def enc_elems_def enc_pair_def enc_string_def enc_optional_def enc_bool_def
      enc_vector_scalar_def enc_scalars_def enc_arith_def le_bytes_numeral)

text \<open>Encodings are prefix free: two byte sequences that start with encoded vectors of strings and agree
  start with the same vector, so consecutive values never run into each other.\<close>

theorem mstream_prefix_free:
  assumes "length v < 2 ^ 32 \<and> (\<forall>t \<in> set v. length t < 2 ^ 32)" "length w < 2 ^ 32 \<and> (\<forall>t \<in> set w. length t < 2 ^ 32)"
    and "vw_all [] (enc_vector (enc_arith 4) (enc_string (enc_arith 4)) v) @ r =
      vw_all [] (enc_vector (enc_arith 4) (enc_string (enc_arith 4)) w) @ r'"
    and "length (vw_all [] (enc_vector (enc_arith 4) (enc_string (enc_arith 4)) v) @ r) < size_mod"
  shows "v = w \<and> r = r'"
  using strings.prefix_free [OF assms(1,2), of "[]" r r'] assms(3,4) by (simp add: vw_all_eq)

theorem mstream_prefix_free_witness:
  "vw_all [] (enc_vector (enc_arith 4) (enc_string (enc_arith 4)) [[65], []]) @ [1] \<noteq>
   vw_all [] (enc_vector (enc_arith 4) (enc_string (enc_arith 4)) [[65]]) @ [0, 0, 0, 0, 1]"
proof
  assume "vw_all [] (enc_vector (enc_arith 4) (enc_string (enc_arith 4)) [[65], []]) @ [1] =
    vw_all [] (enc_vector (enc_arith 4) (enc_string (enc_arith 4)) [[65]]) @ [0, 0, 0, 0, 1]"
  from mstream_prefix_free [OF _ _ this] show False
    by (simp add: vw_all_eq enc_vector_def enc_elems_def enc_string_def enc_arith_def le_bytes_numeral)
qed

text \<open>(C19) A read tells only about the last field: with too few bytes for the first and enough for the second
  member of a pair, the second is taken from the bytes of the first, the first keeps its old value and
  the read is reported as successful.\<close>

theorem pair_read_hides_failure:
  assumes "rd_offset s \<le> length (rd_data s)" "length (rd_data s) - rd_offset s < w1"
    and "w2 \<le> length (rd_data s) - rd_offset s" "length (rd_data s) + w1 < size_mod"
  shows "dec_pair (dec_arith w1) (dec_arith w2) s (a, b) =
    (s\<lparr>rd_offset := rd_offset s + w2, rd_result := kYes\<rparr>, (a, le_nat (take w2 (drop (rd_offset s) (rd_data s)))))"
proof -
  have "sz_add (rd_offset s) w1 = rd_offset s + w1" "sz_add (rd_offset s) w2 = rd_offset s + w2"
    using assms by (simp_all add: size_simps)
  moreover have "length (rd_data s) < rd_offset s + w1" "\<not> length (rd_data s) < rd_offset s + w2" using assms by linarith+
  ultimately show ?thesis by (simp add: dec_pair_def dec_arith_def vr_read_def)
qed

theorem pair_read_hides_failure_witness:
  "dec_pair (dec_arith 4) (dec_arith 2) (vr_make [5, 1, 9]) (0, 0) =
    (\<lparr>rd_data = [5, 1, 9], rd_offset = 2, rd_result = kYes\<rparr>, (0, 261))"
  using pair_read_hides_failure [of "vr_make [5, 1, 9]" 4 2 0 0] by (simp add: vr_make_def)

text \<open>Reading an empty optional does not clear the destination: an optional (or smart pointer) that held
  a value still holds it after an encoded empty one was read successfully.\<close>

theorem optional_read_keeps_old:
  assumes "rd_at s (vw_all [] (enc_optional enc None))"
  shows "dec_optional junk dec d s old = (rd_skip s 1, old) \<and> data_was_read (fst (dec_optional junk dec d s old))"
  using dec_bool_at [of s False junk False] assms
  by (simp add: dec_optional_def enc_optional_def enc_bool_def vw_all_eq)

theorem optional_read_keeps_old_witness:
  "snd (dec_optional 0 (dec_arith 4) 0 (vr_make (vw_all [] (enc_optional (enc_arith 4) None))) (Some 3)) = Some 3"
  using optional_read_keeps_old [of "vr_make (vw_all [] (enc_optional (enc_arith 4) None))" "enc_arith 4" 0 "dec_arith 4" 0 "Some 3"]
  by (simp add: rd_at_def vr_make_def vw_all_eq enc_optional_def enc_bool_def)

lemma lw_all_end: "lw_end w \<Longrightarrow> lw_all w ws = w"
proof (induction ws)
  case (Cons c ws)
  moreover have "fst (lw_write w c) = w" using Cons.prems by (cases w) (simp add: lw_write_def)
  ultimately show ?case by (simp add: lw_all_def)
qed (simp add: lw_all_def)

text \<open>A limited writer takes a prefix of the writes, all of them before the first that does not fit, and
  stays below its limit.\<close>

theorem limited_writer_takes_prefix:
  "\<exists>n \<le> length ws. lw_buffer (lw_all (lw_make b l) ws) = b @ bytes_of (take n ws) \<and>
     (lw_end (lw_all (lw_make b l) ws) \<longleftrightarrow> n < length ws) \<and>
     (n < length ws \<longrightarrow> l \<le> length (b @ bytes_of (take (Suc n) ws))) \<and>
     (length b < l \<longrightarrow> length (lw_buffer (lw_all (lw_make b l) ws)) < l)"
proof (induction ws arbitrary: b)
  case Nil
  show ?case by (simp add: lw_all_def lw_make_def)
next
  case (Cons c ws)
  show ?case
  proof (cases "l \<le> length b + length c")
    case True
    then have "lw_all (lw_make b l) (c # ws) = (lw_make b l)\<lparr>lw_end := True\<rparr>"
      using lw_all_end [of "(lw_make b l)\<lparr>lw_end := True\<rparr>" ws] by (simp add: lw_all_def lw_write_def lw_make_def)
    with True show ?thesis by (intro exI [of _ 0]) (simp add: lw_make_def)
  next
    case False
    then have eq: "lw_all (lw_make b l) (c # ws) = lw_all (lw_make (b @ c) l) ws"
      by (simp add: lw_all_def lw_write_def lw_make_def)
    from Cons.IH [of "b @ c"] obtain n where n: "n \<le> length ws"
      "lw_buffer (lw_all (lw_make (b @ c) l) ws) = (b @ c) @ bytes_of (take n ws)"
      "lw_end (lw_all (lw_make (b @ c) l) ws) \<longleftrightarrow> n < length ws"
      "n < length ws \<longrightarrow> l \<le> length ((b @ c) @ bytes_of (take (Suc n) ws))"
      "length (b @ c) < l \<longrightarrow> length (lw_buffer (lw_all (lw_make (b @ c) l) ws)) < l" by blast
    show ?thesis unfolding eq
      using n False by (intro exI [of _ "Suc n"]) (simp add: n(3))
  qed
qed

theorem limited_writer_takes_prefix_witness:
  "length (lw_buffer (lw_all (lw_make [] 4) [[1], [2, 2], [3]])) < 4"
  using limited_writer_takes_prefix [of "[[1], [2, 2], [3]]" "[]" 4] by auto

end
