(* ===== verification/Memory_Buffer.thy ===== *)
theory Memory_Buffer
  imports Mstream
begin

text \<open>
  \<^verbatim>\<open>aether/memory_buffer.h\<close>: a stream buffer over memory that grows in blocks, and the reader and the writer
  of \<^verbatim>\<open>aether/mstream_buffers.h\<close> on it.

  The pointers of \<^verbatim>\<open>std::basic_streambuf\<close> are offsets into the memory block: \<open>mb_pptr\<close> and \<open>mb_epptr\<close> are the put
  position and the end of the put area, \<open>mb_gptr\<close> and \<open>mb_egptr\<close> those of the get area.  Whether \<^verbatim>\<open>realloc\<close> can
  serve a size is the predicate \<open>alloc\<close>, and what new memory holds is \<open>junk\<close>.  Sizes are of the signed type
  \<^verbatim>\<open>std::streamsize\<close>.  \<^verbatim>\<open>sputn\<close> and \<^verbatim>\<open>sgetn\<close> of the standard library are written out: characters are stored while there is room,
  and \<^verbatim>\<open>overflow\<close> is asked for more.
\<close>

record mem_buf =
  mb_mem :: "byte list"
  mb_pptr :: nat
  mb_epptr :: nat
  mb_gptr :: nat
  mb_egptr :: nat

definition kBlockSize :: int where
  "kBlockSize = 1024"

definition mb_empty :: mem_buf where
  "mb_empty = \<lparr>mb_mem = [], mb_pptr = 0, mb_epptr = 0, mb_gptr = 0, mb_egptr = 0\<rparr>"

definition mb_Size :: "mem_buf \<Rightarrow> nat" where
  "mb_Size b = mb_pptr b"

definition mb_Capacity :: "mem_buf \<Rightarrow> nat" where
  "mb_Capacity b = mb_epptr b"

definition mb_AvailableCapacity :: "mem_buf \<Rightarrow> nat" where
  "mb_AvailableCapacity b = mb_epptr b - mb_pptr b"

definition mb_AvailableData :: "mem_buf \<Rightarrow> int" where
  "mb_AvailableData b = int (mb_egptr b) - int (mb_gptr b)"

definition mb_realloc :: "(nat \<Rightarrow> byte) \<Rightarrow> nat \<Rightarrow> byte list \<Rightarrow> byte list" where
  "mb_realloc junk n mem = take n mem @ map junk [length mem..<n]"

definition mb_SetExactCapacity ::
  "(nat \<Rightarrow> bool) \<Rightarrow> (nat \<Rightarrow> byte) \<Rightarrow> mem_buf \<Rightarrow> int \<Rightarrow> bool \<times> mem_buf"
where
  "mb_SetExactCapacity alloc junk b new_size =
     (if new_size \<le> 0 then (False, b)
      else if \<not> alloc (nat new_size) then (False, b)
      else (let p = min (mb_Size b) (nat new_size)
            in (True, b\<lparr>mb_mem := mb_realloc junk (nat new_size) (mb_mem b),
                       mb_pptr := p, mb_epptr := nat new_size, mb_egptr := p\<rparr>)))"

definition mb_SetCapacity ::
  "(nat \<Rightarrow> bool) \<Rightarrow> (nat \<Rightarrow> byte) \<Rightarrow> mem_buf \<Rightarrow> int \<Rightarrow> bool \<times> mem_buf"
where
  "mb_SetCapacity alloc junk b new_size =
     mb_SetExactCapacity alloc junk b
       (if new_size \<noteq> 0 then ((new_size - 1) div kBlockSize + 1) * kBlockSize else 0)"

definition mb_make :: "(nat \<Rightarrow> bool) \<Rightarrow> (nat \<Rightarrow> byte) \<Rightarrow> mem_buf" where
  "mb_make alloc junk = snd (mb_SetCapacity alloc junk mb_empty kBlockSize)"

definition mb_make_exact :: "(nat \<Rightarrow> bool) \<Rightarrow> (nat \<Rightarrow> byte) \<Rightarrow> int \<Rightarrow> mem_buf" where
  "mb_make_exact alloc junk capacity = snd (mb_SetExactCapacity alloc junk mb_empty capacity)"

definition mb_ShrinkToFit :: "(nat \<Rightarrow> bool) \<Rightarrow> (nat \<Rightarrow> byte) \<Rightarrow> mem_buf \<Rightarrow> bool \<times> mem_buf" where
  "mb_ShrinkToFit alloc junk b = mb_SetExactCapacity alloc junk b (int (mb_Size b))"

definition mb_setg :: "mem_buf \<Rightarrow> mem_buf" where
  "mb_setg b = b\<lparr>mb_egptr := mb_pptr b\<rparr>"

text \<open>The copy of the standard \<^verbatim>\<open>xsputn\<close> into the put area.\<close>

definition mb_copy :: "mem_buf \<Rightarrow> byte list \<Rightarrow> mem_buf" where
  "mb_copy b s = b\<lparr>mb_mem := overwrite (mb_mem b) (mb_pptr b) s, mb_pptr := mb_pptr b + length s\<rparr>"

text \<open>\<^verbatim>\<open>overflow\<close> of one character: room for it is made, and it is stored with \<^verbatim>\<open>xsputn\<close>, for which it then fits.\<close>

definition mb_overflow :: "(nat \<Rightarrow> bool) \<Rightarrow> (nat \<Rightarrow> byte) \<Rightarrow> mem_buf \<Rightarrow> byte \<Rightarrow> bool \<times> mem_buf" where
  "mb_overflow alloc junk b ch =
     (case mb_SetCapacity alloc junk b (int (mb_Size b) + 1) of
        (False, b1) \<Rightarrow> (False, b1)
      | (True, b1) \<Rightarrow> (True, mb_setg (mb_copy b1 [ch])))"

function mb_put :: "(nat \<Rightarrow> bool) \<Rightarrow> (nat \<Rightarrow> byte) \<Rightarrow> mem_buf \<Rightarrow> byte list \<Rightarrow> nat \<times> mem_buf" where
  "mb_put alloc junk b s =
     (let n = min (mb_AvailableCapacity b) (length s); b1 = mb_copy b (take n s)
      in case drop n s of
           [] \<Rightarrow> (n, b1)
         | c # rest \<Rightarrow>
             (case mb_overflow alloc junk b1 c of
                (False, b2) \<Rightarrow> (n, b2)
              | (True, b2) \<Rightarrow> (case mb_put alloc junk b2 rest of (k, b3) \<Rightarrow> (n + 1 + k, b3))))"
  by pat_completeness auto
termination
proof (relation "measure (\<lambda>(alloc, junk, b, s). length s)", goal_cases)
  case (2 alloc junk b s n b1 c rest)
  then have "length rest < length (drop n s)" by simp
  then show ?case by simp
qed simp

definition mb_xsputn :: "(nat \<Rightarrow> bool) \<Rightarrow> (nat \<Rightarrow> byte) \<Rightarrow> mem_buf \<Rightarrow> byte list \<Rightarrow> nat \<times> mem_buf" where
  "mb_xsputn alloc junk b s =
     (let b1 = (if length s > mb_AvailableCapacity b
                then snd (mb_SetCapacity alloc junk b (int (mb_Size b) + int (length s))) else b)
      in case mb_put alloc junk b1 s of (written, b2) \<Rightarrow> (written, mb_setg b2))"

text \<open>The standard \<^verbatim>\<open>sgetn\<close>; the buffer does not define \<^verbatim>\<open>underflow\<close>.\<close>

definition mb_sgetn :: "mem_buf \<Rightarrow> nat \<Rightarrow> byte list \<times> mem_buf" where
  "mb_sgetn b n =
     (let bs = take n (drop (mb_gptr b) (take (mb_egptr b) (mb_mem b)))
      in (bs, b\<lparr>mb_gptr := mb_gptr b + length bs\<rparr>))"

definition mb_seekpos_in :: "mem_buf \<Rightarrow> nat \<Rightarrow> mem_buf" where
  "mb_seekpos_in b sp = b\<lparr>mb_gptr := sp, mb_egptr := mb_Size b\<rparr>"

definition mb_seekpos_out :: "mem_buf \<Rightarrow> nat \<Rightarrow> mem_buf" where
  "mb_seekpos_out b sp = b\<lparr>mb_pptr := 0, mb_epptr := sp\<rparr>"

definition mb_setbuf :: "mem_buf \<Rightarrow> byte list \<Rightarrow> mem_buf" where
  "mb_setbuf b s = b\<lparr>mb_mem := s, mb_pptr := 0, mb_epptr := length s\<rparr>"


subsection \<open>Reader and writer\<close>

record mem_reader =
  mr_buffer :: mem_buf
  mr_result :: ReadResult

definition mr_add_data ::
  "(nat \<Rightarrow> bool) \<Rightarrow> (nat \<Rightarrow> byte) \<Rightarrow> mem_reader \<Rightarrow> byte list \<Rightarrow> nat \<times> mem_reader"
where
  "mr_add_data alloc junk r data =
     (case mb_xsputn alloc junk (mr_buffer r) data of (s, b) \<Rightarrow> (s, r\<lparr>mr_buffer := b\<rparr>))"

definition mr_reset_read :: "mem_reader \<Rightarrow> mem_reader" where
  "mr_reset_read r = r\<lparr>mr_buffer := mb_seekpos_in (mr_buffer r) 0\<rparr>"

definition mr_reset_write :: "mem_reader \<Rightarrow> mem_reader" where
  "mr_reset_write r = r\<lparr>mr_buffer := mb_seekpos_out (mr_buffer r) 0\<rparr>"

definition mr_read :: "mem_reader \<Rightarrow> nat \<Rightarrow> byte list \<times> mem_reader" where
  "mr_read r n =
     (case mb_sgetn (mr_buffer r) n of (bs, b) \<Rightarrow>
        (bs, r\<lparr>mr_buffer := b, mr_result := (if length bs \<noteq> n then kNo else kYes)\<rparr>))"

definition mw_write :: "(nat \<Rightarrow> bool) \<Rightarrow> (nat \<Rightarrow> byte) \<Rightarrow> mem_buf \<Rightarrow> byte list \<Rightarrow> nat \<times> mem_buf" where
  "mw_write alloc junk b data = (length data, snd (mb_xsputn alloc junk b data))"


subsection \<open>The buffer is a queue of bytes\<close>

definition mb_inv :: "mem_buf \<Rightarrow> bool" where
  "mb_inv b \<longleftrightarrow> mb_gptr b \<le> mb_egptr b \<and> mb_egptr b = mb_pptr b \<and> mb_pptr b \<le> mb_epptr b \<and>
     mb_epptr b \<le> length (mb_mem b)"

definition mb_unread :: "mem_buf \<Rightarrow> byte list" where
  "mb_unread b = drop (mb_gptr b) (take (mb_pptr b) (mb_mem b))"

definition mb_written :: "mem_buf \<Rightarrow> byte list" where
  "mb_written b = take (mb_pptr b) (mb_mem b)"

lemma mb_inv_empty [simp]: "mb_inv mb_empty"
  by (simp add: mb_inv_def mb_empty_def)

lemma length_mb_written: "mb_inv b \<Longrightarrow> length (mb_written b) = mb_Size b"
  by (simp add: mb_inv_def mb_written_def mb_Size_def)

text \<open>Growing keeps what was written and the read position.\<close>

lemma mb_SetExactCapacity_grow:
  assumes "mb_inv b" "int (mb_Size b) \<le> n" "mb_SetExactCapacity alloc junk b n = (r, b')"
  shows "mb_inv b' \<and> mb_written b' = mb_written b \<and> mb_gptr b' = mb_gptr b \<and> mb_Size b' = mb_Size b \<and>
    (r \<longrightarrow> mb_epptr b' = nat n) \<and> (0 < n \<longrightarrow> alloc (nat n) \<longrightarrow> r)"
  using assms
  by (auto simp: mb_SetExactCapacity_def mb_inv_def mb_written_def mb_Size_def mb_realloc_def Let_def min_def
      split: if_splits)

lemma block_round_up:
  fixes k :: int
  assumes "0 < k"
  shows "k \<le> ((k - 1) div kBlockSize + 1) * kBlockSize"
proof -
  have "k - 1 = (k - 1) div 1024 * 1024 + (k - 1) mod 1024" "(k - 1) mod 1024 < 1024" by simp_all
  then show ?thesis unfolding kBlockSize_def ring_distribs by linarith
qed

lemma mb_SetCapacity_grow:
  assumes "mb_inv b" "int (mb_Size b) < n" "mb_SetCapacity alloc junk b n = (r, b')"
  shows "mb_inv b' \<and> mb_written b' = mb_written b \<and> mb_gptr b' = mb_gptr b \<and> mb_Size b' = mb_Size b \<and>
    (r \<longrightarrow> nat n \<le> mb_epptr b') \<and> (alloc (nat (((n - 1) div kBlockSize + 1) * kBlockSize)) \<longrightarrow> r)"
proof -
  let ?m = "((n - 1) div kBlockSize + 1) * kBlockSize"
  have n: "0 < n" using assms(2) by linarith
  then have "n \<le> ?m" by (rule block_round_up)
  with mb_SetExactCapacity_grow [OF assms(1), of ?m alloc junk r b'] assms(2,3) n show ?thesis
    by (auto simp: mb_SetCapacity_def)
qed

lemma mb_copy_inv:
  assumes "mb_inv b" "length s \<le> mb_AvailableCapacity b"
  shows "mb_inv (mb_setg (mb_copy b s))" "mb_written (mb_copy b s) = mb_written b @ s"
    "mb_gptr (mb_copy b s) = mb_gptr b" "mb_epptr (mb_copy b s) = mb_epptr b"
  using assms
  by (auto simp: mb_inv_def mb_setg_def mb_copy_def mb_AvailableCapacity_def mb_written_def overwrite_def)

lemma mb_setg_written [simp]:
  "mb_written (mb_setg b) = mb_written b" "mb_gptr (mb_setg b) = mb_gptr b" "mb_epptr (mb_setg b) = mb_epptr b"
  "mb_setg (mb_setg b) = mb_setg b"
  by (simp_all add: mb_setg_def mb_written_def)

text \<open>A put stores a prefix; all of it when it fits.\<close>

lemma mb_put_fits:
  assumes "mb_inv b" "length s \<le> mb_AvailableCapacity b"
  shows "mb_put alloc junk b s = (length s, mb_copy b s)"
  using assms by (subst mb_put.simps) (simp add: Let_def)

lemma mb_xsputn_queue:
  assumes inv: "mb_inv b" and alloc: "\<And>n. alloc n"
  shows "mb_inv (snd (mb_xsputn alloc junk b s)) \<and> fst (mb_xsputn alloc junk b s) = length s \<and>
    mb_written (snd (mb_xsputn alloc junk b s)) = mb_written b @ s \<and>
    mb_gptr (snd (mb_xsputn alloc junk b s)) = mb_gptr b"
proof -
  define b1 where "b1 = (if length s > mb_AvailableCapacity b
    then snd (mb_SetCapacity alloc junk b (int (mb_Size b) + int (length s))) else b)"
  have b1: "mb_inv b1" "mb_written b1 = mb_written b" "mb_gptr b1 = mb_gptr b" "length s \<le> mb_AvailableCapacity b1"
  proof -
    obtain r b2 where r: "mb_SetCapacity alloc junk b (int (mb_Size b) + int (length s)) = (r, b2)" by fastforce
    have "length s > mb_AvailableCapacity b \<Longrightarrow> int (mb_Size b) < int (mb_Size b) + int (length s)" by auto
    from mb_SetCapacity_grow [OF inv this r] inv alloc r
    show "mb_inv b1" "mb_written b1 = mb_written b" "mb_gptr b1 = mb_gptr b" "length s \<le> mb_AvailableCapacity b1"
      by (auto simp: b1_def mb_AvailableCapacity_def mb_Size_def nat_add_distrib)
  qed
  have "mb_xsputn alloc junk b s = (length s, mb_setg (mb_copy b1 s))"
    unfolding mb_xsputn_def b1_def [symmetric] Let_def mb_put_fits [OF b1(1,4)] by simp
  with mb_copy_inv [OF b1(1,4)] b1(2,3) show ?thesis by simp
qed

lemma mb_sgetn_queue:
  assumes "mb_inv b"
  shows "mb_inv (snd (mb_sgetn b n)) \<and> fst (mb_sgetn b n) = take n (mb_unread b) \<and>
    mb_unread (snd (mb_sgetn b n)) = drop n (mb_unread b) \<and> mb_written (snd (mb_sgetn b n)) = mb_written b"
  using assms by (auto simp: mb_sgetn_def Let_def mb_inv_def mb_unread_def mb_written_def min_def add.commute)

lemma mb_unread_written: "mb_unread b = drop (mb_gptr b) (mb_written b)"
  by (simp add: mb_unread_def mb_written_def)

datatype mb_op = MbPut "byte list" | MbGet nat

fun mb_ops :: "(nat \<Rightarrow> byte) \<Rightarrow> mem_buf \<Rightarrow> mb_op list \<Rightarrow> byte list list" where
  "mb_ops junk b [] = []"
| "mb_ops junk b (MbPut s # ops) = mb_ops junk (snd (mb_xsputn (\<lambda>_. True) junk b s)) ops"
| "mb_ops junk b (MbGet n # ops) = (case mb_sgetn b n of (bs, b1) \<Rightarrow> bs # mb_ops junk b1 ops)"

fun queue_ops :: "byte list \<Rightarrow> mb_op list \<Rightarrow> byte list list" where
  "queue_ops q [] = []"
| "queue_ops q (MbPut s # ops) = queue_ops (q @ s) ops"
| "queue_ops q (MbGet n # ops) = take n q # queue_ops (drop n q) ops"

lemma mb_ops_queue: "mb_inv b \<Longrightarrow> mb_ops junk b ops = queue_ops (mb_unread b) ops"
proof (induction ops arbitrary: b)
  case (Cons x ops)
  show ?case
  proof (cases x)
    case (MbPut s)
    let ?b = "snd (mb_xsputn (\<lambda>_. True) junk b s)"
    have q: "mb_inv ?b" "mb_written ?b = mb_written b @ s" "mb_gptr ?b = mb_gptr b"
      using mb_xsputn_queue [OF Cons.prems, of "\<lambda>_. True" junk s] by simp_all
    moreover have "mb_gptr b \<le> length (mb_written b)"
      using Cons.prems by (simp add: length_mb_written) (simp add: mb_inv_def mb_Size_def)
    ultimately have "mb_unread ?b = mb_unread b @ s" by (simp add: mb_unread_written)
    with Cons.IH [OF q(1)] MbPut show ?thesis by simp
  next
    case (MbGet n)
    with Cons.IH [of "snd (mb_sgetn b n)"] mb_sgetn_queue [OF Cons.prems, of n] show ?thesis by (simp add: case_prod_beta)
  qed
qed simp


end
