(* ===== verification/Packet_Collector.thy ===== *)
theory Packet_Collector
  imports Memory_Buffer
begin

text \<open>
  \<^verbatim>\<open>aether/transport/data_packet_collector.cpp\<close>: packets are cut out of a stream of bytes that arrives in
  arbitrary pieces.

  The length in front of a packet is a \<^verbatim>\<open>PacketSize\<close>, a type of another package: its reader is the parameter \<open>dsz\<close>,
  and what the collector needs of it is the locale \<open>packet_header\<close>.  The loop of \<^verbatim>\<open>AddData\<close> may not end, so it is
  a partial function, with \<open>None\<close> for a call that does not return.
\<close>

definition as_streamsize :: "nat \<Rightarrow> int" where
  "as_streamsize n = (if n < 2 ^ 63 then int n else int n - 2 ^ 64)"

record Packet =
  pk_buffer :: mem_buf
  pk_expected :: nat

record collector =
  pc_packets :: "Packet list"
  pc_temp :: "byte list"

definition pk_make :: "(nat \<Rightarrow> bool) \<Rightarrow> (nat \<Rightarrow> byte) \<Rightarrow> nat \<Rightarrow> Packet" where
  "pk_make alloc junk expected_size =
     \<lparr>pk_buffer = mb_make_exact alloc junk (as_streamsize expected_size), pk_expected = expected_size\<rparr>"

definition pc_IsPacketComplete :: "Packet \<Rightarrow> bool" where
  "pc_IsPacketComplete p \<longleftrightarrow> int (mb_Size (pk_buffer p)) = as_streamsize (pk_expected p)"

definition pc_GetPacketSize :: "nat decoder \<Rightarrow> collector \<Rightarrow> byte list \<Rightarrow> (nat \<times> nat) \<times> collector" where
  "pc_GetPacketSize dsz c data =
     (let temp = pc_temp c @ take (if 8 < length data then 8 else length data) data
      in case dsz (vr_make temp) 0 of (reader, packet_size) \<Rightarrow>
           if \<not> data_was_read reader then ((0, length data), c\<lparr>pc_temp := temp\<rparr>)
           else ((packet_size, sz_sub (rd_offset reader) (length (pc_temp c))), c\<lparr>pc_temp := []\<rparr>))"

definition pc_WriteToPacket ::
  "(nat \<Rightarrow> bool) \<Rightarrow> (nat \<Rightarrow> byte) \<Rightarrow> Packet \<Rightarrow> byte list \<Rightarrow> nat \<times> Packet"
where
  "pc_WriteToPacket alloc junk p data =
     (let avail_cap = mb_AvailableCapacity (pk_buffer p);
          write_size = (if avail_cap > length data then length data else avail_cap)
      in (write_size, p\<lparr>pk_buffer := snd (mb_xsputn alloc junk (pk_buffer p) (take write_size data))\<rparr>))"

text \<open>The body of the loop: \<open>None\<close> is the early return.\<close>

definition pc_step ::
  "(nat \<Rightarrow> bool) \<Rightarrow> (nat \<Rightarrow> byte) \<Rightarrow> nat decoder \<Rightarrow> collector \<Rightarrow> byte list \<Rightarrow> collector \<times> byte list option"
where
  "pc_step alloc junk dsz c data =
     (let write = (\<lambda>c data. case pc_WriteToPacket alloc junk (last (pc_packets c)) data of (n, p) \<Rightarrow>
            (c\<lparr>pc_packets := butlast (pc_packets c) @ [p]\<rparr>, Some (drop n data)))
      in if pc_packets c = [] \<or> pc_IsPacketComplete (last (pc_packets c))
         then (case pc_GetPacketSize dsz c data of ((packet_size, ofst), c1) \<Rightarrow>
                 if packet_size = 0 then (c1, None)
                 else write (c1\<lparr>pc_packets := pc_packets c1 @ [pk_make alloc junk packet_size]\<rparr>) (drop ofst data))
         else write c data)"

partial_function (option) pc_AddData ::
  "(nat \<Rightarrow> bool) \<Rightarrow> (nat \<Rightarrow> byte) \<Rightarrow> nat decoder \<Rightarrow> collector \<Rightarrow> byte list \<Rightarrow> collector option"
where
  "pc_AddData alloc junk dsz c data =
     (if data = [] then Some c
      else case pc_step alloc junk dsz c data of
             (c1, None) \<Rightarrow> Some c1
           | (c1, Some rest) \<Rightarrow> pc_AddData alloc junk dsz c1 rest)"

definition pc_PopPacket :: "collector \<Rightarrow> byte list \<times> collector" where
  "pc_PopPacket c =
     (case pc_packets c of
        [] \<Rightarrow> ([], c)
      | p # ps \<Rightarrow>
          if \<not> pc_IsPacketComplete p then ([], c)
          else (overwrite (replicate (pk_expected p) 0) 0 (take (mb_Size (pk_buffer p)) (mb_mem (pk_buffer p))),
                c\<lparr>pc_packets := ps\<rparr>))"

definition pc_make :: collector where
  "pc_make = \<lparr>pc_packets = [], pc_temp = []\<rparr>"


subsection \<open>What the collector needs of the length in front of a packet\<close>

locale packet_header = codec dsz esz "\<lambda>n. n < lim" "\<lambda>_. True"
  for dsz :: "nat decoder" and esz :: "nat encoder" and lim :: nat +
  assumes header_short: "n < lim \<Longrightarrow> k < length (bytes_of (esz n)) \<Longrightarrow>
      \<not> data_was_read (fst (dsz (vr_make (take k (bytes_of (esz n)))) 0))"
    and header_length: "n < lim \<Longrightarrow> length (bytes_of (esz n)) \<le> 8"
    and header_nonempty: "n < lim \<Longrightarrow> bytes_of (esz n) \<noteq> []"

definition frame :: "nat encoder \<Rightarrow> byte list \<Rightarrow> byte list" where
  "frame esz p = bytes_of (esz (length p)) @ p"

definition frames :: "nat encoder \<Rightarrow> byte list list \<Rightarrow> byte list" where
  "frames esz ps = concat (map (frame esz) ps)"

lemma frames_Cons [simp]: "frames esz [] = []" "frames esz (p # ps) = frame esz p @ frames esz ps"
  by (simp_all add: frames_def)

text \<open>A packet in the queue that holds the beginning of a body.\<close>

definition pk_holds :: "Packet \<Rightarrow> byte list \<Rightarrow> nat \<Rightarrow> bool" where
  "pk_holds pk w n \<longleftrightarrow> mb_inv (pk_buffer pk) \<and> mb_written (pk_buffer pk) = w \<and> pk_expected pk = n \<and>
     mb_epptr (pk_buffer pk) = n \<and> n < 2 ^ 63"

lemma pk_holds_complete: "pk_holds pk w n \<Longrightarrow> pc_IsPacketComplete pk \<longleftrightarrow> length w = n"
  using length_mb_written [of "pk_buffer pk"] by (auto simp: pk_holds_def pc_IsPacketComplete_def as_streamsize_def)

lemma pk_make_holds: "0 < n \<Longrightarrow> n < 2 ^ 63 \<Longrightarrow> alloc n \<Longrightarrow> pk_holds (pk_make alloc junk n) [] n"
  by (simp add: pk_holds_def pk_make_def as_streamsize_def mb_make_exact_def mb_SetExactCapacity_def mb_empty_def
      mb_Size_def mb_inv_def mb_written_def mb_realloc_def)

lemma pk_write_holds:
  assumes "pk_holds pk w n" "pc_WriteToPacket alloc junk pk data = (k, pk')"
  shows "k = min (n - length w) (length data) \<and> pk_holds pk' (w @ take k data) n"
proof -
  let ?b = "pk_buffer pk" and ?s = "take k data"
  have w: "length w = mb_pptr ?b" using assms(1) length_mb_written [of ?b] by (auto simp: pk_holds_def mb_Size_def)
  have k: "k = min (n - length w) (length data)"
    using assms w by (auto simp: pc_WriteToPacket_def Let_def pk_holds_def mb_AvailableCapacity_def min_def split: if_splits)
  have s: "length ?s \<le> mb_AvailableCapacity ?b"
    using assms(1) w k by (simp add: pk_holds_def mb_AvailableCapacity_def)
  have inv: "mb_inv ?b" using assms(1) by (simp add: pk_holds_def)
  have "pk' = pk\<lparr>pk_buffer := mb_setg (mb_copy ?b ?s)\<rparr>"
    using assms(2) s mb_put_fits [OF inv s] by (auto simp: pc_WriteToPacket_def mb_xsputn_def Let_def)
  with mb_copy_inv [OF inv s] assms(1) k show ?thesis by (simp add: pk_holds_def)
qed

text \<open>The state of a collector inside a stream of framed packets: the bodies in \<open>cmp\<close> are complete in the
  queue, those in \<open>todo\<close> are not, and \<open>R\<close> is what is still to come.  Either the next header is being collected
  or the body of the first packet of \<open>todo\<close> is.\<close>

definition pc_heading :: "nat encoder \<Rightarrow> collector \<Rightarrow> Packet list \<Rightarrow> byte list list \<Rightarrow> byte list \<Rightarrow> bool" where
  "pc_heading esz c pks todo R \<longleftrightarrow> pc_packets c = pks \<and> pc_temp c @ R = frames esz todo \<and>
     (pc_temp c \<noteq> [] \<longrightarrow> (\<exists>p todo'. todo = p # todo' \<and> length (pc_temp c) < length (bytes_of (esz (length p)))))"

definition pc_filling :: "nat encoder \<Rightarrow> collector \<Rightarrow> Packet list \<Rightarrow> byte list list \<Rightarrow> byte list \<Rightarrow> bool" where
  "pc_filling esz c pks todo R \<longleftrightarrow> (\<exists>pk w p todo'. pc_packets c = pks @ [pk] \<and> pk_holds pk w (length p) \<and>
     length w < length p \<and> todo = p # todo' \<and> pc_temp c = [] \<and> p @ frames esz todo' = w @ R)"

definition pc_rel :: "nat encoder \<Rightarrow> collector \<Rightarrow> byte list list \<Rightarrow> byte list list \<Rightarrow> byte list \<Rightarrow> bool" where
  "pc_rel esz c cmp todo R \<longleftrightarrow> (\<exists>pks. list_all2 (\<lambda>pk p. pk_holds pk p (length p) \<and> p \<noteq> []) pks cmp \<and>
     (pc_heading esz c pks todo R \<or> pc_filling esz c pks todo R))"

lemma pc_rel_make: "pc_rel esz pc_make [] ps (frames esz ps)"
  by (simp add: pc_rel_def pc_heading_def pc_make_def)

text \<open>Writing into the packet that is being filled.\<close>

lemma pc_write_rel:
  assumes pks: "list_all2 (\<lambda>pk p. pk_holds pk p (length p) \<and> p \<noteq> []) pks cmp"
    and c: "pc_packets c = pks @ [pk]" "pc_temp c = []"
    and pk: "pk_holds pk w (length p)" "length w < length p" "p @ frames esz todo' = w @ data @ R"
    and wr: "pc_WriteToPacket alloc junk pk data = (n, pk')"
  shows "\<exists>cmp' todo''. pc_rel esz (c\<lparr>pc_packets := pks @ [pk']\<rparr>) cmp' todo'' (drop n data @ R) \<and>
    cmp' @ todo'' = cmp @ p # todo'"
    and "data \<noteq> [] \<Longrightarrow> 0 < n"
proof -
  have n: "n = min (length p - length w) (length data)" and pk': "pk_holds pk' (w @ take n data) (length p)"
    using pk_write_holds [OF pk(1) wr] by auto
  then show "data \<noteq> [] \<Longrightarrow> 0 < n" using pk(2) by simp
  show "\<exists>cmp' todo''. pc_rel esz (c\<lparr>pc_packets := pks @ [pk']\<rparr>) cmp' todo'' (drop n data @ R) \<and>
    cmp' @ todo'' = cmp @ p # todo'"
  proof (cases "length w + n = length p")
    case True
    then have "length p = length (w @ take n data)" using n by simp
    moreover have "p @ frames esz todo' = (w @ take n data) @ drop n data @ R" using pk(3) by simp
    ultimately have "p = w @ take n data" "frames esz todo' = drop n data @ R"
      using append_eq_append_conv [of p "w @ take n data"] by blast+
    then have "pc_rel esz (c\<lparr>pc_packets := pks @ [pk']\<rparr>) (cmp @ [p]) todo' (drop n data @ R)"
      unfolding pc_rel_def pc_heading_def using pks pk' pk(2) c
      by (intro exI [of _ "pks @ [pk']"]) (auto intro: list_all2_appendI)
    then show ?thesis by (intro exI [of _ "cmp @ [p]"] exI [of _ todo']) simp
  next
    case False
    then have len: "n = length data" "length w + length data < length p"
      using n pk(2) by (auto simp: min_def split: if_splits)
    have "pc_filling esz (c\<lparr>pc_packets := pks @ [pk']\<rparr>) pks (p # todo') (drop n data @ R)"
      unfolding pc_filling_def using c pk' pk(3) len
      by (intro exI [of _ pk'] exI [of _ "w @ data"] exI [of _ p] exI [of _ todo']) simp
    then have "pc_rel esz (c\<lparr>pc_packets := pks @ [pk']\<rparr>) cmp (p # todo') (drop n data @ R)"
      unfolding pc_rel_def using pks by blast
    then show ?thesis by blast
  qed
qed

definition packet_fits :: "(nat \<Rightarrow> bool) \<Rightarrow> nat \<Rightarrow> byte list \<Rightarrow> bool" where
  "packet_fits alloc lim p \<longleftrightarrow> p \<noteq> [] \<and> length p < lim \<and> length p < 2 ^ 63 \<and> alloc (length p)"

lemma header_split:
  assumes "temp @ d @ R = h @ rest" "length h \<le> length temp + length d" "length temp < length h"
  shows "temp @ d = h @ drop (length h - length temp) d \<and> drop (length h - length temp) d @ R = rest"
proof -
  have "(temp @ d) @ R = h @ rest" using assms(1) by simp
  then obtain us where "temp @ d = h @ us \<and> us @ R = rest \<or> (temp @ d) @ us = h \<and> R = us @ rest"
    unfolding append_eq_append_conv2 by blast
  with assms(2) have us: "temp @ d = h @ us" "us @ R = rest" by auto
  have "us = drop (length h - length temp) d" using arg_cong [OF us(1), of "drop (length h)"] assms(3) by simp
  then show ?thesis using us by simp
qed

context packet_header
begin

text \<open>A header that is complete is read with the bytes of the data that belong to it, whatever follows.\<close>

lemma header_read:
  assumes "n < lim" "temp @ data = bytes_of (esz n) @ rest" "length temp < length (bytes_of (esz n))"
    and "length (bytes_of (esz n)) \<le> length temp + length data"
  shows "dsz (vr_make (temp @ take (if 8 < length data then 8 else length data) data)) 0 =
    (rd_skip (vr_make (temp @ take (if 8 < length data then 8 else length data) data)) (length (bytes_of (esz n))), n)"
proof -
  let ?k = "if 8 < length data then 8 else length data" and ?h = "bytes_of (esz n)"
  have h8: "length ?h \<le> 8" using header_length assms(1) by simp
  have "temp @ take ?k data = take (length temp + ?k) (?h @ rest)" using assms(2) [symmetric] by simp
  then have "take (length ?h) (temp @ take ?k data) = ?h" using h8 assms(3,4) by simp
  moreover have "length (temp @ take ?k data) < size_mod" using h8 assms(3) by simp
  ultimately show ?thesis
    using assms(1) by (intro decode_encode) (simp_all add: rd_at_def vr_make_def)
qed

lemma pc_step_heading:
  assumes pks: "list_all2 (\<lambda>pk p. pk_holds pk p (length p) \<and> p \<noteq> []) pks cmp"
    and hd: "pc_heading esz c pks todo (d @ R)" and d: "d \<noteq> []" and fits: "\<forall>p \<in> set todo. packet_fits alloc lim p"
  shows "pc_step alloc junk dsz c d = (c', None) \<Longrightarrow> pc_rel esz c' cmp todo R"
    and "pc_step alloc junk dsz c d = (c', Some rest) \<Longrightarrow> length rest < length d \<and>
      (\<exists>cmp' todo'. pc_rel esz c' cmp' todo' (rest @ R) \<and> cmp' @ todo' = cmp @ todo)"
proof -
  let ?t = "pc_temp c" and ?k = "if 8 < length d then 8 else length d"
  from hd d obtain p todo' where todo: "todo = p # todo'" by (cases todo) (auto simp: pc_heading_def)
  let ?h = "bytes_of (esz (length p))"
  have p: "length p < lim" "p \<noteq> []" "length p < 2 ^ 63" "alloc (length p)" using fits todo by (auto simp: packet_fits_def)
  have short: "length ?t < length ?h" using hd todo header_nonempty [OF p(1)] by (cases "?t = []") (auto simp: pc_heading_def)
  have h8: "length ?h \<le> 8" using header_length p(1) by simp
  have eq: "?t @ d @ R = ?h @ p @ frames esz todo'" using hd todo by (simp add: pc_heading_def frame_def)
  have new: "pc_packets c = [] \<or> pc_IsPacketComplete (last (pc_packets c))"
  proof (cases pks rule: rev_cases)
    case (snoc ys y)
    with pks obtain q where "pk_holds y q (length q)" by (auto simp: list_all2_append1 list_all2_Cons1)
    with snoc hd pk_holds_complete [of y q] show ?thesis by (auto simp: pc_heading_def)
  qed (use hd in \<open>simp add: pc_heading_def\<close>)
  have "(pc_step alloc junk dsz c d = (c', None) \<longrightarrow> pc_rel esz c' cmp todo R) \<and>
    (pc_step alloc junk dsz c d = (c', Some rest) \<longrightarrow> length rest < length d \<and>
      (\<exists>cmp' todo'. pc_rel esz c' cmp' todo' (rest @ R) \<and> cmp' @ todo' = cmp @ todo))"
  proof (cases "length ?h \<le> length ?t + length d")
    case True
    let ?o = "length ?h - length ?t"
    note sp = header_split [OF eq True short]
    have "pc_GetPacketSize dsz c d = ((length p, ?o), c\<lparr>pc_temp := []\<rparr>)"
      using header_read [OF p(1) sp [THEN conjunct1] short True] short h8
      by (simp add: pc_GetPacketSize_def Let_def rd_skip_def vr_make_def data_was_read_def size_simps)
    moreover obtain n pk' where wr: "pc_WriteToPacket alloc junk (pk_make alloc junk (length p)) (drop ?o d) = (n, pk')"
      by fastforce
    ultimately have st: "pc_step alloc junk dsz c d = (c\<lparr>pc_temp := [], pc_packets := pks @ [pk']\<rparr>, Some (drop n (drop ?o d)))"
      using new p(2) hd by (simp add: pc_step_def Let_def pc_heading_def)
    have "length (drop n (drop ?o d)) < length d"
      using short length_greater_0_conv [THEN iffD2, OF d] unfolding length_drop by linarith
    moreover have "\<exists>cmp' todo''. pc_rel esz (c\<lparr>pc_temp := [], pc_packets := pks @ [pk']\<rparr>) cmp' todo'' (drop n (drop ?o d) @ R) \<and>
        cmp' @ todo'' = cmp @ p # todo'"
      using pc_write_rel(1) [OF pks, of "c\<lparr>pc_temp := [], pc_packets := pks @ [pk_make alloc junk (length p)]\<rparr>",
          OF _ _ pk_make_holds _ _ wr] p sp by simp
    ultimately show ?thesis unfolding st todo by auto
  next
    case False
    have "?t @ d = take (length ?t + length d) ?h"
      using False arg_cong [OF eq, of "take (length ?t + length d)"] by simp
    then have "\<not> data_was_read (fst (dsz (vr_make (?t @ d)) 0))"
      using header_short [OF p(1), of "length ?t + length d"] False by simp
    moreover have "take ?k d = d" using False h8 by simp
    ultimately have "pc_GetPacketSize dsz c d = ((0, length d), c\<lparr>pc_temp := ?t @ d\<rparr>)"
      by (auto simp: pc_GetPacketSize_def Let_def split: prod.splits)
    then have "pc_step alloc junk dsz c d = (c\<lparr>pc_temp := ?t @ d\<rparr>, None)" using new by (simp add: pc_step_def Let_def)
    moreover have "pc_heading esz (c\<lparr>pc_temp := ?t @ d\<rparr>) pks todo R"
      using hd todo False by (simp add: pc_heading_def)
    ultimately show ?thesis using pks by (auto simp: pc_rel_def)
  qed
  then show "pc_step alloc junk dsz c d = (c', None) \<Longrightarrow> pc_rel esz c' cmp todo R"
    "pc_step alloc junk dsz c d = (c', Some rest) \<Longrightarrow> length rest < length d \<and>
      (\<exists>cmp' todo'. pc_rel esz c' cmp' todo' (rest @ R) \<and> cmp' @ todo' = cmp @ todo)" by blast+
qed

lemma pc_step_filling:
  assumes pks: "list_all2 (\<lambda>pk p. pk_holds pk p (length p) \<and> p \<noteq> []) pks cmp"
    and fl: "pc_filling esz c pks todo (d @ R)" and d: "d \<noteq> []"
  shows "\<exists>c' rest cmp' todo'. pc_step alloc junk dsz c d = (c', Some rest) \<and> length rest < length d \<and>
    pc_rel esz c' cmp' todo' (rest @ R) \<and> cmp' @ todo' = cmp @ todo"
proof -
  obtain pk w p todo' where f: "pc_packets c = pks @ [pk]" "pk_holds pk w (length p)" "length w < length p"
    "todo = p # todo'" "pc_temp c = []" "p @ frames esz todo' = w @ d @ R" using fl unfolding pc_filling_def by blast
  obtain n pk' where wr: "pc_WriteToPacket alloc junk pk d = (n, pk')" by fastforce
  note w = pc_write_rel [OF pks f(1,5,2,3,6) wr]
  have "pc_step alloc junk dsz c d = (c\<lparr>pc_packets := pks @ [pk']\<rparr>, Some (drop n d))"
    using f wr pk_holds_complete [OF f(2)] by (simp add: pc_step_def Let_def)
  moreover have "length (drop n d) < length d" using w(2) d by (cases d) auto
  ultimately show ?thesis using w(1) f(4) by blast
qed

text \<open>A call of \<^verbatim>\<open>AddData\<close> returns, and only the next bytes of the stream are consumed.\<close>

lemma pc_AddData_rel:
  assumes "pc_rel esz c cmp todo (d @ R)" "\<forall>p \<in> set (cmp @ todo). packet_fits alloc lim p"
  shows "\<exists>c' cmp' todo'. pc_AddData alloc junk dsz c d = Some c' \<and> pc_rel esz c' cmp' todo' R \<and>
    cmp' @ todo' = cmp @ todo"
  using assms
proof (induction "length d" arbitrary: c d cmp todo rule: less_induct)
  case less
  show ?case
  proof (cases "d = []")
    case True
    with less.prems show ?thesis by (subst pc_AddData.simps) auto
  next
    case False
    obtain c1 r where st: "pc_step alloc junk dsz c d = (c1, r)" by fastforce
    from less.prems(1) obtain pks where pks: "list_all2 (\<lambda>pk p. pk_holds pk p (length p) \<and> p \<noteq> []) pks cmp"
      and ph: "pc_heading esz c pks todo (d @ R) \<or> pc_filling esz c pks todo (d @ R)" by (auto simp: pc_rel_def)
    have fits: "\<forall>p \<in> set todo. packet_fits alloc lim p" using less.prems(2) by simp
    show ?thesis
    proof (cases r)
      case None
      then have "pc_rel esz c1 cmp todo R"
        using ph st pc_step_heading(1) [OF pks _ False fits] pc_step_filling [OF pks _ False, of c todo R alloc junk] by auto
      with None st False show ?thesis by (subst pc_AddData.simps) auto
    next
      case (Some rest)
      have "length rest < length d \<and> (\<exists>cmp' todo'. pc_rel esz c1 cmp' todo' (rest @ R) \<and> cmp' @ todo' = cmp @ todo)"
        using ph st Some pc_step_heading(2) [OF pks _ False fits] pc_step_filling [OF pks _ False, of c todo R alloc junk] by auto
      then obtain cmp' todo' where n: "length rest < length d" "pc_rel esz c1 cmp' todo' (rest @ R)"
        "cmp' @ todo' = cmp @ todo" by blast
      from less.hyps [OF n(1,2)] less.prems(2) n(3) obtain c' d' t' where
        "pc_AddData alloc junk dsz c1 rest = Some c'" "pc_rel esz c' d' t' R" "d' @ t' = cmp @ todo" by auto
      with Some st False show ?thesis by (subst pc_AddData.simps) auto
    qed
  qed
qed

end

lemma pc_PopPacket_rel:
  assumes "pc_rel esz c cmp todo R"
  shows "cmp = [] \<Longrightarrow> pc_PopPacket c = ([], c)"
    and "cmp = p # cmp' \<Longrightarrow> fst (pc_PopPacket c) = p \<and> pc_rel esz (snd (pc_PopPacket c)) cmp' todo R"
proof -
  from assms obtain pks where pks: "list_all2 (\<lambda>pk p. pk_holds pk p (length p) \<and> p \<noteq> []) pks cmp"
    and ph: "pc_heading esz c pks todo R \<or> pc_filling esz c pks todo R" by (auto simp: pc_rel_def)
  show "pc_PopPacket c = ([], c)" if "cmp = []"
    using that pks ph pk_holds_complete by (fastforce simp: pc_PopPacket_def pc_heading_def pc_filling_def)
  show "fst (pc_PopPacket c) = p \<and> pc_rel esz (snd (pc_PopPacket c)) cmp' todo R" if cmp: "cmp = p # cmp'"
  proof -
    obtain pk pks' where pk: "pks = pk # pks'" "pk_holds pk p (length p)" "p \<noteq> []"
      "list_all2 (\<lambda>pk p. pk_holds pk p (length p) \<and> p \<noteq> []) pks' cmp'" using pks cmp by (auto simp: list_all2_Cons2)
    obtain more where c: "pc_packets c = pk # pks' @ more" using ph pk(1) by (auto simp: pc_heading_def pc_filling_def)
    have "take (mb_Size (pk_buffer pk)) (mb_mem (pk_buffer pk)) = p" "pk_expected pk = length p"
      using pk(2) by (auto simp: pk_holds_def mb_written_def mb_Size_def)
    then have pop: "pc_PopPacket c = (p, c\<lparr>pc_packets := pks' @ more\<rparr>)"
      using c pk_holds_complete [OF pk(2)] by (simp add: pc_PopPacket_def overwrite_def)
    have "pc_heading esz (c\<lparr>pc_packets := pks' @ more\<rparr>) pks' todo R \<or> pc_filling esz (c\<lparr>pc_packets := pks' @ more\<rparr>) pks' todo R"
      using ph c pk(1) by (auto simp: pc_heading_def pc_filling_def)
    with pop pk(4) show ?thesis by (auto simp: pc_rel_def)
  qed
qed


subsection \<open>Properties\<close>

text \<open>Calls of a collector: pieces of the stream and requests for a packet, whose non-empty answers are
  collected; and the packets that can be popped at the end.\<close>

datatype pc_call = Feed "byte list" | Pop

fun pc_run :: "(nat \<Rightarrow> bool) \<Rightarrow> (nat \<Rightarrow> byte) \<Rightarrow> nat decoder \<Rightarrow> collector \<Rightarrow> pc_call list \<Rightarrow> (byte list list \<times> collector) option" where
  "pc_run alloc junk dsz c [] = Some ([], c)"
| "pc_run alloc junk dsz c (Feed d # cs) =
     (case pc_AddData alloc junk dsz c d of None \<Rightarrow> None | Some c1 \<Rightarrow> pc_run alloc junk dsz c1 cs)"
| "pc_run alloc junk dsz c (Pop # cs) =
     (case pc_PopPacket c of (p, c1) \<Rightarrow>
        case pc_run alloc junk dsz c1 cs of None \<Rightarrow> None
        | Some (ps, c2) \<Rightarrow> Some (if p = [] then ps else p # ps, c2))"

fun fed :: "pc_call list \<Rightarrow> byte list" where
  "fed [] = []"
| "fed (Feed d # cs) = d @ fed cs"
| "fed (Pop # cs) = fed cs"

primrec pc_drain :: "nat \<Rightarrow> collector \<Rightarrow> byte list list" where
  "pc_drain 0 c = []"
| "pc_drain (Suc n) c = (case pc_PopPacket c of (p, c1) \<Rightarrow> if p = [] then [] else p # pc_drain n c1)"

lemma pc_drain_rel: "pc_rel esz c cmp todo R \<Longrightarrow> \<forall>p \<in> set cmp. p \<noteq> [] \<Longrightarrow> length cmp \<le> n \<Longrightarrow> pc_drain n c = cmp"
proof (induction n arbitrary: c cmp)
  case (Suc n)
  show ?case
  proof (cases cmp)
    case Nil
    then show ?thesis using pc_PopPacket_rel(1) [OF Suc.prems(1)] by simp
  next
    case (Cons p ps)
    then have "fst (pc_PopPacket c) = p \<and> pc_rel esz (snd (pc_PopPacket c)) ps todo R"
      using pc_PopPacket_rel(2) [OF Suc.prems(1)] by blast
    with Suc.IH [of "snd (pc_PopPacket c)" ps] Suc.prems Cons show ?thesis by (simp add: case_prod_beta)
  qed
qed simp

lemma pc_run_rel:
  assumes h: "packet_header dsz esz lim"
  shows "pc_rel esz c cmp todo (fed cs @ R) \<Longrightarrow> \<forall>p \<in> set (cmp @ todo). packet_fits alloc lim p \<Longrightarrow>
    \<exists>outs c' cmp' todo'. pc_run alloc junk dsz c cs = Some (outs, c') \<and> pc_rel esz c' cmp' todo' R \<and>
      outs @ cmp' @ todo' = cmp @ todo"
proof (induction cs arbitrary: c cmp todo)
  case (Cons x cs)
  show ?case
  proof (cases x)
    case (Feed d)
    with Cons.prems(1) have "pc_rel esz c cmp todo (d @ fed cs @ R)" by simp
    from packet_header.pc_AddData_rel [OF h this Cons.prems(2), of junk] obtain c1 d1 t1
      where a: "pc_AddData alloc junk dsz c d = Some c1" "pc_rel esz c1 d1 t1 (fed cs @ R)" "d1 @ t1 = cmp @ todo" by blast
    from Cons.IH [OF a(2)] Cons.prems(2) a(3) obtain outs c' d' t' where
      "pc_run alloc junk dsz c1 cs = Some (outs, c')" "pc_rel esz c' d' t' R" "outs @ d' @ t' = cmp @ todo" by auto
    then show ?thesis using a(1) Feed by (intro exI [of _ outs] exI [of _ c'] exI [of _ d'] exI [of _ t']) simp
  next
    case Pop
    show ?thesis
    proof (cases cmp)
      case Nil
      then show ?thesis using Cons Pop pc_PopPacket_rel(1) [of esz c cmp todo] by (fastforce split: option.splits)
    next
      case (Cons p ps)
      have r: "fst (pc_PopPacket c) = p" "pc_rel esz (snd (pc_PopPacket c)) ps todo (fed cs @ R)"
        using pc_PopPacket_rel(2) [OF Cons.prems(1) Cons] Pop by auto
      have "p \<noteq> []" using Cons.prems(2) Cons by (simp add: packet_fits_def)
      from Cons.IH [OF r(2)] Cons.prems(2) Cons obtain outs c' d' t' where
        "pc_run alloc junk dsz (snd (pc_PopPacket c)) cs = Some (outs, c')" "pc_rel esz c' d' t' R" "outs @ d' @ t' = ps @ todo" by auto
      then show ?thesis using r(1) Pop Cons \<open>p \<noteq> []\<close>
        by (intro exI [of _ "p # outs"] exI [of _ c'] exI [of _ d'] exI [of _ t']) (simp add: case_prod_beta)
    qed
  qed
qed auto

interpretation u32_header: packet_header "dec_arith 4" "enc_arith 4" "2 ^ 32"
proof (intro packet_header.intro size_codec_u32 packet_header_axioms.intro)
  show "\<not> data_was_read (fst (dec_arith 4 (vr_make (take k (bytes_of (enc_arith 4 n)))) 0))"
    if "k < length (bytes_of (enc_arith 4 n))" for n k
    using that by (simp add: enc_arith_def dec_arith_def vr_read_def vr_make_def data_was_read_def size_simps)
qed (simp_all add: enc_arith_def le_bytes_numeral)

lemma pc_rel_end:
  assumes h: "packet_header dsz esz lim" and fits: "\<forall>p \<in> set todo. packet_fits alloc lim p" and rel: "pc_rel esz c cmp todo []"
  shows "todo = []"
proof (rule ccontr)
  assume "todo \<noteq> []"
  then obtain p todo' where todo: "todo = p # todo'" by (cases todo) auto
  then have "bytes_of (esz (length p)) \<noteq> []"
    using packet_header.header_nonempty [OF h] fits by (auto simp: packet_fits_def)
  then show False using rel todo by (auto simp: pc_rel_def pc_heading_def pc_filling_def frame_def)
qed

text \<open>(C2) Framing survives fragmentation: however the bytes of framed packets are cut into pieces, and
  however requests for packets are mixed in, every call returns and the packets come out complete, in
  order and without anything else, for every format of the length that meets \<open>packet_header\<close>.\<close>

theorem packets_survive_fragmentation:
  assumes "packet_header dsz esz lim" "\<forall>p \<in> set ps. packet_fits alloc lim p" "fed cs = frames esz ps"
  shows "\<exists>outs c. pc_run alloc junk dsz pc_make cs = Some (outs, c) \<and> outs @ pc_drain (length ps) c = ps"
proof -
  have "pc_rel esz pc_make [] ps (fed cs @ [])" using assms(3) pc_rel_make [of esz ps] by simp
  from pc_run_rel [OF assms(1) this, of alloc junk] assms(2) obtain outs c cmp todo where
    r: "pc_run alloc junk dsz pc_make cs = Some (outs, c)" "pc_rel esz c cmp todo []" "outs @ cmp @ todo = ps" by auto
  then have "\<forall>p \<in> set (cmp @ todo). packet_fits alloc lim p" using assms(2) by auto
  moreover from this have "todo = []" using pc_rel_end [OF assms(1) _ r(2)] by auto
  ultimately have "pc_drain (length ps) c = cmp" using r by (intro pc_drain_rel [OF r(2)]) (auto simp: packet_fits_def)
  with r \<open>todo = []\<close> show ?thesis by auto
qed

theorem packets_survive_fragmentation_witness:
  "\<exists>outs c. pc_run (\<lambda>_. True) (\<lambda>_. 0) (dec_arith 4) pc_make [Feed [2, 0], Pop, Feed [0, 0, 7, 8, 1], Feed [0, 0, 0], Pop, Feed [9]] =
     Some (outs, c) \<and> outs @ pc_drain (Suc (Suc 0)) c = [[7, 8], [9]]"
  using packets_survive_fragmentation [OF u32_header.packet_header_axioms, of "[[7, 8], [9]]" "\<lambda>_. True"
      "[Feed [2, 0], Pop, Feed [0, 0, 7, 8, 1], Feed [0, 0, 0], Pop, Feed [9]]" "\<lambda>_. 0"]
  by (simp add: packet_fits_def frame_def enc_arith_def le_bytes_numeral del: pc_run.simps pc_drain.simps)

text \<open>A state that a round of the loop does not change is never left.\<close>

lemma pc_AddData_stuck:
  assumes "pc_step alloc junk dsz c d = (c, Some d)" "d \<noteq> []"
  shows "pc_AddData alloc junk dsz c d = None"
proof -
  have "\<not> (pc_step alloc junk dsz c d = (c, Some d) \<and> d \<noteq> [])" if "pc_AddData alloc junk dsz c d = Some r" for r
    by (rule pc_AddData.raw_induct [of "\<lambda>alloc junk dsz c d r. \<not> (pc_step alloc junk dsz c d = (c, Some d) \<and> d \<noteq> [])", OF _ that])
      (auto split: if_splits prod.splits option.splits)
  with assms show ?thesis by (cases "pc_AddData alloc junk dsz c d") auto
qed

text \<open>(C21) A length for which no memory is allocated (also any length of \<open>2 ^ 63\<close> or more, which becomes
  negative) hangs the client: \<^verbatim>\<open>AddData\<close> does not return when anything follows the length.\<close>

theorem unallocated_packet_never_returns:
  assumes h: "packet_header dsz esz lim" and n: "n < lim" "0 < n" "n < size_mod" "\<not> alloc n \<or> 2 ^ 63 \<le> n" and d: "d \<noteq> []"
  shows "pc_AddData alloc junk dsz pc_make (bytes_of (esz n) @ d) = None"
proof -
  let ?h = "bytes_of (esz n)"
  define c1 where "c1 = \<lparr>pc_packets = [\<lparr>pk_buffer = mb_empty, pk_expected = n\<rparr>], pc_temp = []\<rparr>"
  have pk: "pk_make alloc junk n = \<lparr>pk_buffer = mb_empty, pk_expected = n\<rparr>"
    using n by (auto simp: pk_make_def mb_make_exact_def mb_SetExactCapacity_def as_streamsize_def)
  have wr: "pc_WriteToPacket alloc junk \<lparr>pk_buffer = mb_empty, pk_expected = n\<rparr> x = (0, \<lparr>pk_buffer = mb_empty, pk_expected = n\<rparr>)" for x
    by (simp add: pc_WriteToPacket_def Let_def mb_xsputn_def mb_put_fits mb_AvailableCapacity_def mb_copy_def mb_setg_def
        mb_empty_def overwrite_def)
  have "pc_GetPacketSize dsz pc_make (?h @ d) = ((n, length ?h), pc_make)"
    using packet_header.header_read [OF h n(1), of "[]" "?h @ d" d] packet_header.header_length [OF h n(1)]
      packet_header.header_nonempty [OF h n(1)]
    by (simp add: pc_GetPacketSize_def Let_def pc_make_def rd_skip_def vr_make_def data_was_read_def size_simps)
  then have "pc_step alloc junk dsz pc_make (?h @ d) = (c1, Some d)"
    using n(2) pk wr by (simp add: pc_step_def Let_def pc_make_def c1_def)
  moreover have "pc_step alloc junk dsz c1 d = (c1, Some d)"
    using n wr by (simp add: pc_step_def Let_def c1_def pc_IsPacketComplete_def mb_Size_def mb_empty_def as_streamsize_def)
  ultimately show ?thesis using d pc_AddData_stuck [of alloc junk dsz c1 d] by (subst pc_AddData.simps) simp
qed

theorem unallocated_packet_never_returns_witness:
  "pc_AddData (\<lambda>n. n < 100) (\<lambda>_. 0) (dec_arith 4) pc_make [200, 0, 0, 0, 1] = None"
  using unallocated_packet_never_returns [OF u32_header.packet_header_axioms, of 200 "\<lambda>n. n < 100" "[1]" "\<lambda>_. 0"]
  by (simp add: enc_arith_def le_bytes_numeral)

end
