(* ===== verification/Tasks.thy ===== *)
theory Tasks
  imports Aether_Prelude "HOL-Library.Sublist" "HOL-Library.Multiset"
begin

text \<open>
  \<^verbatim>\<open>aether/tasks/details/\<close>: the task queues, the task manager, task subscriptions and the manual scheduler that
  drives the whole client.

  Tasks live in a pool and are known by their address, a number that is never used twice.  A subscription
  holds the address of a task and the task holds the address of its subscription, so cancelling and
  destroying update each other; both directions are part of the state.  A callback is a value of a type
  \<open>'f\<close>, and \<open>calls\<close> gives the calls to the scheduler and to subscriptions it makes when invoked.  Time points are
  numbers.  Mutual exclusion of the two entry points is taken for granted.
\<close>

datatype active = kMagic | Cancelled | Owner nat

record 'f task =
  tk_active :: active
  tk_body :: 'f
  tk_expire_at :: nat

record 'f scheduler =
  ts_pool :: "(nat \<times> 'f task) list"
  ts_next :: nat
  ts_regular :: "nat list"
  ts_delayed :: "nat list"
  ts_reg_list :: "nat list"
  ts_delay_list :: "nat list"
  ts_trigger :: bool
  ts_overflow :: nat
  ts_subs :: "nat \<Rightarrow> nat option"

definition ts_make :: "'f scheduler" where
  "ts_make = \<lparr>ts_pool = [], ts_next = 0, ts_regular = [], ts_delayed = [], ts_reg_list = [], ts_delay_list = [],
     ts_trigger = False, ts_overflow = 0, ts_subs = (\<lambda>_. None)\<rparr>"

abbreviation ts_task :: "'f scheduler \<Rightarrow> nat \<Rightarrow> 'f task option" where
  "ts_task st p \<equiv> map_of (ts_pool st) p"

definition ts_set_active :: "'f scheduler \<Rightarrow> nat \<Rightarrow> active \<Rightarrow> 'f scheduler" where
  "ts_set_active st p a = st\<lparr>ts_pool := map (\<lambda>(k, t). (k, if k = p then t\<lparr>tk_active := a\<rparr> else t)) (ts_pool st)\<rparr>"

text \<open>The destructor of a task unlinks its subscription.\<close>

definition ts_destroy :: "'f scheduler \<Rightarrow> nat \<Rightarrow> 'f scheduler" where
  "ts_destroy st p =
     (let st1 = (case ts_task st p of
                   Some t \<Rightarrow> (case tk_active t of Owner s \<Rightarrow> st\<lparr>ts_subs := (ts_subs st)(s := None)\<rparr> | _ \<Rightarrow> st)
                 | None \<Rightarrow> st)
      in st1\<lparr>ts_pool := filter (\<lambda>(k, t). k \<noteq> p) (ts_pool st1)\<rparr>)"

definition ts_Free :: "'f scheduler \<Rightarrow> nat list \<Rightarrow> 'f scheduler" where
  "ts_Free st elements = foldl ts_destroy st elements"


subsection \<open>Queues\<close>

definition tq_Add :: "nat \<Rightarrow> nat list \<Rightarrow> nat \<Rightarrow> bool \<times> nat list" where
  "tq_Add cap q p = (if length q = cap then (False, q) else (True, q @ [p]))"

definition tq_StealTasks :: "nat \<Rightarrow> nat list \<Rightarrow> nat list \<Rightarrow> nat list \<times> nat list" where
  "tq_StealTasks max_count q to =
     (let n = (if length q > max_count then max_count else length q) in (to @ take n q, drop n q))"

text \<open>The search from the back for a task that expires later, and the insertion behind it.\<close>

definition dq_Add :: "nat \<Rightarrow> (nat \<Rightarrow> nat) \<Rightarrow> nat list \<Rightarrow> nat \<Rightarrow> bool \<times> nat list" where
  "dq_Add cap expire q p =
     (if length q = cap then (False, q)
      else (let n = length q - length (takeWhile (\<lambda>e. \<not> expire p < expire e) (rev q))
            in (True, take n q @ [p] @ drop n q)))"

fun dq_scan :: "(nat \<Rightarrow> nat) \<Rightarrow> nat \<Rightarrow> nat \<Rightarrow> nat \<Rightarrow> nat list \<Rightarrow> nat" where
  "dq_scan expire now max_count cnt [] = 0"
| "dq_scan expire now max_count cnt (e # es) =
     (if expire e \<le> now \<and> cnt + 1 \<le> max_count then Suc (dq_scan expire now max_count (cnt + 1) es) else 0)"

definition dq_StealTasks :: "nat \<Rightarrow> (nat \<Rightarrow> nat) \<Rightarrow> nat \<Rightarrow> nat list \<Rightarrow> nat list \<Rightarrow> nat list \<times> nat list" where
  "dq_StealTasks max_count expire now q to =
     (let n = dq_scan expire now max_count 0 (rev q)
      in if n = 0 then (to, q) else (to @ drop (length q - n) q, take (length q - n) q))"


subsection \<open>Task manager\<close>

definition ts_expire :: "'f scheduler \<Rightarrow> nat \<Rightarrow> nat" where
  "ts_expire st p = (case ts_task st p of Some t \<Rightarrow> tk_expire_at t | None \<Rightarrow> 0)"

text \<open>\<^verbatim>\<open>Emplace\<close> creates the task in the pool and adds it to a list, or destroys it again.\<close>

definition tm_create :: "'f scheduler \<Rightarrow> 'f \<Rightarrow> nat \<Rightarrow> nat \<times> 'f scheduler" where
  "tm_create st f tp =
     (ts_next st, st\<lparr>ts_pool := (ts_next st, \<lparr>tk_active = kMagic, tk_body = f, tk_expire_at = tp\<rparr>) # ts_pool st,
                    ts_next := ts_next st + 1\<rparr>)"

definition tm_Task :: "nat \<Rightarrow> 'f scheduler \<Rightarrow> 'f \<Rightarrow> nat option \<times> 'f scheduler" where
  "tm_Task cap st f =
     (if length (ts_pool st) = cap then (None, st)
      else case tm_create st f 0 of (p, st1) \<Rightarrow>
        case tq_Add cap (ts_regular st1) p of
          (False, _) \<Rightarrow> (None, ts_destroy st1 p)
        | (True, q) \<Rightarrow> (Some p, st1\<lparr>ts_regular := q\<rparr>))"

definition tm_DelayedTask :: "nat \<Rightarrow> 'f scheduler \<Rightarrow> 'f \<Rightarrow> nat \<Rightarrow> nat option \<times> 'f scheduler" where
  "tm_DelayedTask cap st f tp =
     (if length (ts_pool st) = cap then (None, st)
      else case tm_create st f tp of (p, st1) \<Rightarrow>
        case dq_Add cap (ts_expire st1) (ts_delayed st1) p of
          (False, _) \<Rightarrow> (None, ts_destroy st1 p)
        | (True, q) \<Rightarrow> (Some p, st1\<lparr>ts_delayed := q\<rparr>))"


subsection \<open>Subscriptions\<close>

definition sub_Reset :: "'f scheduler \<Rightarrow> nat \<Rightarrow> 'f scheduler" where
  "sub_Reset st s =
     (let st1 = (case ts_subs st s of Some p \<Rightarrow> ts_set_active st p Cancelled | None \<Rightarrow> st)
      in st1\<lparr>ts_subs := (ts_subs st1)(s := None)\<rparr>)"

definition sub_assign :: "'f scheduler \<Rightarrow> nat \<Rightarrow> nat option \<Rightarrow> 'f scheduler" where
  "sub_assign st s p =
     (let st1 = sub_Reset st s; st2 = st1\<lparr>ts_subs := (ts_subs st1)(s := p)\<rparr>
      in case p of Some t \<Rightarrow> ts_set_active st2 t (Owner s) | None \<Rightarrow> st2)"

definition sub_move :: "'f scheduler \<Rightarrow> nat \<Rightarrow> nat \<Rightarrow> 'f scheduler" where
  "sub_move st s other =
     (if s = other then st
      else (let st1 = sub_Reset st s;
                st2 = st1\<lparr>ts_subs := (ts_subs st1)(s := ts_subs st1 other, other := None)\<rparr>
            in case ts_subs st2 s of Some t \<Rightarrow> ts_set_active st2 t (Owner s) | None \<Rightarrow> st2))"

definition sub_active :: "'f scheduler \<Rightarrow> nat \<Rightarrow> bool" where
  "sub_active st s =
     (case ts_subs st s of
        None \<Rightarrow> False
      | Some p \<Rightarrow> (case ts_task st p of Some t \<Rightarrow> tk_active t \<noteq> Cancelled | None \<Rightarrow> False))"


subsection \<open>Scheduler\<close>

definition sch_AddSafe :: "nat option \<times> 'f scheduler \<Rightarrow> nat option \<times> 'f scheduler" where
  "sch_AddSafe r =
     (case r of (p, st) \<Rightarrow>
        (p, st\<lparr>ts_overflow := (if p = None then ts_overflow st + 1 else ts_overflow st), ts_trigger := True\<rparr>))"

definition sch_Task :: "nat \<Rightarrow> 'f scheduler \<Rightarrow> 'f \<Rightarrow> nat option \<times> 'f scheduler" where
  "sch_Task cap st f = sch_AddSafe (tm_Task cap st f)"

definition sch_DelayedTask :: "nat \<Rightarrow> 'f scheduler \<Rightarrow> 'f \<Rightarrow> nat \<Rightarrow> nat option \<times> 'f scheduler" where
  "sch_DelayedTask cap st f tp = sch_AddSafe (tm_DelayedTask cap st f tp)"

text \<open>What a callback may do: tasks with and without a subscription, and operations of subscriptions.\<close>

datatype 'f call =
  CallTask 'f "nat option"
| CallDelayed 'f nat "nat option"
| CallReset nat
| CallMove nat nat

definition sch_store :: "nat option \<Rightarrow> nat option \<times> 'f scheduler \<Rightarrow> 'f scheduler" where
  "sch_store s r = (case (s, r) of (None, (_, st)) \<Rightarrow> st | (Some s, (p, st)) \<Rightarrow> sub_assign st s p)"

fun sch_call :: "nat \<Rightarrow> 'f scheduler \<Rightarrow> 'f call \<Rightarrow> 'f scheduler" where
  "sch_call cap st (CallTask f s) = sch_store s (sch_Task cap st f)"
| "sch_call cap st (CallDelayed f tp s) = sch_store s (sch_DelayedTask cap st f tp)"
| "sch_call cap st (CallReset s) = sub_Reset st s"
| "sch_call cap st (CallMove s other) = sub_move st s other"

text \<open>The loop of \<^verbatim>\<open>UpdateTasks\<close>, with the addresses of the tasks that were invoked.\<close>

fun sch_run :: "nat \<Rightarrow> ('f \<Rightarrow> 'f call list) \<Rightarrow> 'f scheduler \<Rightarrow> nat list \<Rightarrow> nat list \<times> 'f scheduler" where
  "sch_run cap calls st [] = ([], st)"
| "sch_run cap calls st (t # ts) =
     (case ts_task st t of
        None \<Rightarrow> sch_run cap calls st ts
      | Some tk \<Rightarrow>
          if tk_active tk \<noteq> Cancelled
          then (case sch_run cap calls (foldl (sch_call cap) st (calls (tk_body tk))) ts of
                  (invoked, st1) \<Rightarrow> (t # invoked, st1))
          else sch_run cap calls st ts)"

definition sch_UpdateRegular :: "nat \<Rightarrow> ('f \<Rightarrow> 'f call list) \<Rightarrow> 'f scheduler \<Rightarrow> nat list \<times> 'f scheduler" where
  "sch_UpdateRegular cap calls st =
     (case tq_StealTasks cap (ts_regular st) (ts_reg_list st) of (to, q) \<Rightarrow>
        case sch_run cap calls (st\<lparr>ts_regular := q, ts_reg_list := to\<rparr>) to of (invoked, st1) \<Rightarrow>
          (invoked, (ts_Free st1 (ts_reg_list st1))\<lparr>ts_reg_list := []\<rparr>))"

definition sch_UpdateDelayed :: "nat \<Rightarrow> ('f \<Rightarrow> 'f call list) \<Rightarrow> 'f scheduler \<Rightarrow> nat \<Rightarrow> nat list \<times> 'f scheduler" where
  "sch_UpdateDelayed cap calls st current_time =
     (case dq_StealTasks cap (ts_expire st) current_time (ts_delayed st) (ts_delay_list st) of (to, q) \<Rightarrow>
        case sch_run cap calls (st\<lparr>ts_delayed := q, ts_delay_list := to\<rparr>) to of (invoked, st1) \<Rightarrow>
          (invoked, (ts_Free st1 (ts_delay_list st1))\<lparr>ts_delay_list := []\<rparr>))"

text \<open>\<^verbatim>\<open>Update\<close>: \<open>debug\<close> is a build without \<^verbatim>\<open>NDEBUG\<close>; the answer is the next time point, \<open>None\<close> for the maximum.\<close>

definition sch_Update ::
  "bool \<Rightarrow> nat \<Rightarrow> ('f \<Rightarrow> 'f call list) \<Rightarrow> 'f scheduler \<Rightarrow> nat \<Rightarrow> (nat list \<times> nat option) \<times> 'f scheduler"
where
  "sch_Update debug cap calls st current_time =
     (let st0 = st\<lparr>ts_trigger := False, ts_overflow := (if debug then 0 else ts_overflow st)\<rparr>
      in case sch_UpdateRegular cap calls st0 of (inv1, st1) \<Rightarrow>
         case sch_UpdateDelayed cap calls st1 current_time of (inv2, st2) \<Rightarrow>
           ((inv1 @ inv2, if ts_delayed st2 \<noteq> [] then Some (ts_expire st2 (last (ts_delayed st2))) else None), st2))"


subsection \<open>Invariant\<close>

text \<open>Every live task is in exactly one list, a subscription and its task point at each other, and the delayed
  tasks are sorted with the earliest at the back.\<close>

definition ts_ids :: "'f scheduler \<Rightarrow> nat list" where
  "ts_ids st = ts_regular st @ ts_delayed st @ ts_reg_list st @ ts_delay_list st"

definition ts_links :: "'f scheduler \<Rightarrow> bool" where
  "ts_links st \<longleftrightarrow> (\<forall>s p. ts_subs st s = Some p \<longleftrightarrow> (\<exists>t. ts_task st p = Some t \<and> tk_active t = Owner s))"

definition ts_sorted :: "'f scheduler \<Rightarrow> bool" where
  "ts_sorted st \<longleftrightarrow> sorted_wrt (\<lambda>a b. ts_expire st b \<le> ts_expire st a) (ts_delayed st)"

definition ts_inv :: "nat \<Rightarrow> 'f scheduler \<Rightarrow> bool" where
  "ts_inv cap st \<longleftrightarrow> distinct (map fst (ts_pool st)) \<and> (\<forall>p \<in> set (map fst (ts_pool st)). p < ts_next st) \<and>
     length (ts_pool st) \<le> cap \<and> distinct (ts_ids st) \<and> set (ts_ids st) = set (map fst (ts_pool st)) \<and>
     ts_links st \<and> ts_sorted st"

lemma ts_inv_make: "ts_inv cap ts_make"
  by (simp add: ts_inv_def ts_make_def ts_ids_def ts_links_def ts_sorted_def)

text \<open>What operations on subscriptions leave alone.\<close>

definition same_tasks :: "'f scheduler \<Rightarrow> 'f scheduler \<Rightarrow> bool" where
  "same_tasks st st' \<longleftrightarrow> map fst (ts_pool st') = map fst (ts_pool st) \<and> ts_next st' = ts_next st \<and>
     ts_regular st' = ts_regular st \<and> ts_delayed st' = ts_delayed st \<and> ts_reg_list st' = ts_reg_list st \<and>
     ts_delay_list st' = ts_delay_list st \<and> ts_expire st' = ts_expire st"

lemma same_tasks_refl [simp]: "same_tasks st st"
  by (simp add: same_tasks_def)

lemma same_tasks_trans: "same_tasks a b \<Longrightarrow> same_tasks b c \<Longrightarrow> same_tasks a c"
  by (simp add: same_tasks_def)

lemma same_tasks_inv:
  assumes "same_tasks st st'" "ts_inv cap st" "ts_links st'"
  shows "ts_inv cap st'"
proof -
  have "length (ts_pool st') = length (ts_pool st)" using assms(1) unfolding same_tasks_def by (metis length_map)
  then show ?thesis using assms by (simp add: ts_inv_def same_tasks_def ts_ids_def ts_sorted_def)
qed

lemma map_of_update_value:
  "map_of (map (\<lambda>(k, t). (k, if k = p then f t else t)) xs) q = (if q = p then map_option f (map_of xs p) else map_of xs q)"
  by (induction xs) auto

lemma ts_task_set_active:
  "ts_task (ts_set_active st p a) q =
    (if q = p then map_option (\<lambda>t. t\<lparr>tk_active := a\<rparr>) (ts_task st p) else ts_task st q)"
  by (simp add: ts_set_active_def map_of_update_value)

lemma ts_set_active_subs [simp]: "ts_subs (ts_set_active st p a) = ts_subs st"
  by (simp add: ts_set_active_def)

lemma ts_set_active_fields [simp]:
  "map fst (ts_pool (ts_set_active st p a)) = map fst (ts_pool st)" "ts_next (ts_set_active st p a) = ts_next st"
  "ts_regular (ts_set_active st p a) = ts_regular st" "ts_delayed (ts_set_active st p a) = ts_delayed st"
  "ts_reg_list (ts_set_active st p a) = ts_reg_list st" "ts_delay_list (ts_set_active st p a) = ts_delay_list st"
  by (auto simp: ts_set_active_def comp_def case_prod_beta)

lemma ts_expire_set_active [simp]: "ts_expire (ts_set_active st p a) = ts_expire st"
  by (auto simp: ts_expire_def fun_eq_iff ts_task_set_active split: option.splits)

lemma ts_expire_subs [simp]: "ts_expire (st\<lparr>ts_subs := x\<rparr>) = ts_expire st"
  by (simp add: ts_expire_def fun_eq_iff)

lemma ts_linksD:
  assumes "ts_links st"
  shows "ts_subs st s = Some p \<Longrightarrow> \<exists>t. ts_task st p = Some t \<and> tk_active t = Owner s"
    and "ts_task st p = Some t \<Longrightarrow> tk_active t = Owner s \<Longrightarrow> ts_subs st s = Some p"
  using assms unfolding ts_links_def by blast+

lemma sub_Reset_tasks [simp]: "same_tasks st (sub_Reset st s)"
  by (simp add: sub_Reset_def Let_def same_tasks_def split: option.split)

lemmas sub_Reset_fields [simp] = sub_Reset_tasks [unfolded same_tasks_def]

lemma sub_Reset_subs: "ts_subs (sub_Reset st s) = (ts_subs st)(s := None)"
  by (simp add: sub_Reset_def Let_def split: option.split)

lemma sub_Reset_task:
  "ts_task (sub_Reset st s) q =
    (if ts_subs st s = Some q then map_option (\<lambda>t. t\<lparr>tk_active := Cancelled\<rparr>) (ts_task st q) else ts_task st q)"
  by (auto simp: sub_Reset_def Let_def ts_task_set_active split: option.split)

lemma sub_Reset_links:
  assumes "ts_links st"
  shows "ts_links (sub_Reset st s)"
  unfolding ts_links_def
proof (intro allI)
  fix s' p
  show "ts_subs (sub_Reset st s) s' = Some p \<longleftrightarrow> (\<exists>t. ts_task (sub_Reset st s) p = Some t \<and> tk_active t = Owner s')"
    using assms by (cases "ts_subs st s = Some p") (auto simp: sub_Reset_subs sub_Reset_task ts_links_def)
qed

lemma sub_assign_tasks [simp]: "same_tasks st (sub_assign st s p)"
  by (simp add: sub_assign_def Let_def same_tasks_def split: option.split)

lemma sub_assign_links:
  assumes l: "ts_links st" and t: "\<And>q. p = Some q \<Longrightarrow> \<exists>tk. ts_task st q = Some tk \<and> tk_active tk = kMagic"
  shows "ts_links (sub_assign st s p)"
proof (cases p)
  case None
  then have "sub_assign st s p = sub_Reset st s" by (simp add: sub_assign_def Let_def sub_Reset_subs sub_Reset_def split: option.split)
  then show ?thesis using sub_Reset_links [OF l] by simp
next
  case (Some q)
  obtain tk where tk: "ts_task st q = Some tk" "tk_active tk = kMagic" using t Some by blast
  have ns: "ts_subs st s' \<noteq> Some q" for s' using ts_linksD(1) [OF l, of s' q] tk by auto
  show ?thesis unfolding ts_links_def
  proof (intro allI)
    fix s' p'
    show "ts_subs (sub_assign st s p) s' = Some p' \<longleftrightarrow> (\<exists>t. ts_task (sub_assign st s p) p' = Some t \<and> tk_active t = Owner s')"
      using l tk ns Some
      by (cases "p' = q"; cases "ts_subs st s = Some p'")
        (auto simp: sub_assign_def Let_def ts_task_set_active sub_Reset_task sub_Reset_subs ts_links_def)
  qed
qed

lemma sub_move_tasks [simp]: "same_tasks st (sub_move st s other)"
  by (simp add: sub_move_def Let_def same_tasks_def split: option.split)

lemma ts_links_move:
  assumes l: "ts_links st" and s: "ts_subs st s = None" and t: "ts_subs st other = Some t"
  shows "ts_links (ts_set_active (st\<lparr>ts_subs := (ts_subs st)(s := Some t, other := None)\<rparr>) t (Owner s))"
proof -
  obtain tk where tk: "ts_task st t = Some tk" "tk_active tk = Owner other" using ts_linksD(1) [OF l t] by blast
  have owner: "ts_subs st s' = Some t \<longleftrightarrow> s' = other" for s' using l tk unfolding ts_links_def by auto
  have "s \<noteq> other" using s t by auto
  show ?thesis unfolding ts_links_def
  proof (intro allI)
    fix s' p
    show "ts_subs (ts_set_active (st\<lparr>ts_subs := (ts_subs st)(s := Some t, other := None)\<rparr>) t (Owner s)) s' = Some p \<longleftrightarrow>
      (\<exists>tk. ts_task (ts_set_active (st\<lparr>ts_subs := (ts_subs st)(s := Some t, other := None)\<rparr>) t (Owner s)) p = Some tk \<and>
        tk_active tk = Owner s')"
    proof (cases "p = t")
      case True
      then show ?thesis using tk owner \<open>s \<noteq> other\<close> by (auto simp: ts_task_set_active)
    next
      case False
      then have "ts_subs st s' = Some p \<longleftrightarrow> (\<exists>tk. ts_task st p = Some tk \<and> tk_active tk = Owner s')"
        using l unfolding ts_links_def by blast
      with False s t show ?thesis by (auto simp: ts_task_set_active)
    qed
  qed
qed

lemma sub_move_links:
  assumes l: "ts_links st"
  shows "ts_links (sub_move st s other)"
proof (cases "s = other")
  case False
  let ?r = "sub_Reset st s"
  have r: "ts_links ?r" "ts_subs ?r s = None" using sub_Reset_links [OF l] by (simp_all add: sub_Reset_subs)
  show ?thesis
  proof (cases "ts_subs ?r other")
    case None
    then have "(ts_subs ?r)(s := None, other := None) = ts_subs ?r" using r by auto
    then show ?thesis using None False r by (simp add: sub_move_def Let_def)
  next
    case (Some t)
    then show ?thesis using False ts_links_move [OF r Some] by (simp add: sub_move_def Let_def)
  qed
qed (simp add: sub_move_def l)

text \<open>Creating a task and putting it in a queue.\<close>

lemma ts_ids_length:
  assumes "ts_inv cap st"
  shows "length (ts_ids st) = length (ts_pool st)"
proof -
  have "length (ts_ids st) = card (set (map fst (ts_pool st)))" using assms distinct_card [of "ts_ids st"] by (simp add: ts_inv_def)
  then show ?thesis using assms distinct_card [of "map fst (ts_pool st)"] by (simp add: ts_inv_def)
qed

lemma ts_links_create:
  assumes "ts_links st" "ts_next st \<notin> set (map fst (ts_pool st))" "tm_create st f tp = (p, st')"
  shows "ts_links st'"
proof -
  have "ts_task st (ts_next st) = None" using assms(2) by (simp add: map_of_eq_None_iff)
  moreover from this have "ts_subs st s \<noteq> Some (ts_next st)" for s using ts_linksD(1) [OF assms(1), of s "ts_next st"] by auto
  ultimately show ?thesis using assms(1,3) by (auto simp: tm_create_def ts_links_def split: if_splits)
qed

text \<open>Insertion into the sorted queue.\<close>

lemma dq_Add_split:
  assumes "length q \<noteq> cap"
  shows "\<exists>a b. q = a @ b \<and> dq_Add cap e q p = (True, a @ [p] @ b) \<and> (\<forall>x \<in> set b. e x \<le> e p) \<and> (a = [] \<or> e p < e (last a))"
proof -
  let ?P = "\<lambda>x. \<not> e p < e x"
  define a b where "a = rev (dropWhile ?P (rev q))" and "b = rev (takeWhile ?P (rev q))"
  have q: "q = a @ b" unfolding a_def b_def rev_append [symmetric] by simp
  have "length b = length (takeWhile ?P (rev q))" by (simp add: b_def)
  then have "dq_Add cap e q p = (True, a @ [p] @ b)" using assms q by (simp add: dq_Add_def Let_def)
  moreover have "\<forall>x \<in> set b. e x \<le> e p" by (auto simp: b_def dest: set_takeWhileD)
  moreover have "a = [] \<or> e p < e (last a)"
  proof (cases "dropWhile ?P (rev q) = []")
    case False
    from hd_dropWhile [OF this] show ?thesis by (simp add: a_def last_rev)
  qed (simp add: a_def)
  ultimately show ?thesis using q by blast
qed

lemma dq_Add_sorted:
  assumes "sorted_wrt (\<lambda>a b. e b \<le> e a) q" "dq_Add cap e q p = (True, q')"
  shows "sorted_wrt (\<lambda>a b. e b \<le> e a) q' \<and> set q' = insert p (set q) \<and> (p \<notin> set q \<longrightarrow> distinct q \<longrightarrow> distinct q')"
proof -
  have "length q \<noteq> cap" using assms(2) by (auto simp: dq_Add_def split: if_splits)
  from dq_Add_split [OF this, of e p] assms(2) obtain a b where
    ab: "q = a @ b" "q' = a @ [p] @ b" "\<forall>x \<in> set b. e x \<le> e p" "a = [] \<or> e p < e (last a)" by auto
  have "\<forall>x \<in> set a. e p \<le> e x"
  proof (cases a rule: rev_cases)
    case (snoc ys y)
    then have "\<forall>x \<in> set ys. e y \<le> e x" using assms(1) ab(1) by (auto simp: sorted_wrt_append)
    then show ?thesis using snoc ab(4) by fastforce
  qed simp
  then show ?thesis using assms(1) ab by (auto simp: sorted_wrt_append)
qed

text \<open>A task that is added: the pool was not full, so the queue is not full either.\<close>

definition fresh_task :: "'f scheduler \<Rightarrow> nat \<Rightarrow> bool" where
  "fresh_task st p \<longleftrightarrow> (\<exists>tk. ts_task st p = Some tk \<and> tk_active tk = kMagic)"

lemma create_facts:
  assumes "ts_inv cap st" "tm_create st f tp = (p, st1)"
  shows "p \<notin> set (ts_ids st)" "ts_links st1" "ts_expire st1 p = tp" "\<And>x. x \<noteq> p \<Longrightarrow> ts_expire st1 x = ts_expire st x"
    "fresh_task st1 p" "sorted_wrt (\<lambda>a b. ts_expire st1 b \<le> ts_expire st1 a) (ts_delayed st)"
proof -
  have n: "ts_next st \<notin> set (map fst (ts_pool st))" using assms(1) unfolding ts_inv_def by blast
  then show new: "p \<notin> set (ts_ids st)" using assms by (auto simp: ts_inv_def tm_create_def)
  show "ts_links st1" using ts_links_create [OF _ n assms(2)] assms(1) by (simp add: ts_inv_def)
  show "ts_expire st1 p = tp" "fresh_task st1 p" and e: "\<And>x. x \<noteq> p \<Longrightarrow> ts_expire st1 x = ts_expire st x"
    using assms(2) by (auto simp: tm_create_def ts_expire_def fresh_task_def)
  have "x \<noteq> p" if "x \<in> set (ts_delayed st)" for x using new that by (auto simp: ts_ids_def)
  then have "ts_expire st1 x = ts_expire st x" if "x \<in> set (ts_delayed st)" for x using that e by blast
  then show "sorted_wrt (\<lambda>a b. ts_expire st1 b \<le> ts_expire st1 a) (ts_delayed st)"
    using assms(1) sorted_wrt_mono_rel [of "ts_delayed st" "\<lambda>a b. ts_expire st b \<le> ts_expire st a"]
    by (simp add: ts_inv_def ts_sorted_def)
qed

lemma emplace_inv:
  assumes inv: "ts_inv cap st" and room: "length (ts_pool st) \<noteq> cap" and c: "tm_create st f tp = (p, st1)"
    and st': "st' = st1\<lparr>ts_regular := R, ts_delayed := D\<rparr>"
    and lists: "distinct R" "distinct D" "set R \<union> set D = insert p (set (ts_regular st) \<union> set (ts_delayed st))" "set R \<inter> set D = {}"
    and srt: "sorted_wrt (\<lambda>a b. ts_expire st1 b \<le> ts_expire st1 a) D"
  shows "ts_inv cap st' \<and> ts_reg_list st' = ts_reg_list st \<and> ts_delay_list st' = ts_delay_list st \<and> fresh_task st' p"
proof -
  note f = create_facts [OF inv c]
  have st1: "st1 = st\<lparr>ts_pool := (p, \<lparr>tk_active = kMagic, tk_body = f, tk_expire_at = tp\<rparr>) # ts_pool st, ts_next := ts_next st + 1\<rparr>"
    "p = ts_next st" using c by (auto simp: tm_create_def)
  have e: "ts_expire st' = ts_expire st1" "ts_links st'" "fresh_task st' p"
    using f(2,5) by (simp_all add: st' ts_expire_def fun_eq_iff ts_links_def fresh_task_def)
  let ?B = "set (ts_reg_list st) \<union> set (ts_delay_list st)"
  have ids: "(set (ts_regular st) \<union> set (ts_delayed st)) \<inter> ?B = {}" "distinct (ts_reg_list st @ ts_delay_list st)"
    "p \<notin> ?B" using inv f(1) by (auto simp: ts_inv_def ts_ids_def)
  then have "(set R \<union> set D) \<inter> ?B = {}" unfolding lists(3) by blast
  then have "distinct (ts_ids st')" using lists(1,2,4) ids(2) by (simp add: st' st1(1) ts_ids_def) blast
  moreover have "set (ts_ids st') = (set R \<union> set D) \<union> ?B" by (simp add: st' st1(1) ts_ids_def Un_assoc)
  then have "set (ts_ids st') = insert p (set (ts_ids st))" unfolding lists(3) by (auto simp: ts_ids_def)
  ultimately have "distinct (ts_ids st')" "set (ts_ids st') = insert p (set (ts_ids st))" by simp_all
  then show ?thesis using inv room st1 e srt by (auto simp: ts_inv_def st' ts_sorted_def)
qed

lemma tm_Task_inv:
  assumes inv: "ts_inv cap st" and t: "tm_Task cap st f = (r, st')"
  shows "ts_inv cap st' \<and> ts_reg_list st' = ts_reg_list st \<and> ts_delay_list st' = ts_delay_list st \<and>
    (\<forall>p. r = Some p \<longrightarrow> fresh_task st' p) \<and> (r = None \<longleftrightarrow> length (ts_pool st) = cap)"
proof (cases "length (ts_pool st) = cap")
  case False
  obtain p st1 where c: "tm_create st f 0 = (p, st1)" by fastforce
  note f = create_facts [OF inv c]
  have st1: "ts_regular st1 = ts_regular st" "ts_delayed st1 = ts_delayed st" using c by (auto simp: tm_create_def)
  have "length (ts_regular st) \<noteq> cap"
    using ts_ids_length [OF inv] inv False by (auto simp: ts_ids_def ts_inv_def)
  moreover have "st1\<lparr>ts_delayed := ts_delayed st\<rparr> = st1" using st1 by (cases st1) simp
  ultimately have new: "r = Some p" "st' = st1\<lparr>ts_regular := ts_regular st @ [p], ts_delayed := ts_delayed st\<rparr>"
    using t False c st1 by (auto simp: tm_Task_def tq_Add_def)
  have "ts_inv cap st' \<and> ts_reg_list st' = ts_reg_list st \<and> ts_delay_list st' = ts_delay_list st \<and> fresh_task st' p"
    using inv f(1,6) new st1
    by (intro emplace_inv [OF inv False c, where R = "ts_regular st @ [p]" and D = "ts_delayed st"]) (auto simp: ts_inv_def ts_ids_def)
  with new False show ?thesis by simp
qed (use assms in \<open>simp add: tm_Task_def\<close>)

lemma tm_DelayedTask_inv:
  assumes inv: "ts_inv cap st" and t: "tm_DelayedTask cap st f tp = (r, st')"
  shows "ts_inv cap st' \<and> ts_reg_list st' = ts_reg_list st \<and> ts_delay_list st' = ts_delay_list st \<and>
    (\<forall>p. r = Some p \<longrightarrow> fresh_task st' p) \<and> (r = None \<longleftrightarrow> length (ts_pool st) = cap)"
proof (cases "length (ts_pool st) = cap")
  case False
  obtain p st1 where c: "tm_create st f tp = (p, st1)" by fastforce
  note f = create_facts [OF inv c]
  have st1: "ts_regular st1 = ts_regular st" "ts_delayed st1 = ts_delayed st" using c by (auto simp: tm_create_def)
  have len: "length (ts_delayed st) \<noteq> cap"
    using ts_ids_length [OF inv] inv False by (auto simp: ts_ids_def ts_inv_def)
  obtain q where q: "dq_Add cap (ts_expire st1) (ts_delayed st) p = (True, q)"
    using dq_Add_split [OF len, of "ts_expire st1" p] by blast
  have "st1\<lparr>ts_regular := ts_regular st\<rparr> = st1" using st1 by (cases st1) simp
  then have new: "r = Some p" "st' = st1\<lparr>ts_regular := ts_regular st, ts_delayed := q\<rparr>"
    using t False c st1 q by (auto simp: tm_DelayedTask_def)
  from dq_Add_sorted [OF f(6) q] have "ts_inv cap st' \<and> ts_reg_list st' = ts_reg_list st \<and> ts_delay_list st' = ts_delay_list st \<and> fresh_task st' p"
    using inv f(1) new st1
    by (intro emplace_inv [OF inv False c, where R = "ts_regular st" and D = q]) (auto simp: ts_inv_def ts_ids_def)
  with new False show ?thesis by simp
qed (use assms in \<open>simp add: tm_DelayedTask_def\<close>)

text \<open>Every call a callback can make keeps the invariant and the lists of tasks being run.\<close>

lemma sch_AddSafe_facts:
  assumes "sch_AddSafe (r, st) = (r', st')"
  shows "r' = r \<and> ts_inv cap st' = ts_inv cap st \<and> ts_reg_list st' = ts_reg_list st \<and>
    ts_delay_list st' = ts_delay_list st \<and> fresh_task st' = fresh_task st"
proof -
  define n where "n = (if r = None then ts_overflow st + 1 else ts_overflow st)"
  have st': "st' = st\<lparr>ts_overflow := n, ts_trigger := True\<rparr>" "r' = r"
    using assms by (auto simp: sch_AddSafe_def n_def)
  have e: "ts_expire st' = ts_expire st" unfolding st' by (simp add: ts_expire_def fun_eq_iff)
  show ?thesis unfolding ts_inv_def ts_sorted_def e by (simp add: st' ts_ids_def ts_links_def fresh_task_def fun_eq_iff)
qed

lemma sch_store_inv:
  assumes "ts_inv cap st" "\<forall>q. p = Some q \<longrightarrow> fresh_task st q"
  shows "ts_inv cap (sch_store s (p, st)) \<and> ts_reg_list (sch_store s (p, st)) = ts_reg_list st \<and>
    ts_delay_list (sch_store s (p, st)) = ts_delay_list st"
proof (cases s)
  case (Some s')
  have "ts_links st" using assms(1) by (simp add: ts_inv_def)
  then have "ts_links (sub_assign st s' p)" using assms(2) by (intro sub_assign_links) (auto simp: fresh_task_def)
  with same_tasks_inv [OF sub_assign_tasks assms(1)] sub_assign_tasks [of st s' p] Some show ?thesis
    by (simp add: sch_store_def same_tasks_def)
qed (use assms in \<open>simp add: sch_store_def\<close>)

lemma sch_call_inv:
  assumes inv: "ts_inv cap st"
  shows "ts_inv cap (sch_call cap st c) \<and> ts_reg_list (sch_call cap st c) = ts_reg_list st \<and>
    ts_delay_list (sch_call cap st c) = ts_delay_list st"
proof -
  have links: "ts_links st" using inv by (simp add: ts_inv_def)
  show ?thesis
  proof (cases c)
    case (CallTask f s)
    obtain r st' where t: "tm_Task cap st f = (r, st')" by fastforce
    obtain r' st'' where a: "sch_AddSafe (r, st') = (r', st'')" by fastforce
    have "ts_inv cap st'' \<and> (\<forall>q. r' = Some q \<longrightarrow> fresh_task st'' q)" "ts_reg_list st'' = ts_reg_list st"
      "ts_delay_list st'' = ts_delay_list st"
      using tm_Task_inv [OF inv t] sch_AddSafe_facts [OF a, of cap] by simp_all
    with sch_store_inv [of cap st'' r' s] t a CallTask show ?thesis by (simp add: sch_Task_def)
  next
    case (CallDelayed f tp s)
    obtain r st' where t: "tm_DelayedTask cap st f tp = (r, st')" by fastforce
    obtain r' st'' where a: "sch_AddSafe (r, st') = (r', st'')" by fastforce
    have "ts_inv cap st'' \<and> (\<forall>q. r' = Some q \<longrightarrow> fresh_task st'' q)" "ts_reg_list st'' = ts_reg_list st"
      "ts_delay_list st'' = ts_delay_list st"
      using tm_DelayedTask_inv [OF inv t] sch_AddSafe_facts [OF a, of cap] by simp_all
    with sch_store_inv [of cap st'' r' s] t a CallDelayed show ?thesis by (simp add: sch_DelayedTask_def)
  next
    case (CallReset s)
    then show ?thesis using same_tasks_inv [OF sub_Reset_tasks inv sub_Reset_links [OF links]] by simp
  next
    case (CallMove s other)
    then show ?thesis using same_tasks_inv [OF sub_move_tasks inv sub_move_links [OF links]] sub_move_tasks [of st s other]
      by (simp add: same_tasks_def)
  qed
qed

lemma sch_calls_inv:
  "ts_inv cap st \<Longrightarrow> ts_inv cap (foldl (sch_call cap) st cs) \<and> ts_reg_list (foldl (sch_call cap) st cs) = ts_reg_list st \<and>
    ts_delay_list (foldl (sch_call cap) st cs) = ts_delay_list st"
  by (induction cs arbitrary: st) (simp_all add: sch_call_inv)

lemma sch_run_inv:
  "ts_inv cap st \<Longrightarrow> sch_run cap calls st ts = (lg, st') \<Longrightarrow>
    ts_inv cap st' \<and> ts_reg_list st' = ts_reg_list st \<and> ts_delay_list st' = ts_delay_list st"
proof (induction ts arbitrary: st lg)
  case (Cons t ts)
  show ?case
  proof (cases "\<exists>tk. ts_task st t = Some tk \<and> tk_active tk \<noteq> Cancelled")
    case True
    then obtain tk where tk: "ts_task st t = Some tk" "tk_active tk \<noteq> Cancelled" by blast
    let ?s = "foldl (sch_call cap) st (calls (tk_body tk))"
    obtain i2 where "sch_run cap calls ?s ts = (i2, st')" using Cons.prems(2) tk by (auto split: prod.splits)
    from Cons.IH [OF _ this] sch_calls_inv [OF Cons.prems(1), of "calls (tk_body tk)"] show ?thesis by simp
  next
    case False
    then have "sch_run cap calls st ts = (lg, st')" using Cons.prems(2) by (auto split: option.splits)
    then show ?thesis using Cons.IH [OF Cons.prems(1)] by blast
  qed
qed simp

text \<open>Freeing tasks removes exactly them.\<close>

lemma map_of_filter_key: "map_of (filter (\<lambda>(k, t). k \<noteq> p) xs) q = (if q = p then None else map_of xs q)"
  by (induction xs) auto

lemma ts_destroy_facts:
  assumes "ts_links st" "distinct (map fst (ts_pool st))"
  shows "ts_links (ts_destroy st p) \<and> ts_pool (ts_destroy st p) = filter (\<lambda>(k, t). k \<noteq> p) (ts_pool st) \<and>
    ts_next (ts_destroy st p) = ts_next st \<and> ts_regular (ts_destroy st p) = ts_regular st \<and>
    ts_delayed (ts_destroy st p) = ts_delayed st \<and> ts_reg_list (ts_destroy st p) = ts_reg_list st \<and>
    ts_delay_list (ts_destroy st p) = ts_delay_list st"
proof -
  have fields: "ts_pool (ts_destroy st p) = filter (\<lambda>(k, t). k \<noteq> p) (ts_pool st)"
    "ts_next (ts_destroy st p) = ts_next st" "ts_regular (ts_destroy st p) = ts_regular st"
    "ts_delayed (ts_destroy st p) = ts_delayed st" "ts_reg_list (ts_destroy st p) = ts_reg_list st"
    "ts_delay_list (ts_destroy st p) = ts_delay_list st"
    by (simp_all add: ts_destroy_def Let_def split: option.split active.split)
  moreover have "ts_links (ts_destroy st p)"
    unfolding ts_links_def
  proof (intro allI)
    fix s q
    have "ts_subs st s = Some p \<longleftrightarrow> (\<exists>t. ts_task st p = Some t \<and> tk_active t = Owner s)"
      using assms(1) unfolding ts_links_def by blast
    then have "ts_subs (ts_destroy st p) s = (if ts_subs st s = Some p then None else ts_subs st s)"
      by (auto simp: ts_destroy_def Let_def split: option.splits active.splits)
    then have "ts_subs (ts_destroy st p) s = Some q \<longleftrightarrow> q \<noteq> p \<and> ts_subs st s = Some q" by auto
    then show "ts_subs (ts_destroy st p) s = Some q \<longleftrightarrow> (\<exists>t. ts_task (ts_destroy st p) q = Some t \<and> tk_active t = Owner s)"
      using assms(1) by (simp add: fields(1) map_of_filter_key ts_links_def)
  qed
  ultimately show ?thesis by simp
qed

lemma ts_Free_facts:
  "ts_links st \<Longrightarrow> distinct (map fst (ts_pool st)) \<Longrightarrow>
    ts_links (ts_Free st l) \<and> ts_pool (ts_Free st l) = filter (\<lambda>(k, t). k \<notin> set l) (ts_pool st) \<and>
    ts_next (ts_Free st l) = ts_next st \<and> ts_regular (ts_Free st l) = ts_regular st \<and>
    ts_delayed (ts_Free st l) = ts_delayed st \<and> ts_reg_list (ts_Free st l) = ts_reg_list st \<and>
    ts_delay_list (ts_Free st l) = ts_delay_list st"
proof (induction l arbitrary: st)
  case Nil
  have "filter (\<lambda>(k, t). True) xs = xs" for xs :: "(nat \<times> 'a task) list" by (simp add: case_prod_beta)
  then show ?case using Nil by (simp add: ts_Free_def)
next
  case (Cons p l)
  note d = ts_destroy_facts [OF Cons.prems, of p]
  have "distinct (map fst (ts_pool (ts_destroy st p)))" using d Cons.prems(2) by (simp add: distinct_map_filter)
  from Cons.IH [OF _ this] d show ?case
    by (simp add: ts_Free_def filter_filter) (auto intro: filter_cong)
qed

lemma ts_expire_filter:
  "ts_pool st' = filter (\<lambda>(k, t). k \<notin> A) (ts_pool st) \<Longrightarrow> x \<notin> A \<Longrightarrow> ts_expire st' x = ts_expire st x"
proof -
  have "map_of (filter (\<lambda>(k, t). k \<notin> A) xs) x = map_of xs x" if "x \<notin> A" for xs :: "(nat \<times> 'a task) list"
    using that by (induction xs) auto
  then show "ts_pool st' = filter (\<lambda>(k, t). k \<notin> A) (ts_pool st) \<Longrightarrow> x \<notin> A \<Longrightarrow> ts_expire st' x = ts_expire st x"
    by (simp add: ts_expire_def)
qed

text \<open>Freeing the list of tasks that were run, which is then emptied.\<close>

lemma ts_Free_inv:
  assumes inv: "ts_inv cap st" and l: "set l \<union> set (ts_ids st') = set (ts_ids st)" "set l \<inter> set (ts_ids st') = {}"
    and st': "st' = (ts_Free st l)\<lparr>ts_reg_list := a, ts_delay_list := b\<rparr>" and d: "distinct (ts_ids st')"
  shows "ts_inv cap st'"
proof -
  have pre: "ts_links st" "distinct (map fst (ts_pool st))" using inv by (simp_all add: ts_inv_def)
  note f = ts_Free_facts [OF pre, of l]
  have pool: "ts_pool st' = filter (\<lambda>(k, t). k \<notin> set l) (ts_pool st)" using f st' by simp
  have ids: "set (map fst (ts_pool st')) = set (map fst (ts_pool st)) - set l" unfolding pool by (auto simp: image_iff)
  moreover have "set (ts_ids st) = set (map fst (ts_pool st))" using inv by (simp add: ts_inv_def)
  ultimately have "set (ts_ids st') = set (map fst (ts_pool st'))" using l by blast
  moreover have "\<forall>p \<in> set (map fst (ts_pool st')). p < ts_next st'"
    unfolding ids using inv f st' by (auto simp: ts_inv_def)
  moreover have "length (ts_pool st') \<le> cap" using inv length_filter_le [of _ "ts_pool st"] unfolding pool
    by (metis (no_types, lifting) le_trans ts_inv_def)
  moreover have "distinct (map fst (ts_pool st'))" unfolding pool using pre(2) by (simp add: distinct_map_filter)
  moreover have "ts_links st'" using f st' by (simp add: ts_links_def)
  moreover have "ts_expire st' x = ts_expire st x" if "x \<in> set (ts_delayed st)" for x
    using ts_expire_filter [OF pool] l(2) that f st' by (auto simp: ts_ids_def)
  then have "ts_sorted st'"
    using inv f st' sorted_wrt_mono_rel [of "ts_delayed st" "\<lambda>a b. ts_expire st b \<le> ts_expire st a"]
    by (simp add: ts_inv_def ts_sorted_def)
  ultimately show ?thesis using d by (simp add: ts_inv_def)
qed

lemma dq_scan_le: "dq_scan e now m c xs \<le> length xs"
  by (induction e now m c xs rule: dq_scan.induct) auto

text \<open>With enough room exactly the expired tasks are taken, those that expire later first.\<close>

lemma dq_scan_takeWhile: "c + length xs \<le> m \<Longrightarrow> dq_scan e now m c xs = length (takeWhile (\<lambda>x. e x \<le> now) xs)"
  by (induction e now m c xs rule: dq_scan.induct) auto

lemma dq_StealTasks_expired:
  assumes "sorted_wrt (\<lambda>a b. e b \<le> e a) q" "length q \<le> m"
  shows "dq_StealTasks m e now q to = (to @ filter (\<lambda>x. e x \<le> now) q, filter (\<lambda>x. \<not> e x \<le> now) q)"
proof -
  let ?P = "\<lambda>x. e x \<le> now"
  have "\<exists>n \<le> length q. filter (\<lambda>x. \<not> ?P x) q = take n q \<and> filter ?P q = drop n q \<and> length (takeWhile ?P (rev q)) = length q - n"
    using assms(1)
  proof (induction q)
    case (Cons x q)
    from Cons.IH Cons.prems obtain n where n: "n \<le> length q" "filter (\<lambda>x. \<not> ?P x) q = take n q" "filter ?P q = drop n q"
      "length (takeWhile ?P (rev q)) = length q - n" by auto
    show ?case
    proof (cases "?P x")
      case True
      then have "\<forall>y \<in> set q. ?P y" using Cons.prems by auto
      moreover from this have "length (takeWhile ?P (rev q @ [x])) = Suc (length q)"
        using True by (subst takeWhile_eq_all_conv [THEN iffD2]) auto
      ultimately show ?thesis using True by (intro exI [of _ 0]) (auto simp: filter_empty_conv)
    next
      case False
      have "length (takeWhile ?P (rev q @ [x])) = length q - n"
        using n(4) takeWhile_tail [of ?P x "rev q" "[]"] False by simp
      then show ?thesis using n False by (intro exI [of _ "Suc n"]) simp
    qed
  qed simp
  then obtain n where n: "n \<le> length q" "filter (\<lambda>x. \<not> ?P x) q = take n q" "filter ?P q = drop n q"
    "length (takeWhile ?P (rev q)) = length q - n" by blast
  have "dq_scan e now m 0 (rev q) = length q - n" using dq_scan_takeWhile [of 0 "rev q" m e now] assms(2) n(4) by simp
  with n show ?thesis by (auto simp: dq_StealTasks_def Let_def)
qed

lemma ts_list_same:
  "ts_reg_list st = l \<Longrightarrow> st = st\<lparr>ts_reg_list := l\<rparr>" "ts_delay_list st = l \<Longrightarrow> st = st\<lparr>ts_delay_list := l\<rparr>"
  by (cases st; simp)+

lemma sch_UpdateRegular_inv:
  assumes inv: "ts_inv cap st" and r: "ts_reg_list st = []" and u: "sch_UpdateRegular cap calls st = (lg, st')"
  shows "ts_inv cap st' \<and> ts_reg_list st' = [] \<and> ts_delay_list st' = ts_delay_list st"
proof -
  let ?s = "st\<lparr>ts_regular := [], ts_reg_list := ts_regular st\<rparr>"
  have "length (ts_regular st) \<le> cap" using ts_ids_length [OF inv] inv by (simp add: ts_ids_def ts_inv_def)
  then have steal: "tq_StealTasks cap (ts_regular st) [] = (ts_regular st, [])" by (simp add: tq_StealTasks_def Let_def)
  have "ts_expire ?s = ts_expire st" by (simp add: ts_expire_def fun_eq_iff)
  then have inv0: "ts_inv cap ?s" using inv r by (auto simp: ts_inv_def ts_ids_def ts_links_def ts_sorted_def)
  obtain st1 where run: "sch_run cap calls ?s (ts_regular st) = (lg, st1)"
    and st': "st' = (ts_Free st1 (ts_reg_list st1))\<lparr>ts_reg_list := []\<rparr>"
    using u r steal by (auto simp: sch_UpdateRegular_def split: prod.splits)
  have i1: "ts_inv cap st1" "ts_delay_list st1 = ts_delay_list st" using sch_run_inv [OF inv0 run] by auto
  have f: "ts_regular st' = ts_regular st1" "ts_delayed st' = ts_delayed st1" "ts_reg_list st' = []" "ts_delay_list st' = ts_delay_list st1"
    using ts_Free_facts [of st1 "ts_reg_list st1"] i1(1) st' by (auto simp: ts_inv_def)
  have "st' = (ts_Free st1 (ts_reg_list st1))\<lparr>ts_reg_list := [], ts_delay_list := ts_delay_list st1\<rparr>"
    by (rule trans [OF ts_list_same(2) [OF f(4)]]) (simp add: st')
  note eq = this
  have "ts_inv cap st'"
  proof (rule ts_Free_inv [OF i1(1) _ _ eq])
    have ids: "distinct (ts_ids st1)" using i1(1) by (simp add: ts_inv_def)
    show "set (ts_reg_list st1) \<union> set (ts_ids st') = set (ts_ids st1)" by (auto simp: ts_ids_def f)
    show "set (ts_reg_list st1) \<inter> set (ts_ids st') = {}" "distinct (ts_ids st')" using ids by (auto simp: ts_ids_def f)
  qed
  then show ?thesis using f i1 by simp
qed

lemma sch_UpdateDelayed_inv:
  assumes inv: "ts_inv cap st" and r: "ts_delay_list st = []" and u: "sch_UpdateDelayed cap calls st now = (lg, st')"
  shows "ts_inv cap st' \<and> ts_reg_list st' = ts_reg_list st \<and> ts_delay_list st' = []"
proof -
  let ?D = "filter (\<lambda>x. ts_expire st x \<le> now) (ts_delayed st)" and ?K = "filter (\<lambda>x. \<not> ts_expire st x \<le> now) (ts_delayed st)"
  let ?s = "st\<lparr>ts_delayed := ?K, ts_delay_list := ?D\<rparr>"
  have len: "length (ts_delayed st) \<le> cap" using ts_ids_length [OF inv] inv by (simp add: ts_ids_def ts_inv_def)
  have srt: "sorted_wrt (\<lambda>a b. ts_expire st b \<le> ts_expire st a) (ts_delayed st)" using inv by (simp add: ts_inv_def ts_sorted_def)
  note steal = dq_StealTasks_expired [OF srt len, of now "[]"]
  have "ts_expire ?s = ts_expire st" by (simp add: ts_expire_def fun_eq_iff)
  moreover have "set ?D \<union> set ?K = set (ts_delayed st)" by auto
  ultimately have inv0: "ts_inv cap ?s" using inv r
    by (auto simp: ts_inv_def ts_ids_def ts_links_def ts_sorted_def sorted_wrt_filter)
  obtain st1 where run: "sch_run cap calls ?s ?D = (lg, st1)"
    and st': "st' = (ts_Free st1 (ts_delay_list st1))\<lparr>ts_delay_list := []\<rparr>"
    using u r steal by (auto simp: sch_UpdateDelayed_def split: prod.splits)
  have i1: "ts_inv cap st1" "ts_reg_list st1 = ts_reg_list st" using sch_run_inv [OF inv0 run] by auto
  have f: "ts_regular st' = ts_regular st1" "ts_delayed st' = ts_delayed st1" "ts_reg_list st' = ts_reg_list st1" "ts_delay_list st' = []"
    using ts_Free_facts [of st1 "ts_delay_list st1"] i1(1) st' by (auto simp: ts_inv_def)
  have "st' = (ts_Free st1 (ts_delay_list st1))\<lparr>ts_reg_list := ts_reg_list st1, ts_delay_list := []\<rparr>"
    by (rule trans [OF ts_list_same(1) [OF f(3)]]) (simp add: st')
  note eq = this
  have "ts_inv cap st'"
  proof (rule ts_Free_inv [OF i1(1) _ _ eq])
    have ids: "distinct (ts_ids st1)" using i1(1) by (simp add: ts_inv_def)
    show "set (ts_delay_list st1) \<union> set (ts_ids st') = set (ts_ids st1)" by (auto simp: ts_ids_def f)
    show "set (ts_delay_list st1) \<inter> set (ts_ids st') = {}" "distinct (ts_ids st')" using ids by (auto simp: ts_ids_def f)
  qed
  then show ?thesis using f i1 by simp
qed

lemma sch_Update_inv:
  assumes inv: "ts_inv cap st" and l: "ts_reg_list st = []" "ts_delay_list st = []" and u: "sch_Update debug cap calls st now = (r, st')"
  shows "ts_inv cap st' \<and> ts_reg_list st' = [] \<and> ts_delay_list st' = []"
proof -
  define st0 where "st0 = st\<lparr>ts_trigger := False, ts_overflow := (if debug then 0 else ts_overflow st)\<rparr>"
  have e: "ts_expire st0 = ts_expire st" by (simp add: st0_def ts_expire_def fun_eq_iff)
  have inv0: "ts_inv cap st0" "ts_reg_list st0 = []" "ts_delay_list st0 = []"
    using inv l unfolding ts_inv_def ts_sorted_def e by (simp_all add: st0_def ts_ids_def ts_links_def)
  obtain l1 st1 where u1: "sch_UpdateRegular cap calls st0 = (l1, st1)" by fastforce
  note i1 = sch_UpdateRegular_inv [OF inv0(1,2) u1]
  obtain l2 st2 where u2: "sch_UpdateDelayed cap calls st1 now = (l2, st2)" by fastforce
  have "ts_delay_list st1 = []" using i1 inv0(3) by simp
  with sch_UpdateDelayed_inv [OF _ _ u2, of] i1 have "ts_inv cap st2 \<and> ts_reg_list st2 = [] \<and> ts_delay_list st2 = []" by simp
  moreover have "st' = st2" using u u1 u2 by (simp add: sch_Update_def Let_def st0_def [symmetric])
  ultimately show ?thesis by simp
qed

text \<open>The states of a scheduler that is used through its interface.\<close>

inductive sch_reachable :: "nat \<Rightarrow> ('f \<Rightarrow> 'f call list) \<Rightarrow> 'f scheduler \<Rightarrow> bool" for cap calls where
  reach_make: "sch_reachable cap calls ts_make"
| reach_call: "sch_reachable cap calls st \<Longrightarrow> sch_reachable cap calls (sch_call cap st c)"
| reach_update: "sch_reachable cap calls st \<Longrightarrow> sch_reachable cap calls (snd (sch_Update debug cap calls st now))"

lemma reachable_inv: "sch_reachable cap calls st \<Longrightarrow> ts_inv cap st \<and> ts_reg_list st = [] \<and> ts_delay_list st = []"
proof (induction rule: sch_reachable.induct)
  case reach_make
  show ?case using ts_inv_make by (auto simp: ts_make_def)
next
  case (reach_call st c)
  then show ?case using sch_call_inv [of cap st c] by simp
next
  case (reach_update st debug now)
  obtain r st' where "sch_Update debug cap calls st now = (r, st')" by fastforce
  with sch_Update_inv [of cap st debug calls now r st'] reach_update show ?case by simp
qed

text \<open>A task without a subscription and a cancelled one stay what they are, whatever callbacks do.\<close>

definition task_is :: "'f scheduler \<Rightarrow> nat \<Rightarrow> active \<Rightarrow> bool" where
  "task_is st t a \<longleftrightarrow> (\<exists>tk. ts_task st t = Some tk \<and> tk_active tk = a)"

lemma task_is_set_active: "p \<noteq> t \<Longrightarrow> task_is (ts_set_active st p a) t b = task_is st t b"
  by (simp add: task_is_def ts_task_set_active)

lemma task_is_subs [simp]: "task_is (st\<lparr>ts_subs := x\<rparr>) t b = task_is st t b"
  by (simp add: task_is_def)

lemma not_owned:
  assumes "ts_links st" "task_is st t a" "\<forall>s. a \<noteq> Owner s"
  shows "ts_subs st s \<noteq> Some t"
  using ts_linksD(1) [OF assms(1), of s t] assms(2,3) by (auto simp: task_is_def)

lemma sub_Reset_task_is:
  assumes "ts_links st" "task_is st t a" "\<forall>s. a \<noteq> Owner s"
  shows "task_is (sub_Reset st s) t a"
  using assms(2) not_owned [OF assms] by (simp add: task_is_def sub_Reset_task)

lemma sub_assign_task_is:
  assumes "ts_links st" "task_is st t a" "\<forall>s. a \<noteq> Owner s" "p \<noteq> Some t"
  shows "task_is (sub_assign st s p) t a"
  using sub_Reset_task_is [OF assms(1-3)] assms(4)
  by (cases p) (simp_all add: sub_assign_def Let_def task_is_set_active)

lemma sub_move_task_is:
  assumes "ts_links st" "task_is st t a" "\<forall>s. a \<noteq> Owner s"
  shows "task_is (sub_move st s other) t a"
proof (cases "ts_subs (sub_Reset st s) other")
  case (Some p)
  then have "p \<noteq> t" using not_owned [OF sub_Reset_links [OF assms(1)] sub_Reset_task_is [OF assms] assms(3)] by auto
  with Some assms(2) sub_Reset_task_is [OF assms] show ?thesis by (simp add: sub_move_def Let_def task_is_set_active)
qed (use assms(2) sub_Reset_task_is [OF assms] in \<open>simp add: sub_move_def Let_def\<close>)

lemma tm_create_task_is:
  "ts_inv cap st \<Longrightarrow> task_is st t a \<Longrightarrow> tm_create st f tp = (p, st1) \<Longrightarrow> p \<noteq> t \<and> task_is st1 t a"
  by (auto simp: tm_create_def task_is_def ts_inv_def dest: map_of_SomeD)

text \<open>Adding a task leaves the others alone.\<close>

lemma tm_Task_task_is:
  assumes inv: "ts_inv cap st" and t: "task_is st t a" and r: "tm_Task cap st f = (r, st')"
  shows "task_is st' t a \<and> r \<noteq> Some t"
proof -
  obtain p st1 where c: "tm_create st f 0 = (p, st1)" by fastforce
  note pt = tm_create_task_is [OF inv t c]
  from tm_Task_inv [OF inv r] r c have "st' = st \<and> r = None \<or> r = Some p \<and> (\<exists>q. st' = st1\<lparr>ts_regular := q\<rparr>)"
    by (auto simp: tm_Task_def split: prod.splits bool.splits if_splits)
  with pt t show ?thesis by (auto simp: task_is_def)
qed

lemma tm_DelayedTask_task_is:
  assumes inv: "ts_inv cap st" and t: "task_is st t a" and r: "tm_DelayedTask cap st f tp = (r, st')"
  shows "task_is st' t a \<and> r \<noteq> Some t"
proof -
  obtain p st1 where c: "tm_create st f tp = (p, st1)" by fastforce
  note pt = tm_create_task_is [OF inv t c]
  from tm_DelayedTask_inv [OF inv r] r c have "st' = st \<and> r = None \<or> r = Some p \<and> (\<exists>q. st' = st1\<lparr>ts_delayed := q\<rparr>)"
    by (auto simp: tm_DelayedTask_def split: prod.splits bool.splits if_splits)
  with pt t show ?thesis by (auto simp: task_is_def)
qed

lemma sch_store_task_is:
  assumes "ts_inv cap st" "task_is st t a" "\<forall>s. a \<noteq> Owner s" "p \<noteq> Some t" "sch_AddSafe (p, st) = (p', st')"
  shows "task_is (sch_store s (p', st')) t a"
proof -
  have f: "p' = p" "ts_inv cap st'" using sch_AddSafe_facts [OF assms(5), of cap] assms(1) by auto
  have "task_is st' t a" using assms(2,5) by (auto simp: sch_AddSafe_def task_is_def)
  then show ?thesis using sub_assign_task_is [of st' t a p] assms(3,4) f
    by (cases s) (simp_all add: sch_store_def ts_inv_def)
qed

lemma sch_call_task_is:
  assumes inv: "ts_inv cap st" and t: "task_is st t a" and a: "\<forall>s. a \<noteq> Owner s"
  shows "task_is (sch_call cap st c) t a"
proof (cases c)
  case (CallTask f s)
  obtain r st' where r: "tm_Task cap st f = (r, st')" by fastforce
  obtain r' st'' where s: "sch_AddSafe (r, st') = (r', st'')" by fastforce
  show ?thesis using sch_store_task_is [OF _ _ a _ s, of cap t] tm_Task_inv [OF inv r] tm_Task_task_is [OF inv t r] CallTask r s
    by (simp add: sch_Task_def)
next
  case (CallDelayed f tp s)
  obtain r st' where r: "tm_DelayedTask cap st f tp = (r, st')" by fastforce
  obtain r' st'' where s: "sch_AddSafe (r, st') = (r', st'')" by fastforce
  show ?thesis using sch_store_task_is [OF _ _ a _ s, of cap t] tm_DelayedTask_inv [OF inv r] tm_DelayedTask_task_is [OF inv t r] CallDelayed r s
    by (simp add: sch_DelayedTask_def)
next
  case (CallReset s)
  then show ?thesis using sub_Reset_task_is [OF _ t a] inv by (simp add: ts_inv_def)
next
  case (CallMove s other)
  then show ?thesis using sub_move_task_is [OF _ t a] inv by (simp add: ts_inv_def)
qed

lemma sch_calls_task_is:
  "ts_inv cap st \<Longrightarrow> task_is st t a \<Longrightarrow> \<forall>s. a \<noteq> Owner s \<Longrightarrow> task_is (foldl (sch_call cap) st cs) t a"
  by (induction cs arbitrary: st) (simp_all add: sch_call_inv sch_call_task_is)

text \<open>A round of tasks: each is invoked at most once and in order, a task without subscription always, a
  cancelled one never.\<close>

lemma sch_run_log:
  "ts_inv cap st \<Longrightarrow> sch_run cap calls st ts = (lg, st') \<Longrightarrow>
    subseq lg ts \<and> (\<forall>t. task_is st t kMagic \<longrightarrow> task_is st' t kMagic \<and> (t \<in> set ts \<longrightarrow> t \<in> set lg)) \<and>
    (\<forall>t. task_is st t Cancelled \<longrightarrow> task_is st' t Cancelled \<and> t \<notin> set lg)"
proof (induction ts arbitrary: st lg)
  case (Cons x ts)
  show ?case
  proof (cases "\<exists>tk. ts_task st x = Some tk \<and> tk_active tk \<noteq> Cancelled")
    case True
    then obtain tk where tk: "ts_task st x = Some tk" "tk_active tk \<noteq> Cancelled" by blast
    let ?s = "foldl (sch_call cap) st (calls (tk_body tk))"
    obtain l2 where l2: "sch_run cap calls ?s ts = (l2, st')" "lg = x # l2" using Cons.prems(2) tk by (auto split: prod.splits)
    have inv: "ts_inv cap ?s" using sch_calls_inv [OF Cons.prems(1)] by blast
    have "task_is ?s t kMagic" if "task_is st t kMagic" for t using sch_calls_task_is [OF Cons.prems(1) that] by simp
    moreover have "task_is ?s t Cancelled" if "task_is st t Cancelled" for t using sch_calls_task_is [OF Cons.prems(1) that] by simp
    moreover have "\<not> task_is st x Cancelled" using tk by (simp add: task_is_def)
    ultimately show ?thesis using Cons.IH [OF inv l2(1)] l2(2) by auto
  next
    case False
    then have "sch_run cap calls st ts = (lg, st')" using Cons.prems(2) by (auto split: option.splits)
    moreover have "\<not> task_is st x kMagic" using False by (auto simp: task_is_def)
    ultimately show ?thesis using Cons.IH [OF Cons.prems(1)] by (auto intro: list_emb.list_emb_Cons)
  qed
qed simp

text \<open>Delayed tasks stay in their queue, with their time, until they are taken.\<close>

definition keeps_delayed :: "'f scheduler \<Rightarrow> 'f scheduler \<Rightarrow> bool" where
  "keeps_delayed st st' \<longleftrightarrow> set (ts_delayed st) \<subseteq> set (ts_delayed st') \<and>
     (\<forall>x \<in> set (ts_delayed st). ts_expire st' x = ts_expire st x)"

lemma keeps_delayed_trans: "keeps_delayed a b \<Longrightarrow> keeps_delayed b c \<Longrightarrow> keeps_delayed a c"
  by (auto simp: keeps_delayed_def)

lemma same_tasks_keeps: "same_tasks st st' \<Longrightarrow> keeps_delayed st st'"
  by (simp add: same_tasks_def keeps_delayed_def)

lemma emplace_keeps:
  assumes "ts_inv cap st" "tm_create st f tp = (p, st1)" "set (ts_delayed st) \<subseteq> set (ts_delayed st')" "ts_pool st' = ts_pool st1"
  shows "keeps_delayed st st'"
proof -
  have "x \<noteq> p" if "x \<in> set (ts_delayed st)" for x using create_facts(1) [OF assms(1,2)] that by (auto simp: ts_ids_def)
  moreover have "ts_expire st' = ts_expire st1" using assms(4) by (simp add: ts_expire_def fun_eq_iff)
  ultimately show ?thesis using create_facts(4) [OF assms(1,2)] assms(3,4) by (simp add: keeps_delayed_def)
qed

lemma tm_Task_keeps:
  assumes inv: "ts_inv cap st" and r: "tm_Task cap st f = (r, st')"
  shows "keeps_delayed st st'"
proof -
  obtain p st1 where c: "tm_create st f 0 = (p, st1)" by fastforce
  have d: "ts_delayed st1 = ts_delayed st" using c by (auto simp: tm_create_def)
  from tm_Task_inv [OF inv r] r c have "st' = st \<or> (\<exists>q. st' = st1\<lparr>ts_regular := q\<rparr>)"
    by (auto simp: tm_Task_def split: prod.splits bool.splits if_splits)
  then show ?thesis
  proof
    assume "\<exists>q. st' = st1\<lparr>ts_regular := q\<rparr>"
    then show ?thesis using d by (intro emplace_keeps [OF inv c]) auto
  qed (simp add: keeps_delayed_def)
qed

lemma tm_DelayedTask_keeps:
  assumes inv: "ts_inv cap st" and r: "tm_DelayedTask cap st f tp = (r, st')"
  shows "keeps_delayed st st'"
proof -
  obtain p st1 where c: "tm_create st f tp = (p, st1)" by fastforce
  have d: "ts_delayed st1 = ts_delayed st" "ts_regular st1 = ts_regular st" using c by (auto simp: tm_create_def)
  from tm_DelayedTask_inv [OF inv r] r c d(1) have "st' = st \<or> (\<exists>q. st' = st1\<lparr>ts_delayed := q\<rparr> \<and> dq_Add cap (ts_expire st1) (ts_delayed st) p = (True, q))"
    by (auto simp: tm_DelayedTask_def split: prod.splits bool.splits if_splits)
  then show ?thesis
  proof
    assume "\<exists>q. st' = st1\<lparr>ts_delayed := q\<rparr> \<and> dq_Add cap (ts_expire st1) (ts_delayed st) p = (True, q)"
    then obtain q where q: "st' = st1\<lparr>ts_delayed := q\<rparr>" "dq_Add cap (ts_expire st1) (ts_delayed st) p = (True, q)" by blast
    from dq_Add_sorted [OF create_facts(6) [OF inv c] q(2)] q(1) show ?thesis by (intro emplace_keeps [OF inv c]) auto
  qed (simp add: keeps_delayed_def)
qed

lemma sch_store_keeps: "sch_AddSafe (p, st) = (p', st') \<Longrightarrow> keeps_delayed st (sch_store s (p', st'))"
proof -
  assume a: "sch_AddSafe (p, st) = (p', st')"
  then have "keeps_delayed st st'" by (auto simp: sch_AddSafe_def keeps_delayed_def ts_expire_def)
  then show ?thesis using keeps_delayed_trans same_tasks_keeps [OF sub_assign_tasks [of st' _ p']]
    by (cases s) (auto simp: sch_store_def)
qed

lemma sch_call_keeps:
  assumes inv: "ts_inv cap st"
  shows "keeps_delayed st (sch_call cap st c)"
proof (cases c)
  case (CallTask f s)
  obtain r st' where r: "tm_Task cap st f = (r, st')" by fastforce
  obtain r' st'' where s: "sch_AddSafe (r, st') = (r', st'')" by fastforce
  show ?thesis using keeps_delayed_trans [OF tm_Task_keeps [OF inv r] sch_store_keeps [OF s]] CallTask r s by (simp add: sch_Task_def)
next
  case (CallDelayed f tp s)
  obtain r st' where r: "tm_DelayedTask cap st f tp = (r, st')" by fastforce
  obtain r' st'' where s: "sch_AddSafe (r, st') = (r', st'')" by fastforce
  show ?thesis using keeps_delayed_trans [OF tm_DelayedTask_keeps [OF inv r] sch_store_keeps [OF s]] CallDelayed r s
    by (simp add: sch_DelayedTask_def)
qed (simp_all add: same_tasks_keeps)

lemma sch_calls_keeps: "ts_inv cap st \<Longrightarrow> keeps_delayed st (foldl (sch_call cap) st cs)"
proof (induction cs arbitrary: st)
  case (Cons c cs)
  have "keeps_delayed (sch_call cap st c) (foldl (sch_call cap) (sch_call cap st c) cs)"
    using Cons.IH sch_call_inv [OF Cons.prems] by blast
  with keeps_delayed_trans [OF sch_call_keeps [OF Cons.prems]] show ?case by simp
qed (simp add: keeps_delayed_def)

lemma sch_run_keeps: "ts_inv cap st \<Longrightarrow> sch_run cap calls st ts = (lg, st') \<Longrightarrow> keeps_delayed st st'"
proof (induction ts arbitrary: st lg)
  case (Cons x ts)
  have "\<exists>l2 cs. sch_run cap calls (foldl (sch_call cap) st cs) ts = (l2, st')"
    using Cons.prems(2) exI [of "\<lambda>cs. \<exists>l2. sch_run cap calls (foldl (sch_call cap) st cs) ts = (l2, st')" "[]"]
    by (auto split: option.splits prod.splits if_splits)
  then obtain l2 cs where "sch_run cap calls (foldl (sch_call cap) st cs) ts = (l2, st')" by blast
  from Cons.IH [OF _ this] sch_calls_inv [OF Cons.prems(1)] keeps_delayed_trans [OF sch_calls_keeps [OF Cons.prems(1)]]
  show ?case by blast
qed (simp add: keeps_delayed_def)

lemma distinct_subseq: "subseq xs ys \<Longrightarrow> distinct ys \<Longrightarrow> distinct xs"
  by (auto simp: subseq_conv_nths)

text \<open>What a round of regular tasks does to a state with nothing being run.\<close>

lemma sch_UpdateRegular_log:
  assumes inv: "ts_inv cap st" and r: "ts_reg_list st = []" and u: "sch_UpdateRegular cap calls st = (lg, st')"
  shows "subseq lg (ts_regular st)" "\<And>t. task_is st t kMagic \<Longrightarrow> t \<in> set (ts_regular st) \<Longrightarrow> t \<in> set lg"
    "\<And>t. task_is st t Cancelled \<Longrightarrow> t \<notin> set lg" "keeps_delayed st st'"
    "\<And>t a. a = kMagic \<or> a = Cancelled \<Longrightarrow> task_is st t a \<Longrightarrow> t \<notin> set (ts_regular st) \<Longrightarrow> task_is st' t a"
    "set (ts_regular st) \<inter> set (ts_ids st') = {}"
proof -
  let ?s = "st\<lparr>ts_regular := [], ts_reg_list := ts_regular st\<rparr>"
  have "length (ts_regular st) \<le> cap" using ts_ids_length [OF inv] inv by (simp add: ts_ids_def ts_inv_def)
  then have steal: "tq_StealTasks cap (ts_regular st) [] = (ts_regular st, [])" by (simp add: tq_StealTasks_def Let_def)
  have e: "ts_expire ?s = ts_expire st" by (simp add: ts_expire_def fun_eq_iff)
  then have inv0: "ts_inv cap ?s" using inv r by (auto simp: ts_inv_def ts_ids_def ts_links_def ts_sorted_def)
  obtain st1 where run: "sch_run cap calls ?s (ts_regular st) = (lg, st1)"
    and st': "st' = (ts_Free st1 (ts_reg_list st1))\<lparr>ts_reg_list := []\<rparr>"
    using u r steal by (auto simp: sch_UpdateRegular_def split: prod.splits)
  have i1: "ts_inv cap st1" "ts_reg_list st1 = ts_regular st" using sch_run_inv [OF inv0 run] by auto
  note l = sch_run_log [OF inv0 run]
  note f = ts_Free_facts [of st1 "ts_reg_list st1"]
  have pool: "ts_pool st' = filter (\<lambda>(k, t). k \<notin> set (ts_regular st)) (ts_pool st1)"
    and fl: "ts_regular st' = ts_regular st1" "ts_delayed st' = ts_delayed st1" "ts_delay_list st' = ts_delay_list st1" "ts_reg_list st' = []"
    using f i1 st' by (auto simp: ts_inv_def)
  have t0: "task_is ?s = task_is st" by (simp add: task_is_def fun_eq_iff)
  show "subseq lg (ts_regular st)" "\<And>t. task_is st t kMagic \<Longrightarrow> t \<in> set (ts_regular st) \<Longrightarrow> t \<in> set lg"
    "\<And>t. task_is st t Cancelled \<Longrightarrow> t \<notin> set lg" using l unfolding t0 by auto
  have disj: "set (ts_regular st) \<inter> (set (ts_regular st1) \<union> set (ts_delayed st1) \<union> set (ts_delay_list st1)) = {}"
    using i1 by (auto simp: ts_inv_def ts_ids_def)
  then show "set (ts_regular st) \<inter> set (ts_ids st') = {}" unfolding ts_ids_def fl by auto
  have "keeps_delayed ?s st1" using sch_run_keeps [OF inv0 run] .
  then have "keeps_delayed st st1" unfolding keeps_delayed_def e by simp
  moreover have "keeps_delayed st1 st'"
    using ts_expire_filter [OF pool] disj fl unfolding keeps_delayed_def by auto
  ultimately show "keeps_delayed st st'" by (rule keeps_delayed_trans)
  show "task_is st' t a" if "a = kMagic \<or> a = Cancelled" "task_is st t a" "t \<notin> set (ts_regular st)" for t a
  proof -
    have "task_is st1 t a" using l that unfolding t0 by auto
    moreover have "map_of (filter (\<lambda>(k, t). k \<notin> A) xs) x = map_of xs x" if "x \<notin> A" for A x and xs :: "(nat \<times> 'a task) list"
      using that by (induction xs) auto
    ultimately show ?thesis using that(3) by (simp add: task_is_def pool)
  qed
qed

lemma sch_UpdateDelayed_log:
  assumes inv: "ts_inv cap st" and r: "ts_delay_list st = []" and u: "sch_UpdateDelayed cap calls st now = (lg, st')"
  shows "subseq lg (filter (\<lambda>x. ts_expire st x \<le> now) (ts_delayed st))"
    "\<And>t. task_is st t kMagic \<Longrightarrow> t \<in> set (ts_delayed st) \<Longrightarrow> ts_expire st t \<le> now \<Longrightarrow> t \<in> set lg"
    "\<And>t. task_is st t Cancelled \<Longrightarrow> t \<notin> set lg"
proof -
  let ?D = "filter (\<lambda>x. ts_expire st x \<le> now) (ts_delayed st)" and ?K = "filter (\<lambda>x. \<not> ts_expire st x \<le> now) (ts_delayed st)"
  let ?s = "st\<lparr>ts_delayed := ?K, ts_delay_list := ?D\<rparr>"
  have len: "length (ts_delayed st) \<le> cap" using ts_ids_length [OF inv] inv by (simp add: ts_ids_def ts_inv_def)
  have srt: "sorted_wrt (\<lambda>a b. ts_expire st b \<le> ts_expire st a) (ts_delayed st)" using inv by (simp add: ts_inv_def ts_sorted_def)
  note steal = dq_StealTasks_expired [OF srt len, of now "[]"]
  have "ts_expire ?s = ts_expire st" by (simp add: ts_expire_def fun_eq_iff)
  moreover have "set ?D \<union> set ?K = set (ts_delayed st)" by auto
  ultimately have inv0: "ts_inv cap ?s" using inv r
    by (auto simp: ts_inv_def ts_ids_def ts_links_def ts_sorted_def sorted_wrt_filter)
  obtain st1 where run: "sch_run cap calls ?s ?D = (lg, st1)"
    using u r steal by (auto simp: sch_UpdateDelayed_def split: prod.splits)
  have t0: "task_is ?s = task_is st" by (simp add: task_is_def fun_eq_iff)
  show "subseq lg ?D" "\<And>t. task_is st t kMagic \<Longrightarrow> t \<in> set (ts_delayed st) \<Longrightarrow> ts_expire st t \<le> now \<Longrightarrow> t \<in> set lg"
    "\<And>t. task_is st t Cancelled \<Longrightarrow> t \<notin> set lg" using sch_run_log [OF inv0 run] unfolding t0 by auto
qed

text \<open>(C3) The scheduler never loses, duplicates or leaks a task: in every reachable state each live task is
  in exactly one queue and nowhere else, a subscription and the task it refers to point at each other
  (so no subscription dangles), the pool never exceeds its capacity and the delayed queue is sorted.\<close>

theorem scheduler_invariant:
  assumes "sch_reachable cap calls st"
  shows "distinct (ts_regular st @ ts_delayed st) \<and> set (ts_regular st @ ts_delayed st) = fst ` set (ts_pool st) \<and>
    length (ts_pool st) \<le> cap \<and>
    (\<forall>s p. ts_subs st s = Some p \<longleftrightarrow> (\<exists>t. ts_task st p = Some t \<and> tk_active t = Owner s)) \<and>
    sorted_wrt (\<lambda>a b. ts_expire st b \<le> ts_expire st a) (ts_delayed st)"
proof -
  note i = reachable_inv [OF assms]
  then have "ts_ids st = ts_regular st @ ts_delayed st" by (simp add: ts_ids_def)
  with i show ?thesis by (simp add: ts_inv_def ts_links_def ts_sorted_def)
qed

text \<open>A scheduler with a regular task, a delayed one and one that was cancelled.\<close>

definition test_scheduler :: "nat scheduler" where
  "test_scheduler = foldl (sch_call 4) ts_make [CallTask 7 None, CallDelayed 8 5 None, CallTask 9 (Some 0), CallReset 0]"

lemma test_scheduler_reachable: "sch_reachable 4 calls test_scheduler"
  unfolding test_scheduler_def by (simp del: sch_call.simps add: sch_reachable.intros)

lemma test_scheduler_eq:
  "test_scheduler = \<lparr>ts_pool = [(2, \<lparr>tk_active = Cancelled, tk_body = 9, tk_expire_at = 0\<rparr>),
       (1, \<lparr>tk_active = kMagic, tk_body = 8, tk_expire_at = 5\<rparr>), (0, \<lparr>tk_active = kMagic, tk_body = 7, tk_expire_at = 0\<rparr>)],
     ts_next = 3, ts_regular = [0, 2], ts_delayed = [1], ts_reg_list = [], ts_delay_list = [], ts_trigger = True,
     ts_overflow = 0, ts_subs = (\<lambda>_. None)\<rparr>"
  by (simp add: test_scheduler_def ts_make_def sch_Task_def sch_DelayedTask_def sch_AddSafe_def sch_store_def tm_Task_def
      tm_DelayedTask_def tm_create_def tq_Add_def dq_Add_def Let_def sub_assign_def sub_Reset_def ts_set_active_def fun_eq_iff)

theorem scheduler_invariant_witness:
  "set (ts_regular test_scheduler @ ts_delayed test_scheduler) = {0, 1, 2}"
  using scheduler_invariant [OF test_scheduler_reachable [of "\<lambda>_. []"]] by (auto simp: test_scheduler_eq)

text \<open>(C4) An update makes progress: every task that was waiting in the regular queue, and every delayed task
  whose time has come, is invoked if it has no subscription that could cancel it; a cancelled task is
  never invoked; nothing is invoked twice.  This holds whatever the callbacks that run do.\<close>

theorem update_runs_due_tasks:
  assumes "sch_reachable cap calls st" and u: "sch_Update debug cap calls st now = ((lg, nxt), st')"
  shows "distinct lg \<and> (\<forall>t. task_is st t Cancelled \<longrightarrow> t \<notin> set lg) \<and>
    (\<forall>t. task_is st t kMagic \<longrightarrow> t \<in> set (ts_regular st) \<or> t \<in> set (ts_delayed st) \<and> ts_expire st t \<le> now \<longrightarrow> t \<in> set lg)"
proof (intro conjI allI impI)
  have i: "ts_inv cap st" "ts_reg_list st = []" "ts_delay_list st = []" using reachable_inv [OF assms(1)] by auto
  define st0 where "st0 = st\<lparr>ts_trigger := False, ts_overflow := (if debug then 0 else ts_overflow st)\<rparr>"
  have e: "ts_expire st0 = ts_expire st" "task_is st0 = task_is st" "ts_regular st0 = ts_regular st" "ts_delayed st0 = ts_delayed st"
    by (simp_all add: st0_def ts_expire_def task_is_def fun_eq_iff)
  have inv0: "ts_inv cap st0" "ts_reg_list st0 = []" "ts_delay_list st0 = []"
    using i unfolding ts_inv_def ts_sorted_def e by (simp_all add: st0_def ts_ids_def ts_links_def)
  obtain l1 st1 where u1: "sch_UpdateRegular cap calls st0 = (l1, st1)" by fastforce
  note i1 = sch_UpdateRegular_inv [OF inv0(1,2) u1] and r = sch_UpdateRegular_log [OF inv0(1,2) u1, unfolded e]
  obtain l2 st2 where u2: "sch_UpdateDelayed cap calls st1 now = (l2, st2)" by fastforce
  have d1: "ts_inv cap st1" "ts_delay_list st1 = []" using i1 inv0(3) by simp_all
  note d = sch_UpdateDelayed_log [OF d1 u2]
  have lg: "lg = l1 @ l2" using u u1 u2 by (simp add: sch_Update_def Let_def st0_def [symmetric])
  have reg: "distinct (ts_regular st)" "distinct (ts_delayed st1)" "set (ts_regular st) \<inter> set (ts_delayed st) = {}"
    using inv0(1) d1(1) e by (auto simp: ts_inv_def ts_ids_def)
  have s1: "set l1 \<subseteq> set (ts_regular st)" using list_emb_set [OF r(1)] by blast
  have s2: "set l2 \<subseteq> set (ts_delayed st1)" using list_emb_set [OF d(1)] by auto
  have dis: "set (ts_regular st) \<inter> set (ts_delayed st1) = {}" using r(6) by (auto simp: ts_ids_def)
  have "distinct l1" using distinct_subseq [OF r(1) reg(1)] .
  moreover have "distinct l2" using distinct_subseq [OF d(1)] reg(2) by simp
  ultimately show "distinct lg" using s1 s2 dis unfolding lg by (auto simp: distinct_append)
  show "t \<notin> set lg" if "task_is st t Cancelled" for t
  proof (cases "t \<in> set (ts_regular st)")
    case True
    then show ?thesis using r(3) [OF that] s2 dis unfolding lg by auto
  next
    case False
    then show ?thesis using r(3) [OF that] d(3) [OF r(5) [OF disjI2 [OF refl] that False]] unfolding lg by simp
  qed
  show "t \<in> set lg" if m: "task_is st t kMagic" and q: "t \<in> set (ts_regular st) \<or> t \<in> set (ts_delayed st) \<and> ts_expire st t \<le> now" for t
  proof (cases "t \<in> set (ts_regular st)")
    case False
    have k: "task_is st1 t kMagic" using r(5) [OF disjI1 [OF refl] m False] .
    have "t \<in> set (ts_delayed st1)" "ts_expire st1 t \<le> now" using False q r(4) unfolding keeps_delayed_def e by auto
    from d(2) [OF k this] show ?thesis by (simp add: lg)
  next
    case True
    then show ?thesis using r(2) [OF m] by (simp add: lg)
  qed
qed

theorem update_runs_due_tasks_witness:
  "\<exists>lg nxt st'. sch_Update False 4 (\<lambda>_. []) test_scheduler 5 = ((lg, nxt), st') \<and> 0 \<in> set lg \<and> 1 \<in> set lg \<and> 2 \<notin> set lg"
proof -
  obtain lg nxt st' where u: "sch_Update False 4 (\<lambda>_. []) test_scheduler 5 = ((lg, nxt), st')" by (metis prod.exhaust)
  have "task_is test_scheduler 0 kMagic" "task_is test_scheduler 1 kMagic" "task_is test_scheduler 2 Cancelled"
    "0 \<in> set (ts_regular test_scheduler)" "1 \<in> set (ts_delayed test_scheduler)" "ts_expire test_scheduler 1 \<le> 5"
    by (simp_all add: test_scheduler_eq task_is_def ts_expire_def)
  with update_runs_due_tasks [OF test_scheduler_reachable u] have "0 \<in> set lg \<and> 1 \<in> set lg \<and> 2 \<notin> set lg" by blast
  with u show ?thesis by blast
qed

text \<open>(C22) Tasks whose time has come run in the wrong order: after any additions, what an update takes from
  the delayed queue is the expired tasks sorted stably by time and then reversed, so a task that expires
  later runs before one that expires earlier, and of two with equal times the one added last runs first.\<close>

theorem expired_tasks_run_latest_first:
  assumes "length ps \<le> cap"
  shows "fst (dq_StealTasks cap e now (foldl (\<lambda>q p. snd (dq_Add cap e q p)) [] ps) []) =
    rev (sort_key e (filter (\<lambda>p. e p \<le> now) ps))"
proof -
  let ?q = "\<lambda>ps. foldl (\<lambda>q p. snd (dq_Add cap e q p)) [] ps"
  have inv: "sorted_wrt (\<lambda>a b. e b \<le> e a) (?q ps) \<and> mset (?q ps) = mset ps \<and>
      (\<forall>k. filter (\<lambda>x. e k = e x) (rev (?q ps)) = filter (\<lambda>x. e k = e x) ps)" using assms
  proof (induction ps rule: rev_induct)
    case (snoc p ps)
    let ?r = "?q ps"
    have IH: "sorted_wrt (\<lambda>a b. e b \<le> e a) ?r" "mset ?r = mset ps" "\<And>k. filter (\<lambda>x. e k = e x) (rev ?r) = filter (\<lambda>x. e k = e x) ps"
      using snoc by auto
    have len: "length ?r \<noteq> cap" using snoc.prems mset_eq_length [OF IH(2)] by simp
    obtain a b where ab: "?r = a @ b" "dq_Add cap e ?r p = (True, a @ [p] @ b)" "\<forall>x \<in> set b. e x \<le> e p" "a = [] \<or> e p < e (last a)"
      using dq_Add_split [OF len, of e p] by blast
    have "\<forall>x \<in> set a. e p < e x"
    proof (cases a rule: rev_cases)
      case (snoc ys y)
      then have "\<forall>x \<in> set ys. e y \<le> e x" using IH(1) ab(1) by (auto simp: sorted_wrt_append)
      then show ?thesis using snoc ab(4) by fastforce
    qed simp
    then have fa: "filter (\<lambda>x. e p = e x) (rev a) = []" by (auto simp: filter_empty_conv)
    have "filter (\<lambda>x. e k = e x) (rev (a @ [p] @ b)) = filter (\<lambda>x. e k = e x) (ps @ [p])" for k
      using IH(3) [of k] fa by (cases "e k = e p") (auto simp: ab(1))
    then show ?case using dq_Add_sorted [OF IH(1) ab(2)] IH(2) ab(1,2) by simp
  qed simp
  then have "sort_key e ps = rev (?q ps)"
    by (intro properties_for_sort_key) (simp_all add: sorted_map sorted_wrt_rev)
  then have q: "?q ps = rev (sort_key e ps)" by simp
  have "length (?q ps) \<le> cap" using assms unfolding q by simp
  from dq_StealTasks_expired [OF _ this, of e now "[]"] inv show ?thesis
    unfolding q by (simp add: rev_filter [symmetric] filter_sort)
qed

theorem expired_tasks_run_latest_first_witness:
  "fst (dq_StealTasks 9 (\<lambda>p. p div 10) 4 (foldl (\<lambda>q p. snd (dq_Add 9 (\<lambda>p. p div 10) q p)) [] [31, 12, 55, 13]) []) = [31, 13, 12]"
  using expired_tasks_run_latest_first [of "[31, 12, 55, 13]" 9 "\<lambda>p. p div 10" 4] by simp

end
