(* ===== verification/Address.thy ===== *)
theory Address
  imports Mstream "HOL-Library.Char_ord" "HOL-Library.List_Lexorder"
begin

unbundle bit_operations_syntax

text \<open>
  \<^verbatim>\<open>aether/types/address.h\<close>, \<^verbatim>\<open>address.cpp\<close>, \<^verbatim>\<open>address_parser.h\<close>, \<^verbatim>\<open>variant_type.h\<close>, \<^verbatim>\<open>uid.h\<close> and \<^verbatim>\<open>literal_array.h\<close>:
  addresses and identifiers as values, as text and as bytes.

  Text is a list of characters.  The switches \<^verbatim>\<open>AE_SUPPORT_IPV4\<close>, \<^verbatim>\<open>AE_SUPPORT_IPV6\<close> and \<^verbatim>\<open>AE_SUPPORT_CLOUD_DNS\<close> of the build are
  the record \<open>addr_support\<close>.  The decimal printing of an \<^verbatim>\<open>int\<close> is that of another package and a parameter.  A write
  outside of an array is the error value \<open>OutOfBounds\<close>.
\<close>

datatype AddrVersion = kNull | kIpV4 | kIpV6 | kNamed

datatype Address = IpV4Addr "byte list" | IpV6Addr "byte list" | NamedAddr string

datatype Protocol = kTcp | kUdp | kWebSocket

record Endpoint =
  ep_address :: Address
  ep_port :: nat
  ep_protocol :: Protocol

record addr_support =
  sup_ipv4 :: bool
  sup_ipv6 :: bool
  sup_dns :: bool

fun version_index :: "AddrVersion \<Rightarrow> nat" where
  "version_index kNull = 0"
| "version_index kIpV4 = 1"
| "version_index kIpV6 = 2"
| "version_index kNamed = 3"

fun protocol_index :: "Protocol \<Rightarrow> nat" where
  "protocol_index kTcp = 0"
| "protocol_index kUdp = 1"
| "protocol_index kWebSocket = 2"

fun addr_Index :: "Address \<Rightarrow> AddrVersion" where
  "addr_Index (IpV4Addr _) = kIpV4"
| "addr_Index (IpV6Addr _) = kIpV6"
| "addr_Index (NamedAddr _) = kNamed"


subsection \<open>Comparison\<close>

definition v4_eq :: "addr_support \<Rightarrow> byte list \<Rightarrow> byte list \<Rightarrow> bool" where
  "v4_eq cfg a b = (if sup_ipv4 cfg then a = b else False)"

definition v4_lt :: "addr_support \<Rightarrow> byte list \<Rightarrow> byte list \<Rightarrow> bool" where
  "v4_lt cfg a b = (if sup_ipv4 cfg then map unat a < map unat b else False)"

definition v6_eq :: "addr_support \<Rightarrow> byte list \<Rightarrow> byte list \<Rightarrow> bool" where
  "v6_eq cfg a b = (if sup_ipv6 cfg then a = b else False)"

definition v6_lt :: "addr_support \<Rightarrow> byte list \<Rightarrow> byte list \<Rightarrow> bool" where
  "v6_lt cfg a b = (if sup_ipv6 cfg then map unat a < map unat b else False)"

definition named_eq :: "string \<Rightarrow> string \<Rightarrow> bool" where
  "named_eq a b \<longleftrightarrow> a = b"

definition named_lt :: "string \<Rightarrow> string \<Rightarrow> bool" where
  "named_lt a b \<longleftrightarrow> a < b"

fun addr_eq :: "addr_support \<Rightarrow> Address \<Rightarrow> Address \<Rightarrow> bool" where
  "addr_eq cfg (IpV4Addr a) (IpV4Addr b) = (sup_ipv4 cfg \<and> v4_eq cfg a b)"
| "addr_eq cfg (IpV6Addr a) (IpV6Addr b) = (sup_ipv6 cfg \<and> v6_eq cfg a b)"
| "addr_eq cfg (NamedAddr a) (NamedAddr b) = (sup_dns cfg \<and> named_eq a b)"
| "addr_eq cfg _ _ = False"

definition addr_lt :: "addr_support \<Rightarrow> Address \<Rightarrow> Address \<Rightarrow> bool" where
  "addr_lt cfg l r =
     (if version_index (addr_Index l) < version_index (addr_Index r) then True
      else if version_index (addr_Index r) < version_index (addr_Index l) then False
      else case (l, r) of
             (IpV4Addr a, IpV4Addr b) \<Rightarrow> sup_ipv4 cfg \<and> v4_lt cfg a b
           | (IpV6Addr a, IpV6Addr b) \<Rightarrow> sup_ipv6 cfg \<and> v6_lt cfg a b
           | (NamedAddr a, NamedAddr b) \<Rightarrow> sup_dns cfg \<and> named_lt a b
           | _ \<Rightarrow> False)"

definition endpoint_lt :: "addr_support \<Rightarrow> Endpoint \<Rightarrow> Endpoint \<Rightarrow> bool" where
  "endpoint_lt cfg l r =
     (if addr_eq cfg (ep_address l) (ep_address r)
      then (if ep_port l = ep_port r then protocol_index (ep_protocol l) < protocol_index (ep_protocol r)
            else ep_port l < ep_port r)
      else addr_lt cfg (ep_address l) (ep_address r))"


subsection \<open>Text\<close>

definition IsDigit :: "char \<Rightarrow> bool" where
  "IsDigit c \<longleftrightarrow> CHR ''0'' \<le> c \<and> c \<le> CHR ''9''"

definition IsXDigit :: "char \<Rightarrow> bool" where
  "IsXDigit c \<longleftrightarrow> (CHR ''0'' \<le> c \<and> c \<le> CHR ''9'') \<or> (CHR ''a'' \<le> c \<and> c \<le> CHR ''f'') \<or> (CHR ''A'' \<le> c \<and> c \<le> CHR ''F'')"

definition FromHex :: "char \<Rightarrow> nat" where
  "FromHex ch =
     (if CHR ''0'' \<le> ch \<and> ch \<le> CHR ''9'' then of_char ch - of_char (CHR ''0'')
      else if CHR ''a'' \<le> ch \<and> ch \<le> CHR ''f'' then of_char ch - of_char (CHR ''a'') + 10
      else if CHR ''A'' \<le> ch \<and> ch \<le> CHR ''F'' then of_char ch - of_char (CHR ''A'') + 10
      else 0)"

definition newline :: char where
  "newline = CHR 0x0A"

fun v4_loop :: "byte list \<Rightarrow> nat \<Rightarrow> string \<Rightarrow> byte list option" where
  "v4_loop a triplets_i [] = Some a"
| "v4_loop a triplets_i (c # cs) =
     (if c = newline then Some a
      else if c = CHR ''.'' then (if triplets_i + 1 \<ge> 4 then None else v4_loop a (triplets_i + 1) cs)
      else if \<not> IsDigit c then None
      else v4_loop (a[triplets_i := of_nat (unat (a ! triplets_i) * 10 + (of_char c - of_char (CHR ''0'')))]) triplets_i cs)"

definition IpV4Parse :: "string \<Rightarrow> byte list option" where
  "IpV4Parse addr = v4_loop [0, 0, 0, 0] 0 addr"

datatype parse_fault = OutOfBounds

text \<open>The digits of a segment: at most four, and not the colon or newline behind them.\<close>

fun v6_hex :: "nat \<Rightarrow> nat \<Rightarrow> string \<Rightarrow> (nat \<times> string) option" where
  "v6_hex v digits [] = Some (v, [])"
| "v6_hex v digits (c # cs) =
     (if c = CHR '':'' \<or> c = newline then Some (v, c # cs)
      else if \<not> IsXDigit c then None
      else (let v' = u16 (v * 16) OR FromHex c
            in if digits + 1 \<ge> 4 then Some (v', cs) else v6_hex v' (digits + 1) cs))"

record v6_state =
  v6_segments :: "nat list"
  v6_seg_index :: nat
  v6_compress_pos :: nat
  v6_has_compression :: bool

lemma v6_hex_length: "v6_hex v d s = Some (v', s') \<Longrightarrow> length s' \<le> length s"
  by (induction v d s rule: v6_hex.induct) (auto simp: Let_def split: if_splits)

lemma v6_hex_shorter: "v6_hex v d (c # cs) = Some (v', s') \<Longrightarrow> c \<noteq> CHR '':'' \<Longrightarrow> c \<noteq> newline \<Longrightarrow> length s' < length (c # cs)"
  by (auto simp: Let_def split: if_splits dest: v6_hex_length)

text \<open>The loop over the text: \<open>Inl\<close> is a write outside of the segments, \<open>Inr None\<close> a text that is no address.\<close>

function v6_loop :: "v6_state \<Rightarrow> string \<Rightarrow> parse_fault + v6_state option" where
  "v6_loop st [] = Inr (Some st)"
| "v6_loop st (c # cs) =
     (if v6_seg_index st > 8 then Inr None
      else if c = newline then Inr (Some st)
      else if c = CHR '':''
      then (if cs \<noteq> [] \<and> hd cs = CHR '':''
            then (if v6_has_compression st then Inr None
                  else v6_loop (st\<lparr>v6_has_compression := True, v6_compress_pos := v6_seg_index st\<rparr>) (tl cs))
            else if v6_seg_index st = 0 then Inr None
            else v6_loop st cs)
      else case v6_hex 0 0 (c # cs) of
             None \<Rightarrow> Inr None
           | Some (v, rest) \<Rightarrow>
               if v6_seg_index st \<ge> length (v6_segments st) then Inl OutOfBounds
               else v6_loop (st\<lparr>v6_segments := (v6_segments st)[v6_seg_index st := v],
                               v6_seg_index := v6_seg_index st + 1\<rparr>) rest)"
  by pat_completeness auto
termination
  by (relation "measure (\<lambda>(st, s). length s)") (auto dest: v6_hex_shorter simp del: v6_hex.simps)

text \<open>The shift of the segments behind the compression, from the last one down.\<close>

fun v6_shift :: "nat list \<Rightarrow> nat \<Rightarrow> nat \<Rightarrow> nat \<Rightarrow> nat list option" where
  "v6_shift segs shift pos 0 = Some segs"
| "v6_shift segs shift pos (Suc j) =
     (if Suc j > pos
      then (if j \<ge> 8 \<or> sz_sub (sz_add (Suc j) shift) 1 \<ge> 8 then None
            else v6_shift (segs[sz_sub (sz_add (Suc j) shift) 1 := segs ! j, j := 0]) shift pos j)
      else Some segs)"

definition v6_bytes :: "nat list \<Rightarrow> byte list" where
  "v6_bytes segs = map (\<lambda>i. of_nat ((segs ! (i div 2) div 2 ^ ((1 - i mod 2) * 8)) mod 256)) [0..<16]"

definition IpV6Parse :: "string \<Rightarrow> parse_fault + byte list option" where
  "IpV6Parse addr =
     (case v6_loop \<lparr>v6_segments = replicate 8 0, v6_seg_index = 0, v6_compress_pos = 0, v6_has_compression = False\<rparr> addr of
        Inl e \<Rightarrow> Inl e
      | Inr None \<Rightarrow> Inr None
      | Inr (Some st) \<Rightarrow>
          if v6_has_compression st
          then (let total_segs = v6_seg_index st;
                    shift = sz_add (sz_sub 8 total_segs) (if v6_compress_pos st < total_segs then 0 else 1)
                in case v6_shift (v6_segments st) shift (v6_compress_pos st) total_segs of
                     None \<Rightarrow> Inr None
                   | Some segs \<Rightarrow> Inr (Some (v6_bytes segs)))
          else Inr (Some (v6_bytes (v6_segments st))))"

definition StringToAddress :: "string \<Rightarrow> parse_fault + Address" where
  "StringToAddress s =
     (case IpV4Parse s of
        Some a \<Rightarrow> Inr (IpV4Addr a)
      | None \<Rightarrow>
          (case IpV6Parse s of
             Inl e \<Rightarrow> Inl e
           | Inr (Some a) \<Rightarrow> Inr (IpV6Addr a)
           | Inr None \<Rightarrow> Inr (NamedAddr s)))"

text \<open>Printing; \<open>fmt\<close> prints an \<^verbatim>\<open>int\<close>, and \<^verbatim>\<open>std::to_chars\<close> with base 16 has lower case digits and no leading zero.\<close>

definition hex_digit :: "nat \<Rightarrow> char" where
  "hex_digit n = (if n < 10 then char_of (of_char (CHR ''0'') + n) else char_of (of_char (CHR ''a'') + (n - 10)))"

definition to_chars_hex :: "byte \<Rightarrow> string" where
  "to_chars_hex b = (if unat b < 16 then [hex_digit (unat b)] else [hex_digit (unat b div 16), hex_digit (unat b mod 16)])"

definition format_ipv4 :: "addr_support \<Rightarrow> (nat \<Rightarrow> string) \<Rightarrow> byte list \<Rightarrow> string" where
  "format_ipv4 cfg fmt a =
     (if sup_ipv4 cfg
      then fmt (unat (a ! 0)) @ ''.'' @ fmt (unat (a ! 1)) @ ''.'' @ fmt (unat (a ! 2)) @ ''.'' @ fmt (unat (a ! 3))
      else [])"

definition format_ipv6 :: "addr_support \<Rightarrow> byte list \<Rightarrow> string" where
  "format_ipv6 cfg a =
     (if sup_ipv6 cfg then concat (map (\<lambda>i. to_chars_hex (a ! i) @ (if i < 15 then '':'' else [])) [0..<16]) else [])"

definition format_named :: "addr_support \<Rightarrow> string \<Rightarrow> string" where
  "format_named cfg name = (if sup_dns cfg then name else [])"

fun format_address :: "addr_support \<Rightarrow> (nat \<Rightarrow> string) \<Rightarrow> Address \<Rightarrow> string" where
  "format_address cfg fmt (IpV4Addr a) = format_ipv4 cfg fmt a"
| "format_address cfg fmt (IpV6Addr a) = format_ipv6 cfg a"
| "format_address cfg fmt (NamedAddr n) = format_named cfg n"

definition format_address_port :: "addr_support \<Rightarrow> (nat \<Rightarrow> string) \<Rightarrow> Address \<Rightarrow> nat \<Rightarrow> string" where
  "format_address_port cfg fmt a port = format_address cfg fmt a @ '':'' @ fmt port"

definition format_endpoint :: "addr_support \<Rightarrow> (nat \<Rightarrow> string) \<Rightarrow> Endpoint \<Rightarrow> string" where
  "format_endpoint cfg fmt ep =
     format_address cfg fmt (ep_address ep) @ '':'' @ fmt (ep_port ep) @ '' protocol:'' @ fmt (protocol_index (ep_protocol ep))"


subsection \<open>Bytes\<close>

text \<open>\<^verbatim>\<open>VariantType\<close>: the index of an alternative is looked up by its order and the order by the index; the search for an
  unknown index leaves the order at zero.\<close>

definition GetIndexByOrder :: "nat list \<Rightarrow> nat \<Rightarrow> nat" where
  "GetIndexByOrder indices order = foldl (\<lambda>res i. if order = i then indices ! i else res) 0 [0..<length indices]"

definition GetOrderByIndex :: "nat list \<Rightarrow> nat \<Rightarrow> nat" where
  "GetOrderByIndex indices index = foldl (\<lambda>res i. if index = indices ! i then i else res) 0 [0..<length indices]"

definition addr_indices :: "nat list" where
  "addr_indices = map version_index [kIpV4, kIpV6, kNamed]"

fun addr_order :: "Address \<Rightarrow> nat" where
  "addr_order (IpV4Addr _) = 0"
| "addr_order (IpV6Addr _) = 1"
| "addr_order (NamedAddr _) = 2"

fun addr_Save :: "nat encoder \<Rightarrow> Address encoder" where
  "addr_Save esz (IpV4Addr a) = enc_carray_scalar 1 (map unat a)"
| "addr_Save esz (IpV6Addr a) = enc_carray_scalar 1 (map unat a)"
| "addr_Save esz (NamedAddr n) = enc_string esz (map (\<lambda>c. of_nat (of_char c)) n)"

definition enc_address :: "nat encoder \<Rightarrow> Address encoder" where
  "enc_address esz a = enc_enum 1 (\<lambda>i. i) (GetIndexByOrder addr_indices (addr_order a)) @ addr_Save esz a"

definition addr_Load :: "nat decoder \<Rightarrow> nat \<Rightarrow> Address decoder" where
  "addr_Load dsz order s old =
     (if order = 0 then (case dec_carray_scalar 1 s (replicate 4 0) of (s1, t) \<Rightarrow> (s1, IpV4Addr (map of_nat t)))
      else if order = 1 then (case dec_carray_scalar 1 s (replicate 16 0) of (s1, t) \<Rightarrow> (s1, IpV6Addr (map of_nat t)))
      else if order = 2 then (case dec_string dsz s [] of (s1, t) \<Rightarrow> (s1, NamedAddr (map (\<lambda>b. char_of (unat b)) t)))
      else (s, old))"

definition dec_address :: "nat \<Rightarrow> nat decoder \<Rightarrow> Address decoder" where
  "dec_address junk dsz s old =
     (case dec_enum 1 (\<lambda>i. i) junk s 0 of (s1, index) \<Rightarrow> addr_Load dsz (GetOrderByIndex addr_indices index) s1 old)"


subsection \<open>Identifiers\<close>

text \<open>\<^verbatim>\<open>MakeArray\<close>: pairs of digits become bytes; a write outside of the array is an error.\<close>

fun make_array_loop :: "byte list \<Rightarrow> nat \<Rightarrow> string \<Rightarrow> byte list option" where
  "make_array_loop res index [] = Some res"
| "make_array_loop res index [c] =
     (if index \<ge> length res then None else Some (res[index := of_nat (FromHex c)]))"
| "make_array_loop res index (c # d # cs) =
     (if index \<ge> length res then None
      else make_array_loop (res[index := of_nat (u8 (FromHex c * 16) + FromHex d)]) (index + 1) cs)"

definition MakeArray :: "nat \<Rightarrow> string \<Rightarrow> byte list option" where
  "MakeArray n str = make_array_loop (replicate n 0) 0 str"

definition kUidStringSize :: nat where
  "kUidStringSize = 32 + 4"

definition substr :: "string \<Rightarrow> nat \<Rightarrow> nat \<Rightarrow> string" where
  "substr s pos n = take n (drop pos s)"

record UidString =
  us_valid :: bool
  us_data :: string

text \<open>The dashes are only read once the length is right.\<close>

definition uid_dashes :: "string \<Rightarrow> bool" where
  "uid_dashes str \<longleftrightarrow> str ! 8 = CHR ''-'' \<and> str ! 13 = CHR ''-'' \<and> str ! 18 = CHR ''-'' \<and> str ! 23 = CHR ''-''"

definition UidString_literal :: "string \<Rightarrow> UidString" where
  "UidString_literal str = \<lparr>us_valid = (length str = kUidStringSize \<and> uid_dashes str), us_data = str\<rparr>"

text \<open>The view constructor reads the last character first; an empty view has none.\<close>

definition UidString_view :: "string \<Rightarrow> parse_fault + UidString" where
  "UidString_view str =
     (if str = [] then Inl OutOfBounds
      else Inr \<lparr>us_valid = ((if last str = CHR 0x00 then length str - 1 = kUidStringSize else length str = kUidStringSize) \<and>
                              uid_dashes str),
                us_data = str\<rparr>)"

definition uid_to_array :: "string \<Rightarrow> byte list option" where
  "uid_to_array data =
     (case (MakeArray 4 (substr data 0 8), MakeArray 2 (substr data 9 4), MakeArray 2 (substr data 14 4),
            MakeArray 2 (substr data 19 4), MakeArray 6 (substr data 24 12)) of
        (Some a, Some b, Some c, Some d, Some e) \<Rightarrow> Some (a @ b @ c @ d @ e)
      | _ \<Rightarrow> None)"

definition uid_FromString :: "UidString \<Rightarrow> byte list option" where
  "uid_FromString str = (if \<not> us_valid str then Some (replicate 16 0) else uid_to_array (us_data str))"

definition uid_lt :: "byte list \<Rightarrow> byte list \<Rightarrow> bool" where
  "uid_lt a b \<longleftrightarrow> map unat a < map unat b"

definition uid_empty :: "byte list \<Rightarrow> bool" where
  "uid_empty v \<longleftrightarrow> v = replicate 16 0"

definition format_uid :: "byte list \<Rightarrow> string" where
  "format_uid uid = concat (map (\<lambda>i.
     (if i = 4 \<or> i = 6 \<or> i = 8 \<or> i = 10 then ''-'' else []) @
     (if unat (uid ! i) < 16 then ''0'' @ to_chars_hex (uid ! i) else to_chars_hex (uid ! i))) [0..<16])"


subsection \<open>Orders\<close>

definition full_support :: addr_support where
  "full_support = \<lparr>sup_ipv4 = True, sup_ipv6 = True, sup_dns = True\<rparr>"

text \<open>The key that the comparisons sort addresses by.\<close>

fun addr_key :: "Address \<Rightarrow> nat \<times> nat list" where
  "addr_key (IpV4Addr a) = (1, map unat a)"
| "addr_key (IpV6Addr a) = (2, map unat a)"
| "addr_key (NamedAddr n) = (3, map of_char n)"

lemma map_unat_inject [simp]: "map unat (xs :: byte list) = map unat ys \<longleftrightarrow> xs = ys"
  by (simp add: inj_map_eq_map [OF inj_onI] word_unat_eq_iff)

lemma map_of_char_inject [simp]: "map (of_char :: char \<Rightarrow> nat) xs = map of_char ys \<longleftrightarrow> xs = ys"
  by (rule inj_map_eq_map) (simp add: inj_def)

lemma map_of_char_less [simp]: "map (of_char :: char \<Rightarrow> nat) xs < map of_char ys \<longleftrightarrow> xs < ys"
proof (induction xs arbitrary: ys)
  case Nil
  then show ?case by (cases ys) simp_all
next
  case (Cons x xs)
  then show ?case by (cases ys) (simp_all add: less_char_def)
qed

lemma addr_key_inject [simp]: "addr_key a = addr_key b \<longleftrightarrow> a = b"
  by (cases a; cases b) simp_all

lemma addr_eq_full: "addr_eq full_support a b \<longleftrightarrow> a = b"
  by (cases a; cases b) (simp_all add: full_support_def v4_eq_def v6_eq_def named_eq_def)

lemma addr_lt_full:
  "addr_lt full_support a b \<longleftrightarrow>
     fst (addr_key a) < fst (addr_key b) \<or> fst (addr_key a) = fst (addr_key b) \<and> snd (addr_key a) < snd (addr_key b)"
  by (cases a; cases b) (simp_all add: addr_lt_def full_support_def v4_lt_def v6_lt_def named_lt_def)

instantiation Address :: linorder
begin

definition less_Address :: "Address \<Rightarrow> Address \<Rightarrow> bool" where
  "a < b \<longleftrightarrow> addr_lt full_support a b"

definition less_eq_Address :: "Address \<Rightarrow> Address \<Rightarrow> bool" where
  "a \<le> b \<longleftrightarrow> addr_lt full_support a b \<or> addr_eq full_support a b"

instance
proof
  fix x y z :: Address
  show "x < y \<longleftrightarrow> x \<le> y \<and> \<not> y \<le> x" and "x \<le> x"
    by (auto simp: less_Address_def less_eq_Address_def addr_lt_full addr_eq_full)
  show "x \<le> z" if "x \<le> y" "y \<le> z"
    using that by (auto simp: less_eq_Address_def addr_lt_full addr_eq_full)
  show "x = y" if "x \<le> y" "y \<le> x"
    using that by (auto simp: less_eq_Address_def addr_lt_full addr_eq_full)
  show "x \<le> y \<or> y \<le> x"
    by (auto simp: less_eq_Address_def addr_lt_full addr_eq_full neq_iff prod_eq_iff simp flip: addr_key_inject)
qed

end

lemma protocol_index_inject [simp]: "protocol_index p = protocol_index q \<longleftrightarrow> p = q"
  by (cases p; cases q) simp_all

lemma endpoint_lt_full:
  "endpoint_lt full_support l r \<longleftrightarrow>
     ep_address l < ep_address r \<or>
     ep_address l = ep_address r \<and>
       (ep_port l < ep_port r \<or> ep_port l = ep_port r \<and> protocol_index (ep_protocol l) < protocol_index (ep_protocol r))"
  by (auto simp: endpoint_lt_def addr_eq_full less_Address_def [symmetric])

lemma endpoint_eqI:
  "ep_address l = ep_address r \<Longrightarrow> ep_port l = ep_port r \<Longrightarrow> ep_protocol l = ep_protocol r \<Longrightarrow> l = (r :: Endpoint)"
  by (cases l, cases r) simp


subsection \<open>Parsing\<close>

text \<open>The value of a list of digits.\<close>

definition dec_val :: "string \<Rightarrow> nat" where
  "dec_val s = foldl (\<lambda>v c. v * 10 + (of_char c - of_char (CHR ''0''))) 0 s"

definition hex_val :: "string \<Rightarrow> nat" where
  "hex_val s = foldl (\<lambda>v c. v * 16 + FromHex c) 0 s"

fun join :: "char \<Rightarrow> string list \<Rightarrow> string" where
  "join c [] = []"
| "join c [s] = s"
| "join c (s # t # ss) = s @ c # join c (t # ss)"

lemma digit_neq: "IsDigit c \<Longrightarrow> c \<noteq> newline \<and> c \<noteq> CHR ''.''"
  by (auto simp: IsDigit_def newline_def less_eq_char_def)

lemma xdigit_neq: "IsXDigit c \<Longrightarrow> c \<noteq> newline \<and> c \<noteq> CHR '':''"
  by (auto simp: IsXDigit_def newline_def less_eq_char_def)

lemma FromHex_less: "FromHex c < 16"
  by (auto simp: FromHex_def less_eq_char_def)

lemma v4_loop_digits:
  assumes "list_all IsDigit s" and "i < length a"
  shows "v4_loop a i (s @ rest) =
    v4_loop (a[i := foldl (\<lambda>v c. v * 10 + of_nat (of_char c - of_char (CHR ''0''))) (a ! i) s]) i rest"
  using assms
proof (induction s arbitrary: a)
  case (Cons c s)
  then show ?case by (simp add: digit_neq)
qed simp

lemma foldl_digits_word:
  "foldl (\<lambda>v c. v * 10 + of_nat (of_char c - of_char (CHR ''0''))) (of_nat n :: byte) s =
   of_nat (foldl (\<lambda>v c. v * 10 + (of_char c - of_char (CHR ''0''))) n s)"
proof (induction s arbitrary: n)
  case (Cons c s)
  show ?case using Cons.IH [of "n * 10 + (of_char c - of_char (CHR ''0''))"] by simp
qed simp

lemma v4_loop_join:
  assumes "\<forall>s \<in> set ss. list_all IsDigit s" and "ss \<noteq> []" and "length p + length ss \<le> 4"
  shows "v4_loop (p @ replicate (4 - length p) 0) (length p) (join (CHR ''.'') ss) =
    Some (p @ map (\<lambda>s. of_nat (dec_val s)) ss @ replicate (4 - length p - length ss) 0)"
  using assms
proof (induction ss arbitrary: p)
  case (Cons s ss)
  let ?v = "of_nat (dec_val s) :: byte"
  obtain n where n: "4 - length p = Suc n" using Cons.prems by (cases "4 - length p") auto
  then have n': "n = 3 - length p" by simp
  have step: "v4_loop (p @ replicate (4 - length p) 0) (length p) (s @ rest) = v4_loop ((p @ [?v]) @ replicate n 0) (length p) rest" for rest
    using v4_loop_digits [of s "length p" "p @ replicate (4 - length p) 0" rest] foldl_digits_word [of 0 s] Cons.prems(1)
    by (simp add: n nth_append list_update_append dec_val_def)
  show ?case
  proof (cases ss)
    case Nil
    then show ?thesis using step [of "[]"] n by simp
  next
    case (Cons t ts)
    then show ?thesis
      using step [of "CHR ''.'' # join (CHR ''.'') ss"] Cons.IH [of "p @ [?v]"] Cons.prems n by (simp add: newline_def n')
  qed
qed simp

lemma or_add16: "v < 4096 \<Longrightarrow> h < 16 \<Longrightarrow> u16 (v * 16) OR h = v * 16 + (h :: nat)"
proof -
  assume *: "v < 4096" "h < 16"
  have "bit (v * 16) n \<Longrightarrow> \<not> bit h n" for n
  proof -
    assume "bit (v * 16) n"
    then have "4 \<le> n" by (simp add: bit_push_bit_iff [of 4 v n, unfolded push_bit_eq_mult, simplified])
    then have "(2 :: nat) ^ 4 \<le> 2 ^ n" by (intro power_increasing) simp_all
    with * have "h < 2 ^ n" by simp
    then show "\<not> bit h n" by (simp add: bit_iff_odd)
  qed
  then have "v * 16 + h = v * 16 OR h" by (intro disjunctive_add) auto
  with * show ?thesis by (simp add: u16_def)
qed

text \<open>A segment of an IPv6 address: one to four hexadecimal digits.\<close>

definition hex_group :: "string \<Rightarrow> bool" where
  "hex_group g \<longleftrightarrow> g \<noteq> [] \<and> length g \<le> 4 \<and> list_all IsXDigit g"

definition segment_end :: "string \<Rightarrow> bool" where
  "segment_end rest \<longleftrightarrow> rest = [] \<or> hd rest = CHR '':'' \<or> hd rest = newline"

lemma v6_hex_group:
  assumes "list_all IsXDigit g" and "d + length g \<le> 4" and "g \<noteq> [] \<or> d < 4" and "v < 16 ^ d" and "segment_end rest"
  shows "v6_hex v d (g @ rest) = Some (foldl (\<lambda>v c. v * 16 + FromHex c) v g, rest)"
  using assms
proof (induction g arbitrary: v d)
  case Nil
  then show ?case by (cases rest) (auto simp: segment_end_def)
next
  case (Cons c g)
  have d: "d \<le> 3" using Cons.prems(2) by simp
  then have "(16 :: nat) ^ d \<le> 16 ^ 3" by (intro power_increasing) simp_all
  with Cons.prems(4) have v: "v < 4096" by simp
  have v': "v * 16 + FromHex c < 16 ^ Suc d" using Cons.prems(4) FromHex_less [of c] by simp
  have "u16 (v * 16) OR FromHex c = v * 16 + FromHex c" by (rule or_add16 [OF v FromHex_less])
  moreover have "g = []" if "d + 1 \<ge> 4" using Cons.prems(2) that by (cases g) simp_all
  ultimately show ?case
    using Cons.prems Cons.IH [of "Suc d" "v * 16 + FromHex c"] v' by (cases "3 \<le> d") (simp_all add: xdigit_neq Let_def)
qed

lemma v6_loop_segment:
  assumes "hex_group g" and "segment_end rest" and "v6_seg_index st < 8" and "length (v6_segments st) = 8"
  shows "v6_loop st (g @ rest) =
    v6_loop (st\<lparr>v6_segments := (v6_segments st)[v6_seg_index st := hex_val g], v6_seg_index := v6_seg_index st + 1\<rparr>) rest"
proof -
  obtain c cs where g: "g = c # cs" using assms(1) by (cases g) (auto simp: hex_group_def)
  then have c: "c \<noteq> newline" "c \<noteq> CHR '':''" using assms(1) by (auto simp: hex_group_def xdigit_neq)
  have "v6_hex 0 0 (g @ rest) = Some (hex_val g, rest)"
    using v6_hex_group [of g 0 0 rest] assms(1,2) by (simp add: hex_group_def hex_val_def)
  then show ?thesis using c assms(3,4) by (simp add: g del: v6_hex.simps)
qed

lemma segment_not_colon: "hex_group g \<Longrightarrow> join (CHR '':'') (g # gs) \<noteq> [] \<and> hd (join (CHR '':'') (g # gs)) \<noteq> CHR '':''"
  by (cases g; cases gs) (auto simp: hex_group_def xdigit_neq)

lemma v6_loop_join:
  assumes "\<forall>g \<in> set gs. hex_group g" and "length p + length gs \<le> 8" and "segment_end rest" and "gs \<noteq> []"
    and "v6_segments st = p @ replicate (8 - length p) 0" and "v6_seg_index st = length p"
  shows "v6_loop st (join (CHR '':'') gs @ rest) =
    v6_loop (st\<lparr>v6_segments := p @ map hex_val gs @ replicate (8 - length p - length gs) 0,
               v6_seg_index := length p + length gs\<rparr>) rest"
  using assms
proof (induction gs arbitrary: p st)
  case (Cons g gs)
  obtain n where n: "8 - length p = Suc n" "n = 7 - length p" using Cons.prems(2) by (cases "8 - length p") auto
  have pn: "length p + n = 7" using Cons.prems(2) n(2) by simp
  let ?st = "st\<lparr>v6_segments := (p @ [hex_val g]) @ replicate n 0, v6_seg_index := length p + 1\<rparr>"
  have step: "v6_loop st (g @ r) = v6_loop ?st r" if "segment_end r" for r
    using v6_loop_segment [of g r st] that Cons.prems by (simp add: n(1) pn nth_append list_update_append)
  show ?case
  proof (cases gs)
    case Nil
    then show ?thesis using step [OF Cons.prems(3)] n by simp
  next
    case (Cons t ts)
    have "v6_loop st (join (CHR '':'') (g # gs) @ rest) = v6_loop ?st (CHR '':'' # join (CHR '':'') gs @ rest)"
      using step [of "CHR '':'' # join (CHR '':'') gs @ rest"] Cons by (simp add: segment_end_def)
    also have "\<dots> = v6_loop ?st (join (CHR '':'') gs @ rest)"
      using segment_not_colon [of t ts] Cons.prems(1,2) Cons by (simp add: newline_def)
    also have "\<dots> = v6_loop (?st\<lparr>v6_segments := (p @ [hex_val g]) @ map hex_val gs @ replicate (8 - length (p @ [hex_val g]) - length gs) 0,
               v6_seg_index := length (p @ [hex_val g]) + length gs\<rparr>) rest"
      using Cons.prems Cons by (intro Cons.IH) (simp_all add: n)
    finally show ?thesis by (simp add: n)
  qed
qed simp

lemma v6_shift_moves:
  assumes "length h + length t + s + length e = 8" and "0 < s"
  shows "v6_shift (h @ t @ replicate s 0 @ e) s (length h) (length h + length t) = Some (h @ replicate s 0 @ t @ e)"
  using assms
proof (induction t arbitrary: e rule: rev_induct)
  case Nil
  then show ?case by (cases "length h") simp_all
next
  case (snoc x t)
  obtain m where m: "s = Suc m" using snoc.prems(2) by (cases s) auto
  let ?j = "length h + length t"
  have pos: "sz_sub (sz_add (Suc ?j) s) 1 = ?j + s"
    using snoc.prems(1) by (simp add: sz_sub_def sz_add_def)
  have rep: "replicate m 0 @ (0 :: nat) # e = 0 # replicate m 0 @ e"
    by (metis append_Cons replicate_append_same append.assoc append_Nil)
  have "(h @ (t @ [x]) @ replicate s 0 @ e)[?j + s := (h @ (t @ [x]) @ replicate s 0 @ e) ! ?j, ?j := 0] = h @ t @ replicate s 0 @ (x # e)"
    by (simp add: nth_append list_update_append m rep[symmetric] flip: replicate_append_same)
  then show ?case using snoc.IH [of "x # e"] snoc.prems pos by simp
qed

abbreviation v6_start :: v6_state where
  "v6_start \<equiv> \<lparr>v6_segments = replicate 8 0, v6_seg_index = 0, v6_compress_pos = 0, v6_has_compression = False\<rparr>"

lemma v6_start_join:
  assumes "\<forall>g \<in> set gs. hex_group g" and "length gs \<le> 8" and "segment_end rest"
  shows "v6_loop v6_start (join (CHR '':'') gs @ rest) =
    v6_loop (v6_start\<lparr>v6_segments := map hex_val gs @ replicate (8 - length gs) 0, v6_seg_index := length gs\<rparr>) rest"
  using v6_loop_join [of gs "[]" rest v6_start] assms by (cases gs) simp_all

lemma IpV6Parse_full:
  assumes "\<forall>g \<in> set gs. hex_group g" and "length gs = 8"
  shows "IpV6Parse (join (CHR '':'') gs) = Inr (Some (v6_bytes (map hex_val gs)))"
  using v6_start_join [of gs "[]"] assms by (simp add: IpV6Parse_def segment_end_def)

lemma v6_loop_tail:
  assumes "\<forall>g \<in> set ts. hex_group g" and "length h + length ts \<le> 8"
    and "v6_segments st = h @ replicate (8 - length h) 0" and "v6_seg_index st = length h"
  shows "v6_loop st (join (CHR '':'') ts) =
    Inr (Some (st\<lparr>v6_segments := h @ map hex_val ts @ replicate (8 - length h - length ts) 0, v6_seg_index := length h + length ts\<rparr>))"
  using v6_loop_join [of ts h "[]" st] assms by (cases ts) (simp_all add: segment_end_def)

lemma v6_compressed_loop:
  assumes "\<forall>g \<in> set hs. hex_group g" and "\<forall>g \<in> set ts. hex_group g" and "length hs + length ts < 8"
  shows "v6_loop v6_start (join (CHR '':'') hs @ ''::'' @ join (CHR '':'') ts) =
    Inr (Some \<lparr>v6_segments = map hex_val hs @ map hex_val ts @ replicate (8 - length hs - length ts) 0,
      v6_seg_index = length hs + length ts, v6_compress_pos = length hs, v6_has_compression = True\<rparr>)"
proof -
  let ?st = "v6_start\<lparr>v6_segments := map hex_val hs @ replicate (8 - length hs) 0, v6_seg_index := length hs\<rparr>"
  have "v6_loop v6_start (join (CHR '':'') hs @ ''::'' @ join (CHR '':'') ts) = v6_loop ?st (''::'' @ join (CHR '':'') ts)"
    using assms by (intro v6_start_join) (simp_all add: segment_end_def)
  also have "\<dots> = v6_loop (?st\<lparr>v6_has_compression := True, v6_compress_pos := length hs\<rparr>) (join (CHR '':'') ts)"
    using assms by (simp add: newline_def)
  also have "\<dots> = Inr (Some ((?st\<lparr>v6_has_compression := True, v6_compress_pos := length hs\<rparr>)
      \<lparr>v6_segments := map hex_val hs @ map hex_val ts @ replicate (8 - length (map hex_val hs) - length ts) 0,
       v6_seg_index := length (map hex_val hs) + length ts\<rparr>))"
    using assms by (intro v6_loop_tail) simp_all
  finally show ?thesis by simp
qed

lemma IpV6Parse_compressed:
  assumes "\<forall>g \<in> set hs. hex_group g" and "\<forall>g \<in> set ts. hex_group g" and "length hs + length ts < 8"
  shows "IpV6Parse (join (CHR '':'') hs @ ''::'' @ join (CHR '':'') ts) =
    Inr (Some (v6_bytes (map hex_val hs @ replicate (8 - length hs - length ts) 0 @ map hex_val ts)))"
proof (cases ts)
  case Nil
  then show ?thesis using v6_compressed_loop [OF assms] assms(3)
    by (cases "length hs") (simp_all add: IpV6Parse_def Let_def)
next
  case (Cons t ts')
  let ?n = "8 - length hs - length ts"
  have "sz_sub 8 (length hs + length ts) = ?n" "sz_add ?n 0 = ?n"
    using assms(3) by (simp_all add: size_simps)
  moreover have "v6_shift (map hex_val hs @ map hex_val ts @ replicate ?n 0) ?n (length hs) (length hs + length ts) =
      Some (map hex_val hs @ replicate ?n 0 @ map hex_val ts)"
    using v6_shift_moves [of "map hex_val hs" "map hex_val ts" ?n "[]"] assms(3) by simp
  moreover have "length hs < length hs + length ts" using Cons by simp
  ultimately show ?thesis using v6_compressed_loop [OF assms] by (simp add: IpV6Parse_def Let_def)
qed


subsection \<open>Identifiers as text\<close>

lemma FromHex_hex_digit: "n < 16 \<Longrightarrow> FromHex (hex_digit n) = n"
  by (auto simp: hex_digit_def FromHex_def less_eq_char_def)

lemma hex_digit_neq: "n < 16 \<Longrightarrow> hex_digit n \<noteq> CHR 0x00"
  by (auto simp: hex_digit_def dest: arg_cong [where f="of_char :: char \<Rightarrow> nat"] split: if_splits)

lemma char_of_zero_digit: "char_of (48 :: nat) = CHR ''0''"
  by code_simp

text \<open>A byte of an identifier is printed as two digits.\<close>

lemma uid_byte_text:
  "(if unat b < 16 then ''0'' @ to_chars_hex b else to_chars_hex b) = [hex_digit (unat b div 16), hex_digit (unat b mod 16)]"
  by (simp add: to_chars_hex_def hex_digit_def char_of_zero_digit)

lemma make_array_text:
  "make_array_loop (p @ replicate (length bs) 0) (length p)
     (concat (map (\<lambda>b. [hex_digit (unat b div 16), hex_digit (unat b mod 16)]) bs)) = Some (p @ bs)"
proof (induction bs arbitrary: p)
  case (Cons b bs)
  have "unat b < 256" using unsigned_less [of b] by simp
  then have "u8 (unat b div 16 * 16) + unat b mod 16 = unat b" by (simp add: u8_def)
  then have "of_nat (u8 (FromHex (hex_digit (unat b div 16)) * 16) + FromHex (hex_digit (unat b mod 16))) = b"
    using \<open>unat b < 256\<close> by (simp add: FromHex_hex_digit)
  then show ?case using Cons.IH [of "p @ [b]"] by (simp add: list_update_append)
qed simp

lemma MakeArray_text:
  "length bs = n \<Longrightarrow> MakeArray n (concat (map (\<lambda>b. [hex_digit (unat b div 16), hex_digit (unat b mod 16)]) bs)) = Some bs"
  using make_array_text [of "[]" bs] by (simp add: MakeArray_def)

lemma list16_cases:
  assumes "length u = 16"
  obtains a b c d e f g h i j k l m n p q where "u = [a, b, c, d, e, f, g, h, i, j, k, l, m, n, p, q]"
  using assms by (auto simp: numeral_eq_Suc length_Suc_conv)

lemma format_uid_groups:
  assumes "length u = 16"
  defines "t \<equiv> \<lambda>bs. concat (map (\<lambda>b. [hex_digit (unat b div 16), hex_digit (unat b mod 16)]) bs)"
  shows "format_uid u = t (take 4 u) @ ''-'' @ t (take 2 (drop 4 u)) @ ''-'' @ t (take 2 (drop 6 u)) @ ''-'' @
    t (take 2 (drop 8 u)) @ ''-'' @ t (drop 10 u)"
  by (rule list16_cases [OF assms(1)]) (simp add: format_uid_def uid_byte_text t_def upt_rec)

lemma length_hex_text [simp]: "length (concat (map (\<lambda>b. [f b, g b]) bs)) = 2 * length bs"
  by (induction bs) simp_all

lemma format_uid_parses:
  assumes "length u = 16"
  shows "length (format_uid u) = kUidStringSize" and "uid_dashes (format_uid u)" and "uid_to_array (format_uid u) = Some u"
    and "last (format_uid u) \<noteq> CHR 0x00"
proof -
  note f = format_uid_groups [OF assms]
  show "length (format_uid u) = kUidStringSize" by (simp add: f assms kUidStringSize_def)
  show "uid_dashes (format_uid u)" by (simp add: f assms uid_dashes_def nth_append)
  have "take 4 u @ take 2 (drop 4 u) @ take 2 (drop 6 u) @ take 2 (drop 8 u) @ drop 10 u = u"
    by (rule list16_cases [OF assms]) simp
  then show "uid_to_array (format_uid u) = Some u"
    by (simp add: uid_to_array_def substr_def f assms MakeArray_text)
  show "last (format_uid u) \<noteq> CHR 0x00"
    unfolding f by (rule list16_cases [OF assms]) (simp add: hex_digit_neq)
qed


subsection \<open>Addresses as bytes\<close>

fun addr_ok :: "nat \<Rightarrow> Address \<Rightarrow> bool" where
  "addr_ok lim (IpV4Addr a) = (length a = 4)"
| "addr_ok lim (IpV6Addr a) = (length a = 16)"
| "addr_ok lim (NamedAddr n) = (length n < lim)"

lemma map_of_nat_unat: "map (\<lambda>x. of_nat (unat x)) (a :: byte list) = a"
  by (simp add: map_idI)

lemma unat_of_char: "unat (of_nat (of_char c) :: byte) = of_char c"
  using of_char_mod_256 [of c, where ?'a = nat] by (simp add: unat_of_nat)

lemma map_char_of_of_char: "map (\<lambda>b. char_of (unat (b :: byte))) (map (\<lambda>c. of_nat (of_char c)) n) = n"
  by (induction n) (simp_all add: unat_of_char)

lemma addr_orders [simp]:
  "GetIndexByOrder addr_indices 0 = 1" "GetIndexByOrder addr_indices (Suc 0) = 2" "GetIndexByOrder addr_indices 2 = 3"
  "GetOrderByIndex addr_indices (Suc 0) = 0" "GetOrderByIndex addr_indices 2 = 1" "GetOrderByIndex addr_indices 3 = 2"
  by (simp_all add: GetIndexByOrder_def GetOrderByIndex_def addr_indices_def numeral_eq_Suc)

lemma unknown_index_is_first: "index \<notin> {1, 2, 3} \<Longrightarrow> GetOrderByIndex addr_indices index = 0"
  by (simp add: GetOrderByIndex_def addr_indices_def numeral_eq_Suc)

lemma addr_Load_at:
  assumes "size_codec dsz esz lim" and "addr_ok lim a" and "rd_at s (bytes_of (addr_Save esz a))"
  shows "addr_Load dsz (addr_order a) s old = (rd_skip s (length (bytes_of (addr_Save esz a))), a)"
proof (cases a)
  case (IpV4Addr b)
  have "dec_scalars 1 s (replicate 4 0) = (rd_skip s (length (bytes_of (enc_scalars 1 (map unat b)))), map unat b)"
    using assms(2,3) IpV4Addr unsigned_less [where ?'b = 8]
    by (intro codec.decode_encode [OF codec_array_scalar [of 1 4]]) (auto simp: enc_carray_scalar_def)
  then show ?thesis using IpV4Addr by (simp add: addr_Load_def enc_carray_scalar_def dec_carray_scalar_def o_def)
next
  case (IpV6Addr b)
  have "dec_scalars 1 s (replicate 16 0) = (rd_skip s (length (bytes_of (enc_scalars 1 (map unat b)))), map unat b)"
    using assms(2,3) IpV6Addr unsigned_less [where ?'b = 8]
    by (intro codec.decode_encode [OF codec_array_scalar [of 1 16]]) (auto simp: enc_carray_scalar_def)
  then show ?thesis using IpV6Addr by (simp add: addr_Load_def enc_carray_scalar_def dec_carray_scalar_def o_def)
next
  case (NamedAddr n)
  have "dec_string dsz s [] = (rd_skip s (length (bytes_of (enc_string esz (map (\<lambda>c. of_nat (of_char c)) n)))), map (\<lambda>c. of_nat (of_char c)) n)"
    using assms(2,3) NamedAddr by (intro codec.decode_encode [OF codec_string [OF assms(1)]]) simp_all
  then show ?thesis using NamedAddr map_char_of_of_char [of n] by (simp add: addr_Load_def)
qed

lemma addr_Load_step:
  assumes "size_codec dsz esz lim" and "addr_Load dsz order s old = (s', v)"
  shows "rd_step s s'"
  using assms(2) codec_laws(2) [OF codec_string [OF assms(1)]]
  by (auto simp: addr_Load_def dec_carray_scalar_def split: prod.splits if_splits dest: dec_scalars_step)

lemma addr_index_order:
  "GetIndexByOrder addr_indices (addr_order a) < 256 ^ 1"
  "GetOrderByIndex addr_indices (GetIndexByOrder addr_indices (addr_order a)) = addr_order a"
  by (cases a; simp)+

lemma dec_index_at: "i < 256 ^ 1 \<Longrightarrow> rd_at s (le_bytes 1 i) \<Longrightarrow> dec_enum 1 (\<lambda>i. i) junk s 0 = (rd_skip s 1, i)"
  using dec_arith_at [of i 1 s junk] by (simp only: dec_enum_def prod.case rd_skip_simps if_True)

lemma dec_address_step:
  assumes "size_codec dsz esz lim" and "dec_address junk dsz s old = (s', v)"
  shows "rd_step s s'"
proof -
  obtain s1 i where d: "dec_enum 1 (\<lambda>i. i) junk s 0 = (s1, i)" by fastforce
  then have "rd_step s s1" by (auto simp: dec_enum_def split: prod.splits dest: dec_arith_step)
  moreover have "addr_Load dsz (GetOrderByIndex addr_indices i) s1 old = (s', v)"
    using assms(2) by (simp only: dec_address_def d prod.case)
  then have "rd_step s1 s'" by (rule addr_Load_step [OF assms(1)])
  ultimately show ?thesis by (rule rd_step_trans)
qed

lemma codec_address:
  assumes "size_codec dsz esz lim"
  shows "codec (dec_address junk dsz) (enc_address esz) (addr_ok lim) (\<lambda>_. True)"
proof (rule codecI)
  show "dec_address junk dsz s old = (rd_skip s (length (bytes_of (enc_address esz a))), a)"
    if ok: "addr_ok lim a" and a: "rd_at s (bytes_of (enc_address esz a))" for s old a
  proof -
    let ?index = "GetIndexByOrder addr_indices (addr_order a)"
    have "rd_at s (le_bytes 1 ?index @ bytes_of (addr_Save esz a))"
      using a by (simp add: enc_address_def enc_enum_def enc_arith_def)
    then have at2: "rd_at s (le_bytes 1 ?index)" "rd_at (rd_skip s 1) (bytes_of (addr_Save esz a))"
      by (simp_all only: rd_at_append length_le_bytes)
    have "length (bytes_of (enc_address esz a)) = 1 + length (bytes_of (addr_Save esz a))"
      by (simp add: enc_address_def enc_enum_def enc_arith_def)
    then show ?thesis
      by (simp only: dec_address_def dec_index_at [OF addr_index_order(1) at2(1)] prod.case addr_index_order(2)
        addr_Load_at [OF assms ok at2(2)] rd_skip_simps)
  qed
qed (rule dec_address_step [OF assms])

interpretation address_u32: codec "dec_address 0 (dec_arith 4)" "enc_address (enc_arith 4)" "addr_ok (2 ^ 32)" "\<lambda>_. True"
  by (rule codec_address [OF size_codec_u32])

lemma of_nat_mod_byte: "of_nat (n mod 256) = (of_nat n :: byte)"
  using word_unat_eq_iff [of "of_nat (n mod 256) :: byte" "of_nat n"] by (simp add: unat_of_nat)

lemma hex_val_bytes:
  "length segs = 8 \<Longrightarrow> v6_bytes segs = concat (map (\<lambda>v. [of_nat (v div 256), of_nat v]) segs)"
proof -
  assume "length segs = 8"
  then obtain a b c d e f g h where "segs = [a, b, c, d, e, f, g, h]"
    by (auto simp: numeral_eq_Suc length_Suc_conv)
  then show ?thesis by (simp add: v6_bytes_def upt_rec of_nat_mod_byte)
qed


subsection \<open>Properties\<close>

lemma unat_byte_less: "unat (b :: byte) < 256"
  using unsigned_less [of b] by simp

lemma replicate_num: "replicate (numeral k) x = x # replicate (pred_numeral k) x"
  by (simp add: numeral_eq_Suc)

text \<open>What is asked of the decimal printer.\<close>

definition decimal_printer :: "(nat \<Rightarrow> string) \<Rightarrow> bool" where
  "decimal_printer fmt \<longleftrightarrow> list_all (\<lambda>n. list_all IsDigit (fmt n) \<and> dec_val (fmt n) = n) [0..<256]"

lemma decimal_printerD: "decimal_printer fmt \<Longrightarrow> list_all IsDigit (fmt (unat (b :: byte))) \<and> dec_val (fmt (unat b)) = unat b"
  using unat_byte_less [of b] by (simp add: decimal_printer_def list_all_iff)

text \<open>A printer of that kind, up to three digits.\<close>

definition decimal3 :: "nat \<Rightarrow> string" where
  "decimal3 n =
     (if n < 10 then [hex_digit n]
      else if n < 100 then [hex_digit (n div 10), hex_digit (n mod 10)]
      else [hex_digit (n div 100), hex_digit (n div 10 mod 10), hex_digit (n mod 10)])"

lemma hex_digit_decimal: "n < 10 \<Longrightarrow> IsDigit (hex_digit n) \<and> of_char (hex_digit n) = 48 + n"
  by (simp add: hex_digit_def IsDigit_def less_eq_char_def)

lemma decimal_split: "100 * (n div 100) + n div 10 mod 10 * 10 + n mod 10 = (n :: nat)"
  using mod_mult2_eq [of n 10 10] mult_div_mod_eq [of 100 n] by simp

lemma decimal3_printer: "decimal_printer decimal3"
  by (auto simp: decimal_printer_def list_all_iff decimal3_def hex_digit_decimal dec_val_def decimal_split)

text \<open>(C27) A text of one to four groups of decimal digits with dots between them is an IPv4 address; a group is taken modulo
  256, an empty group is zero, and the groups that are missing are zero.  So every such text is accepted, with an octet
  out of range or not.\<close>

theorem ipv4_text_parses:
  assumes "\<forall>s \<in> set ss. list_all IsDigit s" and "ss \<noteq> []" and "length ss \<le> 4"
  shows "IpV4Parse (join (CHR ''.'') ss) = Some (map (\<lambda>s. of_nat (dec_val s)) ss @ replicate (4 - length ss) 0)"
  using v4_loop_join [of ss "[]"] assms by (simp add: IpV4Parse_def numeral_eq_Suc)

theorem ipv4_text_parses_witness:
  "IpV4Parse ''300.1'' = Some [44, 1, 0, 0]"
  using ipv4_text_parses [of "[''300'', ''1'']"]
  by (simp add: IsDigit_def less_eq_char_def dec_val_def replicate_num)

text \<open>The text that an IPv4 address is printed as is parsed as that address, when integers are printed in decimal.\<close>

theorem address_text_round_trip:
  assumes "decimal_printer fmt" and "sup_ipv4 cfg" and "length a = 4"
  shows "StringToAddress (format_address cfg fmt (IpV4Addr a)) = Inr (IpV4Addr a)"
proof -
  obtain b c d e where a: "a = [b, c, d, e]" using assms(3) by (auto simp: numeral_eq_Suc length_Suc_conv)
  let ?ss = "map (\<lambda>b. fmt (unat b)) [b, c, d, e]"
  have "IpV4Parse (join (CHR ''.'') ?ss) = Some (map (\<lambda>s. of_nat (dec_val s)) ?ss)"
    using v4_loop_join [of ?ss "[]"] decimal_printerD [OF assms(1)] by (simp add: IpV4Parse_def numeral_eq_Suc)
  then show ?thesis
    using decimal_printerD [OF assms(1)] assms(2) by (simp add: StringToAddress_def format_ipv4_def a)
qed

theorem address_text_round_trip_witness:
  "StringToAddress (format_address full_support decimal3 (IpV4Addr [192, 168, 0, 7])) = Inr (IpV4Addr [192, 168, 0, 7])"
  by (rule address_text_round_trip [OF decimal3_printer]) (simp_all add: full_support_def)

text \<open>(C23) Eight groups of one to four hexadecimal digits with colons between them are the eight segments of an IPv6 address, and
  fewer groups with a double colon once, at the start, in the middle or at the end, are those segments with zeros in the gap.\<close>

theorem ipv6_text_parses:
  assumes "\<forall>g \<in> set hs. hex_group g" and "\<forall>g \<in> set ts. hex_group g"
  defines "bytes \<equiv> \<lambda>segs. concat (map (\<lambda>v. [of_nat (v div 256), of_nat v]) segs)"
  shows "(length hs = 8 \<longrightarrow> IpV6Parse (join (CHR '':'') hs) = Inr (Some (bytes (map hex_val hs)))) \<and>
    (length hs + length ts < 8 \<longrightarrow>
      IpV6Parse (join (CHR '':'') hs @ ''::'' @ join (CHR '':'') ts) =
        Inr (Some (bytes (map hex_val hs @ replicate (8 - length hs - length ts) 0 @ map hex_val ts))))"
  using IpV6Parse_full [OF assms(1)] IpV6Parse_compressed [OF assms(1,2)] by (simp add: hex_val_bytes bytes_def)

theorem ipv6_text_parses_witness:
  "IpV6Parse ''fe80::1'' = Inr (Some [254, 128, 0, 0, 0, 0, 0, 0, 0, 0, 0, 0, 0, 0, 0, 1])"
  using ipv6_text_parses [of "[''fe80'']" "[''1'']"]
  by (simp add: hex_group_def IsXDigit_def FromHex_def less_eq_char_def hex_val_def replicate_num)

text \<open>(C25) An identifier printed as text has the length and the dashes that are checked, and is read back from it.\<close>

theorem uid_text_round_trip:
  assumes "length u = 16"
  shows "\<exists>str. UidString_view (format_uid u) = Inr str \<and> us_valid str \<and> uid_FromString str = Some u \<and>
    UidString_literal (format_uid u) = str"
  using format_uid_parses [OF assms]
  by (auto simp: UidString_view_def UidString_literal_def uid_FromString_def kUidStringSize_def)

theorem uid_text_round_trip_witness:
  "\<exists>str. UidString_view (format_uid (replicate 16 0xab)) = Inr str \<and> us_valid str \<and>
    uid_FromString str = Some (replicate 16 0xab) \<and> UidString_literal (format_uid (replicate 16 0xab)) = str"
  by (rule uid_text_round_trip) simp

text \<open>(C24) An address is read back from the bytes it is written as, whatever follows them; and a version that no address has is not
  refused: the bytes behind it are read as an IPv4 address.\<close>

theorem address_bytes_round_trip:
  assumes "size_codec dsz esz lim" and "rd_at s (bytes_of (enc_address esz a))" and "addr_ok lim a"
    and "rd_at s' (of_nat version # bs)" and "version < 256" and "version \<notin> {1, 2, 3}" and "length bs = 4"
  shows "dec_address junk dsz s old = (rd_skip s (length (bytes_of (enc_address esz a))), a) \<and>
    dec_address junk dsz s' old = (rd_skip s' 5, IpV4Addr bs)"
proof
  show "dec_address junk dsz s old = (rd_skip s (length (bytes_of (enc_address esz a))), a)"
    using assms(2,3) by (intro codec.decode_encode [OF codec_address [OF assms(1)]]) simp_all
  have "rd_at s' (le_bytes 1 version @ bs)" using assms(4) by simp
  then have at2: "rd_at s' (le_bytes 1 version)" "rd_at (rd_skip s' 1) bs"
    by (simp_all only: rd_at_append length_le_bytes)
  have "bs = bytes_of (addr_Save esz (IpV4Addr bs))"
    by (induction bs) (simp_all add: enc_carray_scalar_def enc_scalars_def)
  then have "addr_Load dsz 0 (rd_skip s' 1) old = (rd_skip (rd_skip s' 1) 4, IpV4Addr bs)"
    using addr_Load_at [OF assms(1), of "IpV4Addr bs" "rd_skip s' 1" old] at2(2) assms(7) by simp
  moreover have "version < 256 ^ 1" using assms(5) by simp
  ultimately show "dec_address junk dsz s' old = (rd_skip s' 5, IpV4Addr bs)"
    by (simp only: dec_address_def dec_index_at [OF _ at2(1)] prod.case unknown_index_is_first [OF assms(6)] rd_skip_simps) simp
qed

theorem address_bytes_round_trip_witness:
  "dec_address 0 (dec_arith 4) (vr_make [2, 0, 0, 0, 0, 0, 0, 0, 0, 0, 0, 0, 0, 0, 0, 0, 1]) (IpV4Addr []) =
     (rd_skip (vr_make [2, 0, 0, 0, 0, 0, 0, 0, 0, 0, 0, 0, 0, 0, 0, 0, 1]) 17,
      IpV6Addr [0, 0, 0, 0, 0, 0, 0, 0, 0, 0, 0, 0, 0, 0, 0, 1]) \<and>
   dec_address 0 (dec_arith 4) (vr_make [77, 10, 0, 0, 1]) (IpV4Addr []) = (rd_skip (vr_make [77, 10, 0, 0, 1]) 5, IpV4Addr [10, 0, 0, 1])"
proof -
  let ?a = "IpV6Addr [0, 0, 0, 0, 0, 0, 0, 0, 0, 0, 0, 0, 0, 0, 0, 1]"
  let ?bs = "[2, 0, 0, 0, 0, 0, 0, 0, 0, 0, 0, 0, 0, 0, 0, 0, 1] :: byte list"
  have e: "bytes_of (enc_address (enc_arith 4) ?a) = ?bs" by code_simp
  have l: "length ?bs = 17" by simp
  have r1: "rd_at (vr_make ?bs) (bytes_of (enc_address (enc_arith 4) ?a))"
    unfolding e by (simp add: rd_at_def vr_make_def)
  have r2: "rd_at (vr_make [77, 10, 0, 0, 1]) (of_nat 77 # [10, 0, 0, 1])" by (simp add: rd_at_def vr_make_def)
  show ?thesis
    using address_bytes_round_trip [OF size_codec_u32 r1 _ r2, of 0 "IpV4Addr []"] unfolding e l by simp
qed

text \<open>(C26) With every address family supported the order on endpoints is a strict total order: what a map keyed by endpoints needs.  In a
  build without IPv6 no two IPv6 endpoints are ordered, whatever their ports.\<close>

theorem endpoint_total_order:
  "\<not> endpoint_lt full_support x x \<and>
   (endpoint_lt full_support x y \<and> endpoint_lt full_support y z \<longrightarrow> endpoint_lt full_support x z) \<and>
   (endpoint_lt full_support x y \<or> x = y \<or> endpoint_lt full_support y x) \<and>
   (ep_address x = IpV6Addr a \<and> ep_address y = IpV6Addr b \<and> \<not> sup_ipv6 cfg \<longrightarrow> \<not> endpoint_lt cfg x y)"
proof (intro conjI)
  show "endpoint_lt full_support x y \<or> x = y \<or> endpoint_lt full_support y x"
    unfolding endpoint_lt_full by (metis endpoint_eqI linorder_less_linear protocol_index_inject)
  show "endpoint_lt full_support x y \<and> endpoint_lt full_support y z \<longrightarrow> endpoint_lt full_support x z"
    unfolding endpoint_lt_full by (metis order.strict_trans)
  show "\<not> endpoint_lt full_support x x" by (simp add: endpoint_lt_full)
qed (simp add: endpoint_lt_def addr_lt_def)

theorem endpoint_total_order_witness:
  "endpoint_lt full_support \<lparr>ep_address = IpV4Addr [10, 0, 0, 1], ep_port = 80, ep_protocol = kTcp\<rparr>
     \<lparr>ep_address = NamedAddr ''a'', ep_port = 1, ep_protocol = kTcp\<rparr>"
  using endpoint_total_order [of "\<lparr>ep_address = IpV4Addr [10, 0, 0, 1], ep_port = 80, ep_protocol = kTcp\<rparr>"
    "\<lparr>ep_address = IpV6Addr [], ep_port = 80, ep_protocol = kTcp\<rparr>" "\<lparr>ep_address = NamedAddr ''a'', ep_port = 1, ep_protocol = kTcp\<rparr>"]
  by (simp add: endpoint_lt_def addr_lt_def full_support_def)

end
