(* ===== verification/Std_Map.thy ===== *)
theory Std_Map
  imports Aether_Prelude
begin

text \<open>
  \<^verbatim>\<open>std::map\<close> as the list of its entries in the order of iteration: sorted by key, one entry per key.  \<^verbatim>\<open>find\<close> is \<^const>\<open>map_of\<close>,
  \<^verbatim>\<open>m[k] = v\<close> is \<open>sm_set\<close>.
\<close>

fun sm_set :: "'k::linorder \<Rightarrow> 'v \<Rightarrow> ('k \<times> 'v) list \<Rightarrow> ('k \<times> 'v) list" where
  "sm_set k v [] = [(k, v)]"
| "sm_set k v ((a, b) # m) =
     (if k < a then (k, v) # (a, b) # m else if k = a then (k, v) # m else (a, b) # sm_set k v m)"

definition sm_ok :: "('k::linorder \<times> 'v) list \<Rightarrow> bool" where
  "sm_ok m \<longleftrightarrow> sorted_wrt (<) (map fst m)"

lemma map_of_sm_set [simp]: "map_of (sm_set k v m) = (map_of m)(k \<mapsto> v)"
  by (induction k v m rule: sm_set.induct) auto

lemma keys_sm_set [simp]: "fst ` set (sm_set k v m) = insert k (fst ` set m)"
  by (induction k v m rule: sm_set.induct) auto

lemma sm_set_not_Nil [simp]: "sm_set k v m \<noteq> []"
  by (cases "(k, v, m)" rule: sm_set.cases) auto

lemma sm_ok_Nil [simp]: "sm_ok []"
  by (simp add: sm_ok_def)

lemma sm_ok_Cons: "sm_ok ((a, b) # m) \<longleftrightarrow> (\<forall>k \<in> fst ` set m. a < k) \<and> sm_ok m"
  by (simp add: sm_ok_def)

lemma sm_ok_set [simp]: "sm_ok m \<Longrightarrow> sm_ok (sm_set k v m)"
proof (induction k v m rule: sm_set.induct)
  case (2 k v a b m)
  consider "k < a" | "k = a" | "a < k" by force
  then show ?case
  proof cases
    case 1
    then show ?thesis using 2(2) by (fastforce simp: sm_ok_Cons)
  next
    case 2
    then show ?thesis using \<open>sm_ok ((a, b) # m)\<close> by (simp add: sm_ok_Cons)
  next
    case 3
    then have "sm_ok (sm_set k v m)" using 2 by (simp add: sm_ok_Cons)
    moreover have "\<forall>x \<in> fst ` set (sm_set k v m). a < x"
      unfolding keys_sm_set using 3 2(2) by (simp add: sm_ok_Cons)
    ultimately show ?thesis using 3 by (auto simp: sm_ok_Cons simp del: keys_sm_set)
  qed
qed (simp add: sm_ok_Cons)

lemma sm_ok_distinct: "sm_ok m \<Longrightarrow> distinct (map fst m)"
  by (simp add: sm_ok_def strict_sorted_iff)

lemma in_keys_iff: "k \<in> fst ` set m \<longleftrightarrow> (\<exists>v. map_of m k = Some v)"
  by (metis map_of_eq_None_iff not_None_eq)

text \<open>The entry of a key, or the default that \<^verbatim>\<open>operator[]\<close> puts there.\<close>

definition sm_get :: "'v \<Rightarrow> ('k \<times> 'v) list \<Rightarrow> 'k \<Rightarrow> 'v" where
  "sm_get d m k = (case map_of m k of Some v \<Rightarrow> v | None \<Rightarrow> d)"

end
