(* ===== verification/Domain_Storage.thy ===== *)
theory Domain_Storage
  imports Mstream Std_Map "HOL-Library.AList"
begin

text \<open>
  \<^verbatim>\<open>aether/obj/idomain_storage.h\<close> and \<^verbatim>\<open>aether/domain_storage\<close>: what an object graph keeps its state in.  Five implementations of
  \<^verbatim>\<open>IDomainStorage\<close>: in memory (\<open>ram\<close>, also behind the registrar), as files (\<open>fs\<close>), on flash with a checksum per entry (\<open>sp\<close>), constant
  tables (\<open>static\<close>) and one storage behind another (\<open>sync\<close>).  The contract is the locale \<open>domain_storage\<close>.

  A path is the triple it is printed from.  The checksum comes from another package and is the parameter \<open>crc\<close>, and whether the flash file
  system opens a file for writing is the parameter \<open>can_open\<close>.  The dump of the flash index is kept as the index: its bytes and their
  round trip are those of the map operators of \<^verbatim>\<open>Mstream\<close>.  What is thrown or fails an assertion is \<open>None\<close>.
\<close>

record DomainQuery =
  dq_id :: nat
  dq_class :: nat
  dq_version :: nat

datatype DomainLoad = kEmpty | kRemoved | kLoaded "byte list"

type_synonym version_data = "(nat \<times> byte list) list"
type_synonym class_data = "(nat \<times> version_data) list"

definition class_put :: "DomainQuery \<Rightarrow> 'v \<Rightarrow> (nat \<times> (nat \<times> 'v) list) list \<Rightarrow> (nat \<times> (nat \<times> 'v) list) list" where
  "class_put q d classes = sm_set (dq_class q) (sm_set (dq_version q) d (sm_get [] classes (dq_class q))) classes"

definition class_find :: "DomainQuery \<Rightarrow> (nat \<times> (nat \<times> 'v) list) list \<Rightarrow> 'v option" where
  "class_find q classes =
     (case map_of classes (dq_class q) of None \<Rightarrow> None | Some versions \<Rightarrow> map_of versions (dq_version q))"


subsection \<open>In memory\<close>

record ram_storage =
  rs_state :: "(nat \<times> class_data option) list"
  rs_write_lock :: bool

record storage_writer =
  sw_query :: DomainQuery
  sw_data :: "byte list"

definition ram_make :: ram_storage where
  "ram_make = \<lparr>rs_state = [], rs_write_lock = False\<rparr>"

definition ram_Store :: "ram_storage \<Rightarrow> DomainQuery \<Rightarrow> storage_writer option" where
  "ram_Store s q = (if rs_write_lock s then None else Some \<lparr>sw_query = q, sw_data = []\<rparr>)"

definition ram_write :: "storage_writer \<Rightarrow> byte list \<Rightarrow> storage_writer" where
  "ram_write w chunk = w\<lparr>sw_data := vw_write (sw_data w) chunk\<rparr>"

definition ram_SaveData :: "ram_storage \<Rightarrow> DomainQuery \<Rightarrow> byte list \<Rightarrow> ram_storage" where
  "ram_SaveData s q data =
     (let object_classes = (case map_of (rs_state s) (dq_id q) of Some (Some classes) \<Rightarrow> classes | _ \<Rightarrow> [])
      in s\<lparr>rs_state := sm_set (dq_id q) (Some (class_put q data object_classes)) (rs_state s)\<rparr>)"

text \<open>The destructor of the writer.\<close>

definition ram_writer_end :: "ram_storage \<Rightarrow> storage_writer \<Rightarrow> ram_storage" where
  "ram_writer_end s w = ram_SaveData s (sw_query w) (sw_data w)"

definition ram_Enumerate :: "ram_storage \<Rightarrow> nat \<Rightarrow> nat list" where
  "ram_Enumerate s i =
     (case map_of (rs_state s) i of
        None \<Rightarrow> []
      | Some None \<Rightarrow> []
      | Some (Some classes) \<Rightarrow> map fst classes)"

text \<open>A load that finds data makes a reader, which takes the lock; its destructor gives the lock back.\<close>

definition ram_Load :: "ram_storage \<Rightarrow> DomainQuery \<Rightarrow> ram_storage \<times> DomainLoad" where
  "ram_Load s q =
     (case map_of (rs_state s) (dq_id q) of
        None \<Rightarrow> (s, kEmpty)
      | Some None \<Rightarrow> (s, kRemoved)
      | Some (Some classes) \<Rightarrow>
          (case class_find q classes of
             None \<Rightarrow> (s, kEmpty)
           | Some data \<Rightarrow> (s\<lparr>rs_write_lock := True\<rparr>, kLoaded data)))"

definition ram_reader_end :: "ram_storage \<Rightarrow> ram_storage" where
  "ram_reader_end s = s\<lparr>rs_write_lock := False\<rparr>"

definition ram_Remove :: "ram_storage \<Rightarrow> nat \<Rightarrow> ram_storage" where
  "ram_Remove s i = s\<lparr>rs_state := sm_set i None (rs_state s)\<rparr>"

definition ram_CleanUp :: "ram_storage \<Rightarrow> ram_storage" where
  "ram_CleanUp s = s\<lparr>rs_state := []\<rparr>"

text \<open>The registrar's storage hands everything to the one in memory.\<close>

definition reg_Store :: "ram_storage \<Rightarrow> DomainQuery \<Rightarrow> storage_writer option" where
  "reg_Store = ram_Store"

definition reg_Enumerate :: "ram_storage \<Rightarrow> nat \<Rightarrow> nat list" where
  "reg_Enumerate = ram_Enumerate"

definition reg_Load :: "ram_storage \<Rightarrow> DomainQuery \<Rightarrow> ram_storage \<times> DomainLoad" where
  "reg_Load = ram_Load"

definition reg_Remove :: "ram_storage \<Rightarrow> nat \<Rightarrow> ram_storage" where
  "reg_Remove = ram_Remove"

definition reg_CleanUp :: "ram_storage \<Rightarrow> ram_storage" where
  "reg_CleanUp = ram_CleanUp"


subsection \<open>Files\<close>

text \<open>The directory \<^verbatim>\<open>state\<close> with a directory per object, one per class in it, and a file per version; \<open>None\<close> is a directory that does not exist.\<close>

record file_storage =
  fs_state :: "(nat \<times> class_data) list option"

definition fs_make :: file_storage where
  "fs_make = \<lparr>fs_state = None\<rparr>"

definition fs_put :: "file_storage \<Rightarrow> DomainQuery \<Rightarrow> byte list \<Rightarrow> file_storage" where
  "fs_put s q data =
     (let dirs = (case fs_state s of None \<Rightarrow> [] | Some dirs \<Rightarrow> dirs)
      in \<lparr>fs_state = Some (sm_set (dq_id q) (class_put q data (sm_get [] dirs (dq_id q))) dirs)\<rparr>)"

definition fs_file :: "file_storage \<Rightarrow> DomainQuery \<Rightarrow> byte list option" where
  "fs_file s q =
     (case fs_state s of
        None \<Rightarrow> None
      | Some dirs \<Rightarrow> (case map_of dirs (dq_id q) of None \<Rightarrow> None | Some classes \<Rightarrow> class_find q classes))"

text \<open>\<^verbatim>\<open>Store\<close> makes the directories and truncates the file; the writer appends to it.\<close>

definition fs_Store :: "file_storage \<Rightarrow> DomainQuery \<Rightarrow> file_storage \<times> DomainQuery" where
  "fs_Store s q = (fs_put s q [], q)"

definition fs_write :: "file_storage \<Rightarrow> DomainQuery \<Rightarrow> byte list \<Rightarrow> file_storage" where
  "fs_write s w chunk = (case fs_file s w of None \<Rightarrow> s | Some old \<Rightarrow> fs_put s w (old @ chunk))"

definition fs_Enumerate :: "file_storage \<Rightarrow> nat \<Rightarrow> nat list" where
  "fs_Enumerate s i =
     (case fs_state s of
        None \<Rightarrow> []
      | Some dirs \<Rightarrow> (case map_of dirs i of None \<Rightarrow> [] | Some classes \<Rightarrow> map fst classes))"

definition fs_Load :: "file_storage \<Rightarrow> DomainQuery \<Rightarrow> DomainLoad" where
  "fs_Load s q =
     (case fs_state s of
        None \<Rightarrow> kEmpty
      | Some dirs \<Rightarrow>
          (case map_of dirs (dq_id q) of
             None \<Rightarrow> kEmpty
           | Some classes \<Rightarrow>
               if classes = [] then kRemoved
               else (case class_find q classes of None \<Rightarrow> kEmpty | Some data \<Rightarrow> kLoaded data)))"

text \<open>\<^verbatim>\<open>create_directory\<close> throws when the directory above does not exist.\<close>

definition fs_Remove :: "file_storage \<Rightarrow> nat \<Rightarrow> file_storage option" where
  "fs_Remove s i =
     (case fs_state s of
        None \<Rightarrow> None
      | Some dirs \<Rightarrow> Some \<lparr>fs_state = Some (sm_set i [] dirs)\<rparr>)"

definition fs_CleanUp :: "file_storage \<Rightarrow> file_storage" where
  "fs_CleanUp s = \<lparr>fs_state = None\<rparr>"


subsection \<open>Flash\<close>

type_synonym object_map = "(nat \<times> (nat \<times> (nat \<times> nat) list) list) list"

datatype spifs_path = ObjectMapPath | ObjectPath nat nat nat

record spifs_storage =
  sp_object_map :: object_map
  sp_files :: "((nat \<times> nat \<times> nat) \<times> byte list) list"
  sp_dump :: "object_map option"

definition sp_path :: "DomainQuery \<Rightarrow> nat \<times> nat \<times> nat" where
  "sp_path q = (dq_id q, dq_class q, dq_version q)"

definition sp_SyncState :: "(spifs_path \<Rightarrow> bool) \<Rightarrow> spifs_storage \<Rightarrow> spifs_storage" where
  "sp_SyncState can_open s =
     (if \<not> can_open ObjectMapPath then s else s\<lparr>sp_dump := Some (sp_object_map s)\<rparr>)"

text \<open>What is read from the dump when the storage is made.\<close>

definition sp_InitState :: "spifs_storage \<Rightarrow> spifs_storage" where
  "sp_InitState s = (case sp_dump s of None \<Rightarrow> s | Some m \<Rightarrow> s\<lparr>sp_object_map := m\<rparr>)"

definition sp_make :: "((nat \<times> nat \<times> nat) \<times> byte list) list \<Rightarrow> object_map option \<Rightarrow> spifs_storage" where
  "sp_make files dump = sp_InitState \<lparr>sp_object_map = [], sp_files = files, sp_dump = dump\<rparr>"

definition sp_SaveObject :: "(spifs_path \<Rightarrow> bool) \<Rightarrow> spifs_storage \<Rightarrow> DomainQuery \<Rightarrow> nat \<Rightarrow> spifs_storage \<times> bool" where
  "sp_SaveObject can_open s q crc =
     (let classes = sm_get [] (sp_object_map s) (dq_id q);
          saved = (case class_find q classes of None \<Rightarrow> 0 | Some c \<Rightarrow> c);
          put = (\<lambda>c. s\<lparr>sp_object_map := sm_set (dq_id q) (class_put q c classes) (sp_object_map s)\<rparr>)
      in if saved \<noteq> crc then (sp_SyncState can_open (put crc), True) else (put saved, False))"

definition sp_Store :: "DomainQuery \<Rightarrow> storage_writer" where
  "sp_Store q = \<lparr>sw_query = q, sw_data = []\<rparr>"

definition sp_write :: "storage_writer \<Rightarrow> byte list \<Rightarrow> storage_writer" where
  "sp_write w chunk = w\<lparr>sw_data := vw_write (sw_data w) chunk\<rparr>"

text \<open>The destructor of the writer.\<close>

definition sp_writer_end :: "(spifs_path \<Rightarrow> bool) \<Rightarrow> (byte list \<Rightarrow> nat) \<Rightarrow> spifs_storage \<Rightarrow> storage_writer \<Rightarrow> spifs_storage" where
  "sp_writer_end can_open crc s w =
     (case sp_SaveObject can_open s (sw_query w) (crc (sw_data w)) of
        (s1, False) \<Rightarrow> s1
      | (s1, True) \<Rightarrow>
          if \<not> can_open (ObjectPath (dq_id (sw_query w)) (dq_class (sw_query w)) (dq_version (sw_query w))) then s1
          else s1\<lparr>sp_files := (sp_path (sw_query w), sw_data w) # AList.delete (sp_path (sw_query w)) (sp_files s1)\<rparr>)"

definition sp_Enumerate :: "spifs_storage \<Rightarrow> nat \<Rightarrow> nat list" where
  "sp_Enumerate s i = (case map_of (sp_object_map s) i of None \<Rightarrow> [] | Some classes \<Rightarrow> map fst classes)"

definition sp_Load :: "spifs_storage \<Rightarrow> DomainQuery \<Rightarrow> DomainLoad" where
  "sp_Load s q =
     (case map_of (sp_object_map s) (dq_id q) of
        None \<Rightarrow> kEmpty
      | Some classes \<Rightarrow>
          if classes = [] then kRemoved
          else (case class_find q classes of
                  None \<Rightarrow> kEmpty
                | Some _ \<Rightarrow> (case map_of (sp_files s) (sp_path q) of None \<Rightarrow> kEmpty | Some data \<Rightarrow> kLoaded data)))"

text \<open>The paths that an object's entries name.\<close>

definition sp_unlink :: "nat \<Rightarrow> (nat \<times> (nat \<times> nat) list) list \<Rightarrow> ((nat \<times> nat \<times> nat) \<times> byte list) list \<Rightarrow> ((nat \<times> nat \<times> nat) \<times> byte list) list" where
  "sp_unlink i classes files =
     foldl (\<lambda>fs p. AList.delete p fs) files [(i, c, v). (c, versions) \<leftarrow> classes, (v, _) \<leftarrow> versions]"

definition sp_Remove :: "(spifs_path \<Rightarrow> bool) \<Rightarrow> spifs_storage \<Rightarrow> nat \<Rightarrow> spifs_storage" where
  "sp_Remove can_open s i =
     (case map_of (sp_object_map s) i of
        None \<Rightarrow> s\<lparr>sp_object_map := sm_set i [] (sp_object_map s)\<rparr>
      | Some classes \<Rightarrow>
          sp_SyncState can_open
            (s\<lparr>sp_files := sp_unlink i classes (sp_files s), sp_object_map := sm_set i [] (sp_object_map s)\<rparr>))"

definition sp_CleanUp :: "(spifs_path \<Rightarrow> bool) \<Rightarrow> spifs_storage \<Rightarrow> spifs_storage" where
  "sp_CleanUp can_open s =
     sp_SyncState can_open
       (s\<lparr>sp_files := foldl (\<lambda>fs (i, classes). sp_unlink i classes fs) (sp_files s) (sp_object_map s), sp_object_map := []\<rparr>)"


subsection \<open>Constant tables, and one storage behind another\<close>

record static_data =
  sd_object_map :: "(nat \<times> nat list) list"
  sd_state_map :: "((nat \<times> nat \<times> nat) \<times> byte list) list"

text \<open>\<^verbatim>\<open>StaticMap::find\<close>: the first entry with the key.\<close>

definition static_find :: "('k \<times> 'v) list \<Rightarrow> 'k \<Rightarrow> 'v option" where
  "static_find m k = map_option snd (find (\<lambda>e. fst e = k) m)"

definition static_Store :: "static_data \<Rightarrow> DomainQuery \<Rightarrow> storage_writer option" where
  "static_Store s q = None"

definition static_Enumerate :: "static_data \<Rightarrow> nat \<Rightarrow> nat list" where
  "static_Enumerate s i = (case static_find (sd_object_map s) i of None \<Rightarrow> [] | Some classes \<Rightarrow> classes)"

definition static_Load :: "static_data \<Rightarrow> DomainQuery \<Rightarrow> DomainLoad" where
  "static_Load s q =
     (case static_find (sd_state_map s) (dq_id q, dq_class q, dq_version q) of None \<Rightarrow> kEmpty | Some data \<Rightarrow> kLoaded data)"

definition static_Remove :: "static_data \<Rightarrow> nat \<Rightarrow> static_data" where
  "static_Remove s i = s"

definition static_CleanUp :: "static_data \<Rightarrow> static_data" where
  "static_CleanUp s = s"

text \<open>\<^verbatim>\<open>SyncDomainStorage\<close> over the operations of the two storages.\<close>

definition sync_Store :: "(DomainQuery \<Rightarrow> 'w) \<Rightarrow> DomainQuery \<Rightarrow> 'w" where
  "sync_Store rw_Store q = rw_Store q"

definition sync_Enumerate :: "(nat \<Rightarrow> nat list) \<Rightarrow> (nat \<Rightarrow> nat list) \<Rightarrow> nat \<Rightarrow> nat list" where
  "sync_Enumerate ro_Enumerate rw_Enumerate i =
     (let rw_list = rw_Enumerate i in if rw_list = [] then ro_Enumerate i else rw_list)"

definition sync_Load :: "(DomainQuery \<Rightarrow> DomainLoad) \<Rightarrow> (DomainQuery \<Rightarrow> DomainLoad) \<Rightarrow> DomainQuery \<Rightarrow> DomainLoad" where
  "sync_Load ro_Load rw_Load q = (let rw_load = rw_Load q in if rw_load = kEmpty then ro_Load q else rw_load)"

definition sync_Remove :: "('s \<Rightarrow> nat \<Rightarrow> 't) \<Rightarrow> 's \<Rightarrow> nat \<Rightarrow> 't" where
  "sync_Remove rw_Remove rw i = rw_Remove rw i"

definition sync_CleanUp :: "('s \<Rightarrow> 't) \<Rightarrow> 's \<Rightarrow> 't" where
  "sync_CleanUp rw_CleanUp rw = rw_CleanUp rw"


subsection \<open>Readers\<close>

text \<open>Each reader over its data: the bytes that reach the destination and the result the stream sees.\<close>

definition ram_read :: "reader \<Rightarrow> nat \<Rightarrow> reader \<times> byte list" where
  "ram_read r n = (case vr_read r n of (r', None) \<Rightarrow> (r', []) | (r', Some bs) \<Rightarrow> (r', bs))"

definition ram_read_result :: "reader \<Rightarrow> ReadResult" where
  "ram_read_result r = kYes"

text \<open>A file stream reads what is left and fails from then on.\<close>

record file_reader =
  fr_rest :: "byte list"
  fr_fail :: bool
  fr_result :: ReadResult

definition fs_read :: "file_reader \<Rightarrow> nat \<Rightarrow> file_reader \<times> byte list" where
  "fs_read r n =
     (if fr_fail r then (r, [])
      else (r\<lparr>fr_rest := drop n (fr_rest r), fr_fail := length (fr_rest r) < n\<rparr>, take n (fr_rest r)))"

definition fs_read_result :: "file_reader \<Rightarrow> ReadResult" where
  "fs_read_result r = kYes"

definition sp_read :: "file_reader \<Rightarrow> nat \<Rightarrow> file_reader \<times> byte list" where
  "sp_read r n =
     (let bs = take n (fr_rest r)
      in (r\<lparr>fr_rest := drop n (fr_rest r), fr_result := (if length bs \<noteq> n then kNo else kYes)\<rparr>, bs))"

definition sp_read_result :: "file_reader \<Rightarrow> ReadResult" where
  "sp_read_result r = fr_result r"

definition static_read :: "reader \<Rightarrow> nat \<Rightarrow> (reader \<times> byte list) option" where
  "static_read r n =
     (if sz_add (rd_offset r) n \<le> length (rd_data r)
      then Some (r\<lparr>rd_offset := sz_add (rd_offset r) n\<rparr>, take n (drop (rd_offset r) (rd_data r)))
      else None)"

definition static_read_result :: "reader \<Rightarrow> ReadResult" where
  "static_read_result r = kYes"

text \<open>\<^verbatim>\<open>DomainStorageReaderEmpty\<close>.\<close>

definition empty_read :: "nat \<Rightarrow> byte list" where
  "empty_read n = []"

definition empty_read_result :: ReadResult where
  "empty_read_result = kNo"


subsection \<open>The contract\<close>

text \<open>A store of some bytes from the making of the writer to its end, as a step of each storage.\<close>

definition ram_store :: "ram_storage \<Rightarrow> DomainQuery \<Rightarrow> byte list \<Rightarrow> ram_storage option" where
  "ram_store s q d = map_option (\<lambda>w. ram_writer_end s (ram_write w d)) (ram_Store s q)"

definition fs_store :: "file_storage \<Rightarrow> DomainQuery \<Rightarrow> byte list \<Rightarrow> file_storage option" where
  "fs_store s q d = (case fs_Store s q of (s1, w) \<Rightarrow> Some (fs_write s1 w d))"

definition sp_store :: "(spifs_path \<Rightarrow> bool) \<Rightarrow> (byte list \<Rightarrow> nat) \<Rightarrow> spifs_storage \<Rightarrow> DomainQuery \<Rightarrow> byte list \<Rightarrow> spifs_storage option" where
  "sp_store can_open crc s q d = Some (sp_writer_end can_open crc s (sp_write (sp_Store q) d))"

datatype storage_op = OpStore DomainQuery "byte list" | OpRemove nat | OpCleanUp

text \<open>A sequence of operations on a storage, and what a query must find after it.\<close>

fun storage_run ::
  "('s \<Rightarrow> DomainQuery \<Rightarrow> byte list \<Rightarrow> 's option) \<Rightarrow> ('s \<Rightarrow> nat \<Rightarrow> 's option) \<Rightarrow> ('s \<Rightarrow> 's) \<Rightarrow> storage_op list \<Rightarrow> 's \<Rightarrow> 's option" where
  "storage_run store remove cleanup [] s = Some s"
| "storage_run store remove cleanup (OpStore q d # ops) s = Option.bind (store s q d) (storage_run store remove cleanup ops)"
| "storage_run store remove cleanup (OpRemove i # ops) s = Option.bind (remove s i) (storage_run store remove cleanup ops)"
| "storage_run store remove cleanup (OpCleanUp # ops) s = storage_run store remove cleanup ops (cleanup s)"

fun expected_step :: "DomainQuery \<Rightarrow> DomainLoad \<Rightarrow> storage_op \<Rightarrow> DomainLoad" where
  "expected_step q r (OpStore q' d) =
     (if q = q' then kLoaded d else if dq_id q = dq_id q' \<and> r = kRemoved then kEmpty else r)"
| "expected_step q r (OpRemove i) = (if dq_id q = i then kRemoved else r)"
| "expected_step q r OpCleanUp = kEmpty"

definition expected :: "storage_op list \<Rightarrow> DomainQuery \<Rightarrow> DomainLoad" where
  "expected ops q = foldl (expected_step q) kEmpty ops"

locale domain_storage =
  fixes store :: "'s \<Rightarrow> DomainQuery \<Rightarrow> byte list \<Rightarrow> 's option"
    and enumerate :: "'s \<Rightarrow> nat \<Rightarrow> nat list"
    and load :: "'s \<Rightarrow> DomainQuery \<Rightarrow> DomainLoad"
    and remove :: "'s \<Rightarrow> nat \<Rightarrow> 's option"
    and cleanup :: "'s \<Rightarrow> 's"
    and good :: "'s \<Rightarrow> bool"
    and ok :: "byte list \<Rightarrow> bool"
  assumes store_good: "good s \<Longrightarrow> ok d \<Longrightarrow> store s q d = Some s' \<Longrightarrow> good s'"
    and remove_good: "good s \<Longrightarrow> remove s i = Some s' \<Longrightarrow> good s'"
    and cleanup_good: "good s \<Longrightarrow> good (cleanup s)"
    and load_store: "good s \<Longrightarrow> ok d \<Longrightarrow> store s q d = Some s' \<Longrightarrow> load s' q' = expected_step q' (load s q') (OpStore q d)"
    and load_remove: "good s \<Longrightarrow> remove s i = Some s' \<Longrightarrow> load s' q' = expected_step q' (load s q') (OpRemove i)"
    and load_cleanup: "good s \<Longrightarrow> load (cleanup s) q' = kEmpty"
    and enumerate_load:
      "good s \<Longrightarrow> c \<in> set (enumerate s i) \<longleftrightarrow> (\<exists>v d. load s \<lparr>dq_id = i, dq_class = c, dq_version = v\<rparr> = kLoaded d)"
begin

text \<open>After any sequence of operations a query finds what the sequence says, and the classes are those with data.\<close>

lemma run_loads:
  assumes "storage_run store remove cleanup ops s = Some s'" and "good s"
    and "\<forall>q d. OpStore q d \<in> set ops \<longrightarrow> ok d"
  shows "good s' \<and> load s' q = foldl (expected_step q) (load s q) ops"
  using assms
proof (induction ops arbitrary: s)
  case (Cons op ops)
  then show ?case
  proof (cases op)
    case (OpStore q' d)
    then obtain s1 where s1: "store s q' d = Some s1" "storage_run store remove cleanup ops s1 = Some s'"
      using Cons.prems(1) by (auto simp: bind_eq_Some_conv)
    moreover have "ok d" using Cons.prems(3) OpStore by auto
    ultimately show ?thesis
      using Cons.IH [of s1] Cons.prems(2,3) OpStore by (auto simp: load_store store_good)
  next
    case (OpRemove i)
    then obtain s1 where "remove s i = Some s1" "storage_run store remove cleanup ops s1 = Some s'"
      using Cons.prems(1) by (auto simp: bind_eq_Some_conv)
    then show ?thesis
      using Cons.IH [of s1] Cons.prems(2,3) OpRemove by (auto simp: load_remove remove_good)
  next
    case OpCleanUp
    then show ?thesis
      using Cons.IH [of "cleanup s"] Cons.prems by (auto simp: load_cleanup cleanup_good)
  qed
qed simp

lemma run_total:
  assumes "\<And>s q d. good s \<Longrightarrow> store s q d \<noteq> None" and "\<And>s i. good s \<Longrightarrow> remove s i \<noteq> None"
    and "good s" and "\<forall>q d. OpStore q d \<in> set ops \<longrightarrow> ok d"
  shows "\<exists>s'. storage_run store remove cleanup ops s = Some s'"
  using assms(3,4)
proof (induction ops arbitrary: s)
  case (Cons op ops)
  then show ?case
  proof (cases op)
    case (OpStore q d)
    with Cons.prems obtain s1 where "store s q d = Some s1" "good s1"
      using assms(1) [of s q d] store_good [of s d q] by auto
    then show ?thesis using Cons.IH [of s1] Cons.prems(2) OpStore by simp
  next
    case (OpRemove i)
    with Cons.prems obtain s1 where "remove s i = Some s1" "good s1"
      using assms(2) [of s i] remove_good [of s i] by auto
    then show ?thesis using Cons.IH [of s1] Cons.prems(2) OpRemove by simp
  next
    case OpCleanUp
    then show ?thesis using Cons.IH [of "cleanup s"] Cons.prems cleanup_good by simp
  qed
qed simp

lemma run_enumerates:
  assumes "storage_run store remove cleanup ops s = Some s'" and "good s" and "\<forall>q. load s q = kEmpty"
    and "\<forall>q d. OpStore q d \<in> set ops \<longrightarrow> ok d"
  shows "load s' q = expected ops q \<and>
    (c \<in> set (enumerate s' i) \<longleftrightarrow> (\<exists>v d. expected ops \<lparr>dq_id = i, dq_class = c, dq_version = v\<rparr> = kLoaded d))"
  using run_loads [OF assms(1,2,4)] assms(3) enumerate_load [of s' c i] by (auto simp: expected_def)

end


subsection \<open>The storages meet it\<close>

lemma DomainQuery_eq_iff: "q = (q' :: DomainQuery) \<longleftrightarrow> dq_id q = dq_id q' \<and> dq_class q = dq_class q' \<and> dq_version q = dq_version q'"
  by auto

lemma expected_again: "expected_step q' (expected_step q' r (OpStore q x)) (OpStore q d) = expected_step q' r (OpStore q d)"
  by auto

lemma class_find_put:
  "class_find q' (class_put q d classes) =
     (if dq_class q' = dq_class q \<and> dq_version q' = dq_version q then Some d else class_find q' classes)"
  by (auto simp: class_find_def class_put_def sm_get_def split: option.splits)

lemma class_put_not_Nil [simp]: "class_put q d classes \<noteq> []"
  by (simp add: class_put_def)

lemma class_find_Nil [simp]: "class_find q [] = None"
  by (simp add: class_find_def)

text \<open>No class is left without a version.\<close>

definition classes_ok :: "(nat \<times> (nat \<times> 'v) list) list \<Rightarrow> bool" where
  "classes_ok classes \<longleftrightarrow> (\<forall>c versions. map_of classes c = Some versions \<longrightarrow> versions \<noteq> [])"

lemma classes_ok_Nil [simp]: "classes_ok []"
  by (simp add: classes_ok_def)

lemma classes_ok_put [simp]: "classes_ok classes \<Longrightarrow> classes_ok (class_put q d classes)"
  by (simp add: classes_ok_def class_put_def)

lemma map_of_not_Nil: "m \<noteq> [] \<Longrightarrow> \<exists>k v. map_of m k = Some v"
  by (cases m) (auto intro!: exI [of _ "fst (hd m)"])

lemma classes_keys:
  assumes "classes_ok classes"
  shows "c \<in> set (map fst classes) \<longleftrightarrow> (\<exists>v d. class_find \<lparr>dq_id = i, dq_class = c, dq_version = v\<rparr> classes = Some d)"
proof
  assume "c \<in> set (map fst classes)"
  then obtain versions where v: "map_of classes c = Some versions" by (auto simp: in_keys_iff simp del: not_None_eq)
  then have "versions \<noteq> []" using assms by (simp add: classes_ok_def)
  then show "\<exists>v d. class_find \<lparr>dq_id = i, dq_class = c, dq_version = v\<rparr> classes = Some d"
    using v map_of_not_Nil [of versions] by (simp add: class_find_def)
qed (auto simp: class_find_def in_keys_iff split: option.splits)

definition ram_good :: "ram_storage \<Rightarrow> bool" where
  "ram_good s \<longleftrightarrow> \<not> rs_write_lock s \<and> (\<forall>i classes. map_of (rs_state s) i = Some (Some classes) \<longrightarrow> classes_ok classes)"

lemma ram_load:
  "snd (ram_Load s q) =
     (case map_of (rs_state s) (dq_id q) of
        None \<Rightarrow> kEmpty | Some None \<Rightarrow> kRemoved
      | Some (Some classes) \<Rightarrow> (case class_find q classes of None \<Rightarrow> kEmpty | Some d \<Rightarrow> kLoaded d))"
  by (simp add: ram_Load_def split: option.splits)

lemma ram_store_eq: "\<not> rs_write_lock s \<Longrightarrow> ram_store s q d = Some (ram_SaveData s q d)"
  by (simp add: ram_store_def ram_Store_def ram_writer_end_def ram_write_def vw_write_def)

lemma ram_state_SaveData:
  "map_of (rs_state (ram_SaveData s q d)) =
     (map_of (rs_state s))(dq_id q \<mapsto>
       Some (class_put q d (case map_of (rs_state s) (dq_id q) of Some (Some classes) \<Rightarrow> classes | _ \<Rightarrow> [])))"
  by (simp add: ram_SaveData_def Let_def)

lemma ram_load_SaveData: "snd (ram_Load (ram_SaveData s q d) q') = expected_step q' (snd (ram_Load s q')) (OpStore q d)"
proof (cases "dq_id q' = dq_id q")
  case True
  consider (1) "map_of (rs_state s) (dq_id q) = None" | (2) "map_of (rs_state s) (dq_id q) = Some None"
    | (3) classes where "map_of (rs_state s) (dq_id q) = Some (Some classes)" by (metis option.exhaust)
  then show ?thesis
    by cases (simp_all add: True ram_load ram_state_SaveData class_find_put DomainQuery_eq_iff split: option.split)
qed (auto simp: ram_load ram_state_SaveData)

lemma ram_good_SaveData:
  assumes "ram_good s"
  shows "ram_good (ram_SaveData s q d)"
proof -
  have "rs_write_lock (ram_SaveData s q d) = rs_write_lock s" by (simp add: ram_SaveData_def Let_def)
  moreover have "classes_ok (case map_of (rs_state s) (dq_id q) of Some (Some classes) \<Rightarrow> classes | _ \<Rightarrow> [])"
    using assms by (simp add: ram_good_def split: option.split)
  ultimately show ?thesis using assms by (simp add: ram_good_def ram_state_SaveData)
qed

lemma ram_enumerate_load:
  assumes "ram_good s"
  shows "c \<in> set (ram_Enumerate s i) \<longleftrightarrow> (\<exists>v d. snd (ram_Load s \<lparr>dq_id = i, dq_class = c, dq_version = v\<rparr>) = kLoaded d)"
proof -
  consider (1) "map_of (rs_state s) i = None" | (2) "map_of (rs_state s) i = Some None"
    | (3) classes where "map_of (rs_state s) i = Some (Some classes)" by (metis option.exhaust)
  then show ?thesis
  proof cases
    case 3
    then have "classes_ok classes" using assms by (simp add: ram_good_def)
    with 3 show ?thesis using classes_keys [of classes c i] by (auto simp: ram_Enumerate_def ram_load split: option.splits)
  qed (simp_all add: ram_Enumerate_def ram_load)
qed

interpretation ram: domain_storage ram_store ram_Enumerate "\<lambda>s q. snd (ram_Load s q)" "\<lambda>s i. Some (ram_Remove s i)" ram_CleanUp
  ram_good "\<lambda>_. True"
proof
  fix s s' :: ram_storage and q q' :: DomainQuery and d :: "byte list" and i c :: nat
  assume good: "ram_good s"
  show "ram_good (ram_CleanUp s)" "snd (ram_Load (ram_CleanUp s) q') = kEmpty"
    using good by (simp_all add: ram_good_def ram_CleanUp_def ram_load)
  show "ram_good s'" if "Some (ram_Remove s i) = Some s'"
    using that good by (auto simp: ram_good_def ram_Remove_def split: if_splits)
  show "snd (ram_Load s' q') = expected_step q' (snd (ram_Load s q')) (OpRemove i)" if "Some (ram_Remove s i) = Some s'"
    using that by (auto simp: ram_Remove_def ram_load)
  have store: "s' = ram_SaveData s q d" if "ram_store s q d = Some s'"
    using that good ram_store_eq [of s q d] by (simp add: ram_good_def)
  show "ram_good s'" if "ram_store s q d = Some s'"
    unfolding store [OF that] using good by (rule ram_good_SaveData)
  show "snd (ram_Load s' q') = expected_step q' (snd (ram_Load s q')) (OpStore q d)" if "ram_store s q d = Some s'"
    unfolding store [OF that] by (rule ram_load_SaveData)
qed (rule ram_enumerate_load)

definition fs_good :: "file_storage \<Rightarrow> bool" where
  "fs_good s \<longleftrightarrow> (\<forall>dirs i classes. fs_state s = Some dirs \<longrightarrow> map_of dirs i = Some classes \<longrightarrow> classes_ok classes)"

abbreviation fs_dirs :: "file_storage \<Rightarrow> (nat \<times> class_data) list" where
  "fs_dirs s \<equiv> (case fs_state s of None \<Rightarrow> [] | Some dirs \<Rightarrow> dirs)"

lemma fs_dirs_put: "map_of (fs_dirs (fs_put s q d)) = (map_of (fs_dirs s))(dq_id q \<mapsto> class_put q d (sm_get [] (fs_dirs s) (dq_id q)))"
  by (simp add: fs_put_def Let_def)

lemma fs_load:
  "fs_Load s q =
     (case map_of (fs_dirs s) (dq_id q) of
        None \<Rightarrow> kEmpty
      | Some classes \<Rightarrow> if classes = [] then kRemoved else (case class_find q classes of None \<Rightarrow> kEmpty | Some d \<Rightarrow> kLoaded d))"
  by (simp add: fs_Load_def split: option.splits)

lemma fs_enumerate: "fs_Enumerate s i = (case map_of (fs_dirs s) i of None \<Rightarrow> [] | Some classes \<Rightarrow> map fst classes)"
  by (simp add: fs_Enumerate_def split: option.splits)

lemma fs_good_iff: "fs_good s \<longleftrightarrow> (\<forall>i classes. map_of (fs_dirs s) i = Some classes \<longrightarrow> classes_ok classes)"
  by (cases "fs_state s") (simp_all add: fs_good_def)

lemma fs_store_eq: "fs_store s q d = Some (fs_put (fs_put s q []) q d)"
proof -
  have "fs_file (fs_put s q []) q = Some []" by (simp add: fs_file_def fs_put_def Let_def class_find_put)
  then show ?thesis by (simp add: fs_store_def fs_Store_def fs_write_def)
qed

lemma fs_good_put:
  assumes "fs_good s"
  shows "fs_good (fs_put s q d)"
proof -
  have "classes_ok (sm_get [] (fs_dirs s) (dq_id q))"
    using assms by (simp add: fs_good_iff sm_get_def split: option.split)
  then show ?thesis using assms by (simp add: fs_good_iff fs_dirs_put)
qed

lemma fs_load_put: "fs_Load (fs_put s q d) q' = expected_step q' (fs_Load s q') (OpStore q d)"
proof (cases "dq_id q' = dq_id q")
  case True
  then show ?thesis
    by (cases "map_of (fs_dirs s) (dq_id q)")
      (simp_all add: fs_load fs_dirs_put class_find_put sm_get_def DomainQuery_eq_iff split: option.split)
qed (auto simp: fs_load fs_dirs_put)

lemma fs_dirs_remove: "fs_Remove s i = Some s' \<Longrightarrow> map_of (fs_dirs s') = (map_of (fs_dirs s))(i \<mapsto> [])"
  by (cases "fs_state s") (auto simp: fs_Remove_def)

lemma fs_enumerate_load:
  assumes "fs_good s"
  shows "c \<in> set (fs_Enumerate s i) \<longleftrightarrow> (\<exists>v d. fs_Load s \<lparr>dq_id = i, dq_class = c, dq_version = v\<rparr> = kLoaded d)"
proof (cases "map_of (fs_dirs s) i")
  case (Some classes)
  then have "classes_ok classes" using assms by (simp add: fs_good_iff)
  then show ?thesis using Some classes_keys [of classes c i] by (auto simp: fs_enumerate fs_load split: option.splits)
qed (simp add: fs_enumerate fs_load)

interpretation fs: domain_storage fs_store fs_Enumerate fs_Load fs_Remove fs_CleanUp fs_good "\<lambda>_. True"
proof
  fix s s' :: file_storage and q q' :: DomainQuery and d :: "byte list" and i c :: nat
  assume good: "fs_good s"
  show "fs_good (fs_CleanUp s)" "fs_Load (fs_CleanUp s) q' = kEmpty"
    by (simp_all add: fs_good_def fs_CleanUp_def fs_Load_def)
  show "fs_good s'" if "fs_Remove s i = Some s'"
    using fs_dirs_remove [OF that] good by (simp add: fs_good_iff)
  show "fs_Load s' q' = expected_step q' (fs_Load s q') (OpRemove i)" if "fs_Remove s i = Some s'"
    using fs_dirs_remove [OF that] by (simp add: fs_load)
  have store: "s' = fs_put (fs_put s q []) q d" if "fs_store s q d = Some s'"
    using that by (simp add: fs_store_eq)
  show "fs_good s'" if "fs_store s q d = Some s'"
    unfolding store [OF that] using good by (intro fs_good_put)
  show "fs_Load s' q' = expected_step q' (fs_Load s q') (OpStore q d)" if "fs_store s q d = Some s'"
    unfolding store [OF that] by (simp only: fs_load_put expected_again)
qed (rule fs_enumerate_load)

text \<open>On flash every entry of the index has its file, and the entry is the checksum of that file.  For that a checksum must tell
  the data that are stored apart, and must not be the zero that a new entry starts with.\<close>

definition crc_separates :: "(byte list \<Rightarrow> nat) \<Rightarrow> (byte list \<Rightarrow> bool) \<Rightarrow> bool" where
  "crc_separates crc ok \<longleftrightarrow> inj_on crc (Collect ok) \<and> (\<forall>d. ok d \<longrightarrow> crc d \<noteq> 0)"

definition sp_good :: "(byte list \<Rightarrow> nat) \<Rightarrow> (byte list \<Rightarrow> bool) \<Rightarrow> spifs_storage \<Rightarrow> bool" where
  "sp_good crc ok s \<longleftrightarrow>
     (\<forall>i classes. map_of (sp_object_map s) i = Some classes \<longrightarrow> classes_ok classes) \<and>
     (\<forall>q classes c. map_of (sp_object_map s) (dq_id q) = Some classes \<longrightarrow> class_find q classes = Some c \<longrightarrow>
        (\<exists>d. map_of (sp_files s) (sp_path q) = Some d \<and> ok d \<and> crc d = c))"

abbreviation opens :: "spifs_path \<Rightarrow> bool" where
  "opens \<equiv> \<lambda>_. True"

lemma sp_path_fst: "fst (sp_path q) = dq_id q"
  by (simp add: sp_path_def)

lemma sp_path_eq_iff: "sp_path q = sp_path q' \<longleftrightarrow> q = q'"
  by (auto simp: sp_path_def DomainQuery_eq_iff)

lemma sp_store_map:
  assumes "sp_store opens crc s q d = Some s'"
  shows "map_of (sp_object_map s') =
    (map_of (sp_object_map s))(dq_id q \<mapsto> class_put q (crc d) (sm_get [] (sp_object_map s) (dq_id q)))"
  using assms
  by (auto simp: sp_store_def sp_writer_end_def sp_write_def sp_Store_def sp_SaveObject_def sp_SyncState_def vw_write_def Let_def
      split: if_splits)

lemma sp_store_files:
  assumes "sp_store opens crc s q d = Some s'"
    and "class_find q (sm_get [] (sp_object_map s) (dq_id q)) = Some (crc d) \<Longrightarrow> map_of (sp_files s) (sp_path q) = Some d"
    and "crc d \<noteq> 0"
  shows "map_of (sp_files s') = (map_of (sp_files s))(sp_path q \<mapsto> d)"
proof (cases "class_find q (sm_get [] (sp_object_map s) (dq_id q)) = Some (crc d)")
  case True
  then have "sp_files s' = sp_files s"
    using assms(1)
    by (auto simp: sp_store_def sp_writer_end_def sp_write_def sp_Store_def sp_SaveObject_def vw_write_def Let_def)
  then show ?thesis using assms(2) [OF True] by auto
next
  case False
  then have "(case class_find q (sm_get [] (sp_object_map s) (dq_id q)) of None \<Rightarrow> 0 | Some c \<Rightarrow> c) \<noteq> crc d"
    using assms(3) by (auto split: option.split)
  then show ?thesis
    using assms(1)
    by (auto simp: sp_store_def sp_writer_end_def sp_write_def sp_Store_def sp_SaveObject_def sp_SyncState_def vw_write_def Let_def
        delete_conv')
qed

lemma sp_unlink_other: "fst p \<noteq> i \<Longrightarrow> map_of (sp_unlink i classes files) p = map_of files p"
proof -
  have *: "map_of (foldl (\<lambda>fs p. AList.delete p fs) files ps) p = map_of files p" if "p \<notin> set ps" for ps
    using that by (induction ps arbitrary: files) (auto simp: delete_conv')
  assume "fst p \<noteq> i"
  then show ?thesis unfolding sp_unlink_def by (intro *) auto
qed

lemma sp_entry_file:
  assumes "crc_separates crc ok" and "sp_good crc ok s" and "ok d"
    and "class_find q (sm_get [] (sp_object_map s) (dq_id q)) = Some (crc d)"
  shows "map_of (sp_files s) (sp_path q) = Some d"
proof -
  obtain classes where "map_of (sp_object_map s) (dq_id q) = Some classes" "class_find q classes = Some (crc d)"
    using assms(4) by (auto simp: sm_get_def split: option.splits)
  then obtain d' where "map_of (sp_files s) (sp_path q) = Some d'" "ok d'" "crc d' = crc d"
    using assms(2) unfolding sp_good_def by blast
  moreover from this have "d' = d" using assms(1,3) by (auto simp: crc_separates_def dest: inj_onD)
  ultimately show ?thesis by simp
qed

lemma sp_store_effect:
  assumes "crc_separates crc ok" and "sp_good crc ok s" and "ok d" and "sp_store opens crc s q d = Some s'"
  shows "map_of (sp_object_map s') =
      (map_of (sp_object_map s))(dq_id q \<mapsto> class_put q (crc d) (sm_get [] (sp_object_map s) (dq_id q)))"
    and "map_of (sp_files s') = (map_of (sp_files s))(sp_path q \<mapsto> d)"
  using sp_store_map [OF assms(4)] sp_store_files [OF assms(4) sp_entry_file [OF assms(1-3)]] assms(1,3)
  by (simp_all add: crc_separates_def)

lemma sp_good_classes: "sp_good crc ok s \<Longrightarrow> classes_ok (sm_get [] (sp_object_map s) i)"
  by (simp add: sp_good_def sm_get_def split: option.split)

lemma sp_good_store:
  assumes "crc_separates crc ok" and "sp_good crc ok s" and "ok d" and "sp_store opens crc s q d = Some s'"
  shows "sp_good crc ok s'"
  unfolding sp_good_def
proof (intro conjI allI impI)
  note eff = sp_store_effect [OF assms]
  show "classes_ok classes" if "map_of (sp_object_map s') i = Some classes" for i classes
    using that assms(2) sp_good_classes [OF assms(2)] by (auto simp: eff sp_good_def split: if_splits)
  show "\<exists>d. map_of (sp_files s') (sp_path q') = Some d \<and> ok d \<and> crc d = c"
    if "map_of (sp_object_map s') (dq_id q') = Some classes" "class_find q' classes = Some c" for q' classes c
  proof (cases "q' = q")
    case True
    then show ?thesis using that assms(3) by (auto simp: eff class_find_put)
  next
    case False
    then have "class_find q' (sm_get [] (sp_object_map s) (dq_id q')) = Some c"
      using that by (auto simp: eff class_find_put sm_get_def DomainQuery_eq_iff split: if_splits)
    then obtain old where "map_of (sp_object_map s) (dq_id q') = Some old" "class_find q' old = Some c"
      by (auto simp: sm_get_def split: option.splits)
    then show ?thesis using assms(2) False by (simp add: eff sp_good_def sp_path_eq_iff)
  qed
qed

lemma sp_load_good:
  assumes "sp_good crc ok s" and "map_of (sp_object_map s) (dq_id q) = Some classes" and "class_find q classes = Some c"
  shows "\<exists>d. sp_Load s q = kLoaded d \<and> map_of (sp_files s) (sp_path q) = Some d"
  using assms by (fastforce simp: sp_good_def sp_Load_def)

lemma sp_load_store:
  assumes "crc_separates crc ok" and "sp_good crc ok s" and "ok d" and "sp_store opens crc s q d = Some s'"
  shows "sp_Load s' q' = expected_step q' (sp_Load s q') (OpStore q d)"
proof -
  note eff = sp_store_effect [OF assms]
  consider "q' = q" | "dq_id q' \<noteq> dq_id q" | "q' \<noteq> q" "dq_id q' = dq_id q" by blast
  then show ?thesis
  proof cases
    case 3
    then show ?thesis
      by (cases "map_of (sp_object_map s) (dq_id q)")
        (auto simp: sp_Load_def eff class_find_put sm_get_def sp_path_eq_iff DomainQuery_eq_iff split: option.split)
  qed (auto simp: sp_Load_def eff class_find_put sp_path_def split: option.split)
qed

lemma sp_remove_map:
  "map_of (sp_object_map (sp_Remove opens s i)) = (map_of (sp_object_map s))(i \<mapsto> [])"
  by (simp add: sp_Remove_def sp_SyncState_def split: option.split)

lemma sp_remove_files: "dq_id q \<noteq> i \<Longrightarrow> map_of (sp_files (sp_Remove opens s i)) (sp_path q) = map_of (sp_files s) (sp_path q)"
  by (simp add: sp_Remove_def sp_SyncState_def sp_unlink_other sp_path_fst split: option.split)

lemma sp_load_remove: "sp_Load (sp_Remove opens s i) q = expected_step q (sp_Load s q) (OpRemove i)"
proof (cases "dq_id q = i")
  case True
  then show ?thesis by (simp add: sp_Load_def sp_remove_map)
next
  case False
  then show ?thesis unfolding sp_Load_def sp_remove_files [OF False] by (simp add: sp_remove_map)
qed

lemma sp_enumerate_load:
  assumes "sp_good crc ok s"
  shows "c \<in> set (sp_Enumerate s i) \<longleftrightarrow> (\<exists>v d. sp_Load s \<lparr>dq_id = i, dq_class = c, dq_version = v\<rparr> = kLoaded d)"
proof (cases "map_of (sp_object_map s) i")
  case (Some classes)
  then have "classes_ok classes" using assms by (simp add: sp_good_def)
  moreover have "(\<exists>d. sp_Load s \<lparr>dq_id = i, dq_class = c, dq_version = v\<rparr> = kLoaded d) \<longleftrightarrow>
      (\<exists>d. class_find \<lparr>dq_id = i, dq_class = c, dq_version = v\<rparr> classes = Some d)" for v
    using Some sp_load_good [OF assms, of "\<lparr>dq_id = i, dq_class = c, dq_version = v\<rparr>" classes]
    by (cases "class_find \<lparr>dq_id = i, dq_class = c, dq_version = v\<rparr> classes") (auto simp: sp_Load_def)
  ultimately show ?thesis using Some classes_keys [of classes c i] by (simp add: sp_Enumerate_def)
qed (simp add: sp_Enumerate_def sp_Load_def)

lemma sp_domain_storage:
  assumes "crc_separates crc ok"
  shows "domain_storage (sp_store opens crc) sp_Enumerate sp_Load (\<lambda>s i. Some (sp_Remove opens s i)) (sp_CleanUp opens) (sp_good crc ok) ok"
proof
  fix s s' :: spifs_storage and q q' :: DomainQuery and d :: "byte list" and i c :: nat
  assume good: "sp_good crc ok s"
  show "sp_good crc ok (sp_CleanUp opens s)" "sp_Load (sp_CleanUp opens s) q' = kEmpty"
    by (simp_all add: sp_CleanUp_def sp_SyncState_def sp_good_def sp_Load_def)
  show "sp_good crc ok s'" if "Some (sp_Remove opens s i) = Some s'"
    using that good by (auto simp: sp_good_def sp_remove_map sp_remove_files split: if_splits)
  show "sp_Load s' q' = expected_step q' (sp_Load s q') (OpRemove i)" if "Some (sp_Remove opens s i) = Some s'"
    using that sp_load_remove [of s i q'] by simp
  show "sp_good crc ok s'" if "ok d" "sp_store opens crc s q d = Some s'"
    using sp_good_store [OF assms good that] .
  show "sp_Load s' q' = expected_step q' (sp_Load s q') (OpStore q d)" if "ok d" "sp_store opens crc s q d = Some s'"
    using sp_load_store [OF assms good that] .
qed (rule sp_enumerate_load)


subsection \<open>Properties\<close>

text \<open>(C28) Whatever is stored, removed and cleaned up in the storage in memory, nothing fails, every query finds exactly what the sequence of
  operations says (the last data stored, removed, or nothing), and the classes enumerated for an object are those that have data.\<close>

theorem ram_storage_history:
  "\<exists>s'. storage_run ram_store (\<lambda>s i. Some (ram_Remove s i)) ram_CleanUp ops ram_make = Some s' \<and>
     snd (ram_Load s' q) = expected ops q \<and>
     (c \<in> set (ram_Enumerate s' i) \<longleftrightarrow> (\<exists>v d. expected ops \<lparr>dq_id = i, dq_class = c, dq_version = v\<rparr> = kLoaded d))"
proof -
  have good: "ram_good ram_make" by (simp add: ram_good_def ram_make_def)
  obtain s' where s': "storage_run ram_store (\<lambda>s i. Some (ram_Remove s i)) ram_CleanUp ops ram_make = Some s'"
    using ram.run_total [OF _ _ good, of ops] by (auto simp: ram_good_def ram_store_eq)
  moreover have "\<forall>q. snd (ram_Load ram_make q) = kEmpty" by (simp add: ram_load ram_make_def)
  ultimately show ?thesis using ram.run_enumerates [OF s' good] by simp
qed

text \<open>When a removal finds no directory to put the mark of a removed object into.\<close>

fun fs_throws :: "bool \<Rightarrow> storage_op list \<Rightarrow> bool" where
  "fs_throws dir [] = False"
| "fs_throws dir (OpStore q d # ops) = fs_throws True ops"
| "fs_throws dir (OpRemove i # ops) = (\<not> dir \<or> fs_throws dir ops)"
| "fs_throws dir (OpCleanUp # ops) = fs_throws False ops"

lemma fs_run_throws: "storage_run fs_store fs_Remove fs_CleanUp ops s = None \<longleftrightarrow> fs_throws (fs_state s \<noteq> None) ops"
proof (induction ops arbitrary: s)
  case (Cons op ops)
  then show ?case
    by (cases op; cases "fs_state s") (simp_all add: fs_store_eq fs_put_def Let_def fs_Remove_def fs_CleanUp_def)
qed simp

text \<open>(C29) The storage in files finds what the sequence of operations says as well, unless the sequence throws; and it throws exactly when an
  object is removed while nothing was stored since the start or the last clean-up.\<close>

theorem file_storage_history:
  "case storage_run fs_store fs_Remove fs_CleanUp ops fs_make of
     None \<Rightarrow> fs_throws False ops
   | Some s' \<Rightarrow> \<not> fs_throws False ops \<and> fs_Load s' q = expected ops q \<and>
       (c \<in> set (fs_Enumerate s' i) \<longleftrightarrow> (\<exists>v d. expected ops \<lparr>dq_id = i, dq_class = c, dq_version = v\<rparr> = kLoaded d))"
proof (cases "storage_run fs_store fs_Remove fs_CleanUp ops fs_make")
  case None
  then show ?thesis using fs_run_throws [of ops fs_make] by (simp add: fs_make_def)
next
  case (Some s')
  have "fs_good fs_make" "\<forall>q. fs_Load fs_make q = kEmpty" by (simp_all add: fs_good_def fs_make_def fs_Load_def)
  then show ?thesis
    using fs.run_enumerates [OF Some] fs_run_throws [of ops fs_make] Some by (simp add: fs_make_def)
qed

text \<open>(C30) The storage on flash finds what the sequence of operations says when its files open and the checksum tells the stored data apart and is
  never zero on them.\<close>

theorem flash_storage_history:
  assumes "crc_separates crc ok" and "\<forall>q d. OpStore q d \<in> set ops \<longrightarrow> ok d"
  shows "\<exists>s'. storage_run (sp_store (\<lambda>_. True) crc) (\<lambda>s i. Some (sp_Remove (\<lambda>_. True) s i)) (sp_CleanUp (\<lambda>_. True)) ops (sp_make [] None) =
       Some s' \<and> sp_Load s' q = expected ops q \<and>
     (c \<in> set (sp_Enumerate s' i) \<longleftrightarrow> (\<exists>v d. expected ops \<lparr>dq_id = i, dq_class = c, dq_version = v\<rparr> = kLoaded d))"
proof -
  note sp = sp_domain_storage [OF assms(1)]
  have good: "sp_good crc ok (sp_make [] None)" by (simp add: sp_good_def sp_make_def sp_InitState_def)
  have empty: "\<forall>q. sp_Load (sp_make [] None) q = kEmpty" by (simp add: sp_Load_def sp_make_def sp_InitState_def)
  obtain s' where s': "storage_run (sp_store opens crc) (\<lambda>s i. Some (sp_Remove opens s i)) (sp_CleanUp opens) ops (sp_make [] None) = Some s'"
    using domain_storage.run_total [OF sp _ _ good assms(2)] by (auto simp: sp_store_def)
  then show ?thesis using domain_storage.run_enumerates [OF sp s' good empty assms(2)] by simp
qed

theorem flash_storage_history_witness:
  "\<exists>s'. storage_run (sp_store (\<lambda>_. True) (\<lambda>d. Suc (length d))) (\<lambda>s i. Some (sp_Remove (\<lambda>_. True) s i)) (sp_CleanUp (\<lambda>_. True))
       [OpStore \<lparr>dq_id = 7, dq_class = 1, dq_version = 0\<rparr> [5], OpRemove 8] (sp_make [] None) = Some s' \<and>
     sp_Load s' \<lparr>dq_id = 7, dq_class = 1, dq_version = 0\<rparr> = kLoaded [5] \<and> 1 \<in> set (sp_Enumerate s' 7)"
proof -
  have "crc_separates (\<lambda>d. Suc (length d)) (\<lambda>d. d = [5])" by (simp add: crc_separates_def)
  from flash_storage_history [OF this, of "[OpStore \<lparr>dq_id = 7, dq_class = 1, dq_version = 0\<rparr> [5], OpRemove 8]"
      "\<lparr>dq_id = 7, dq_class = 1, dq_version = 0\<rparr>" 1 7]
  show ?thesis by (auto simp: expected_def)
qed



text \<open>(C32) A storage in memory in front of constant tables: a query finds what the operations say, and what the tables say where the
  operations say nothing.  An object that was removed is not loaded from the tables, but its classes are still enumerated from them.\<close>

theorem sync_storage_layers:
  assumes "storage_run ram_store (\<lambda>s i. Some (ram_Remove s i)) ram_CleanUp ops ram_make = Some s"
  shows "sync_Load (static_Load tables) (\<lambda>q. snd (ram_Load s q)) q =
      (if expected ops q = kEmpty then static_Load tables q else expected ops q) \<and>
    sync_Load (static_Load tables) (\<lambda>q. snd (ram_Load (sync_Remove ram_Remove s (dq_id q)) q)) q = kRemoved \<and>
    sync_Enumerate (static_Enumerate tables) (ram_Enumerate (sync_Remove ram_Remove s i)) i = static_Enumerate tables i"
proof -
  have "ram_good ram_make" "\<forall>q. snd (ram_Load ram_make q) = kEmpty" by (simp_all add: ram_good_def ram_make_def ram_load)
  then have "snd (ram_Load s q) = expected ops q" using ram.run_enumerates [OF assms] by simp
  then show ?thesis by (simp add: sync_Load_def sync_Remove_def sync_Enumerate_def ram_load ram_Remove_def ram_Enumerate_def)
qed

theorem sync_storage_layers_witness:
  "sync_Load (static_Load \<lparr>sd_object_map = [(7, [1])], sd_state_map = [((7, 1, 0), [9])]\<rparr>) (\<lambda>q. snd (ram_Load ram_make q))
     \<lparr>dq_id = 7, dq_class = 1, dq_version = 0\<rparr> = kLoaded [9]"
  using sync_storage_layers [of "[]" ram_make "\<lparr>sd_object_map = [(7, [1])], sd_state_map = [((7, 1, 0), [9])]\<rparr>"
    "\<lparr>dq_id = 7, dq_class = 1, dq_version = 0\<rparr>"]
  by (simp add: expected_def static_Load_def static_find_def)



end
