(* ===== verification/Object_Registry.thy ===== *)
theory Object_Registry
  imports Domain_Storage
begin

text \<open>
  \<^verbatim>\<open>aether/obj/registry.cpp\<close>, \<^verbatim>\<open>domain.h\<close>, \<^verbatim>\<open>domain.cpp\<close> and \<^verbatim>\<open>version_iterator.h\<close>: the registry of classes with their bases, the
  choice of the class that a stored object is made as, and the objects of a domain.

  The hash maps are lists of entries in the order of iteration, which the theorems do not depend on.  A factory is a value of the type \<open>'f\<close>, its
  functions are the parameters \<open>create\<close>, \<open>load\<close> and \<open>save\<close>; \<open>obj_class\<close> is the checksum of the name \<^verbatim>\<open>Obj\<close>; \<open>alive\<close> says of an object whether
  its weak pointer can be locked.  What recurses forever or fails an assertion is \<open>None\<close>.
\<close>

record 'f registry =
  rg_relations :: "(nat \<times> nat list) list"
  rg_factories :: "(nat \<times> 'f) list"

definition IsExisting :: "'f registry \<Rightarrow> nat \<Rightarrow> bool" where
  "IsExisting reg class_id \<longleftrightarrow> map_of (rg_factories reg) class_id \<noteq> None"

definition RegisterClass :: "bool \<Rightarrow> nat \<Rightarrow> 'f registry \<Rightarrow> nat \<Rightarrow> nat \<Rightarrow> 'f \<Rightarrow> 'f registry option" where
  "RegisterClass debug obj_class reg cls_id base_id factory =
     (if debug \<and> IsExisting reg cls_id then None
      else Some (reg\<lparr>rg_factories := (if IsExisting reg cls_id then rg_factories reg else rg_factories reg @ [(cls_id, factory)]),
                    rg_relations := (if base_id \<noteq> obj_class
                       then AList.update base_id (sm_get [] (rg_relations reg) base_id @ [cls_id]) (rg_relations reg)
                       else rg_relations reg)\<rparr>))"

text \<open>The loop over the classes derived from a class, and the recursion into each of them.\<close>

partial_function (option) distance_loop :: "'f registry \<Rightarrow> nat list \<Rightarrow> nat \<Rightarrow> int option" where
  "distance_loop reg cs derived_id =
     (case cs of
        [] \<Rightarrow> Some (- 1)
      | c # rest \<Rightarrow>
          if derived_id = c then Some 1
          else Option.bind
                 (case map_of (rg_relations reg) c of None \<Rightarrow> Some (- 1) | Some ds \<Rightarrow> distance_loop reg ds derived_id)
                 (\<lambda>distance. if distance \<ge> 0 then Some (distance + 1) else distance_loop reg rest derived_id))"

definition GenerationDistanceInternal :: "'f registry \<Rightarrow> nat \<Rightarrow> nat \<Rightarrow> int option" where
  "GenerationDistanceInternal reg base_id derived_id =
     (case map_of (rg_relations reg) base_id of None \<Rightarrow> Some (- 1) | Some ds \<Rightarrow> distance_loop reg ds derived_id)"

definition GenerationDistance :: "'f registry \<Rightarrow> nat \<Rightarrow> nat \<Rightarrow> int option" where
  "GenerationDistance reg base_id derived_id =
     (if \<not> IsExisting reg base_id \<or> \<not> IsExisting reg derived_id then Some (- 1)
      else if base_id = derived_id then Some 0
      else GenerationDistanceInternal reg base_id derived_id)"

definition FindFactory :: "'f registry \<Rightarrow> nat \<Rightarrow> 'f option" where
  "FindFactory reg base_id = map_of (rg_factories reg) base_id"

definition IsLast :: "'f registry \<Rightarrow> nat \<Rightarrow> bool" where
  "IsLast reg class_id \<longleftrightarrow> map_of (rg_relations reg) class_id = None"

text \<open>The comparison that the classes of an object are sorted with, from base to derived, and the sort.\<close>

definition class_before :: "'f registry \<Rightarrow> nat \<Rightarrow> nat \<Rightarrow> bool option" where
  "class_before reg left right =
     Option.bind (GenerationDistance reg right left)
       (\<lambda>d. if d > 0 then Some False
            else Option.bind (GenerationDistance reg left right) (\<lambda>d. if d \<ge> 0 then Some True else None))"

fun insert_class :: "'f registry \<Rightarrow> nat \<Rightarrow> nat list \<Rightarrow> nat list option" where
  "insert_class reg c [] = Some [c]"
| "insert_class reg c (x # xs) =
     Option.bind (class_before reg c x)
       (\<lambda>b. if b then Some (c # x # xs) else map_option (\<lambda>ys. x # ys) (insert_class reg c xs))"

fun sort_classes :: "'f registry \<Rightarrow> nat list \<Rightarrow> nat list option" where
  "sort_classes reg [] = Some []"
| "sort_classes reg (c # cs) = Option.bind (sort_classes reg cs) (insert_class reg c)"

fun final_class_loop :: "'f registry \<Rightarrow> nat \<Rightarrow> (nat \<times> 'f) list \<Rightarrow> (nat \<times> 'f) option option" where
  "final_class_loop reg derived [] = Some None"
| "final_class_loop reg derived (f # fs) =
     (if IsLast reg (fst f)
      then Option.bind (GenerationDistance reg derived (fst f))
             (\<lambda>distance. if distance \<ge> 0 then Some (Some f) else final_class_loop reg derived fs)
      else final_class_loop reg derived fs)"

definition GetMostRelatedFactory :: "'f registry \<Rightarrow> nat list \<Rightarrow> (nat \<times> 'f) option option" where
  "GetMostRelatedFactory reg enumerated =
     (let classes = filter (IsExisting reg) enumerated
      in if classes = [] then Some None
         else Option.bind (sort_classes reg classes) (\<lambda>cs. final_class_loop reg (last cs) (rg_factories reg)))"


subsection \<open>The objects of a domain\<close>

type_synonym 'o id_objects = "(nat \<times> 'o) list"

definition dm_Find :: "('o \<Rightarrow> bool) \<Rightarrow> 'o id_objects \<Rightarrow> nat \<Rightarrow> 'o option" where
  "dm_Find alive objs obj_id =
     (case map_of objs obj_id of None \<Rightarrow> None | Some obj \<Rightarrow> if alive obj then Some obj else None)"

definition dm_AddObject :: "'o id_objects \<Rightarrow> nat \<Rightarrow> 'o \<Rightarrow> 'o id_objects" where
  "dm_AddObject objs obj_id obj = sm_set obj_id obj objs"

definition dm_RemoveObject :: "'o id_objects \<Rightarrow> nat \<Rightarrow> 'o id_objects" where
  "dm_RemoveObject objs obj_id = AList.delete obj_id objs"

definition dm_ConstructObj :: "('f \<Rightarrow> nat \<Rightarrow> 'o) \<Rightarrow> 'o id_objects \<Rightarrow> 'f \<Rightarrow> nat \<Rightarrow> 'o id_objects \<times> 'o" where
  "dm_ConstructObj create objs factory obj_id = (let obj = create factory obj_id in (dm_AddObject objs obj_id obj, obj))"

text \<open>\<^verbatim>\<open>LoadRootImpl\<close> and \<^verbatim>\<open>LoadCopyImpl\<close>; the second asserts that there is a factory.\<close>

definition LoadRootImpl ::
  "('o \<Rightarrow> bool) \<Rightarrow> ('f \<Rightarrow> nat \<Rightarrow> 'o) \<Rightarrow> ('f \<Rightarrow> 'o id_objects \<Rightarrow> 'o \<Rightarrow> nat \<Rightarrow> 'o id_objects) \<Rightarrow> 'f registry \<Rightarrow> (nat \<Rightarrow> nat list) \<Rightarrow>
   'o id_objects \<Rightarrow> nat \<Rightarrow> ('o id_objects \<times> 'o option) option" where
  "LoadRootImpl alive create load reg enum_classes objs obj_id =
     (if obj_id = 0 then Some (objs, None)
      else case dm_Find alive objs obj_id of
             Some obj \<Rightarrow> Some (objs, Some obj)
           | None \<Rightarrow>
               Option.bind (GetMostRelatedFactory reg (enum_classes obj_id))
                 (\<lambda>factory. case factory of
                    None \<Rightarrow> Some (objs, None)
                  | Some (_, f) \<Rightarrow>
                      (case dm_ConstructObj create objs f obj_id of
                         (objs1, ptr) \<Rightarrow> Some (load f objs1 ptr obj_id, Some ptr))))"

definition LoadCopyImpl ::
  "('o \<Rightarrow> bool) \<Rightarrow> ('f \<Rightarrow> nat \<Rightarrow> 'o) \<Rightarrow> ('f \<Rightarrow> 'o id_objects \<Rightarrow> 'o \<Rightarrow> nat \<Rightarrow> 'o id_objects) \<Rightarrow> 'f registry \<Rightarrow> (nat \<Rightarrow> nat list) \<Rightarrow>
   'o id_objects \<Rightarrow> nat \<Rightarrow> nat \<Rightarrow> ('o id_objects \<times> 'o option) option" where
  "LoadCopyImpl alive create load reg enum_classes objs ref_id copy_id =
     (if ref_id = 0 \<or> copy_id = 0 then Some (objs, None)
      else case dm_Find alive objs copy_id of
             Some obj \<Rightarrow> Some (objs, Some obj)
           | None \<Rightarrow>
               Option.bind (GetMostRelatedFactory reg (enum_classes ref_id))
                 (\<lambda>factory. case factory of
                    None \<Rightarrow> None
                  | Some (_, f) \<Rightarrow>
                      (case dm_ConstructObj create objs f copy_id of
                         (objs1, ptr) \<Rightarrow> Some (load f objs1 ptr ref_id, Some ptr))))"

definition SaveRootImpl :: "('f \<Rightarrow> 's \<Rightarrow> 'o \<Rightarrow> nat \<Rightarrow> 's) \<Rightarrow> ('o \<Rightarrow> nat) \<Rightarrow> 'f registry \<Rightarrow> 's \<Rightarrow> 'o option \<Rightarrow> nat \<Rightarrow> 's" where
  "SaveRootImpl save class_of reg storage ptr obj_id =
     (case ptr of
        None \<Rightarrow> storage
      | Some obj \<Rightarrow> (case FindFactory reg (class_of obj) of None \<Rightarrow> storage | Some f \<Rightarrow> save f storage obj obj_id))"

text \<open>The nodes a graph has visited, and the reader of a query: an empty one when there is nothing to load.\<close>

definition cycle_Add :: "(nat \<times> nat) set \<Rightarrow> nat \<Rightarrow> nat \<Rightarrow> (nat \<times> nat) set \<times> bool" where
  "cycle_Add visited class_id obj_id = (insert (obj_id, class_id) visited, (obj_id, class_id) \<notin> visited)"

datatype domain_reader = EmptyReader | DataReader "byte list"

definition GetReader :: "(DomainQuery \<Rightarrow> DomainLoad) \<Rightarrow> DomainQuery \<Rightarrow> domain_reader" where
  "GetReader load query = (case load query of kLoaded data \<Rightarrow> DataReader data | _ \<Rightarrow> EmptyReader)"


subsection \<open>Versions\<close>

text \<open>\<^verbatim>\<open>VersionBounds\<close> over the table of the versions that a class supports, and the versions that are visited; \<open>rng\<close> is the sequence from one
  number to another, up or down.\<close>

function skip_until :: "bool \<Rightarrow> bool list \<Rightarrow> nat \<Rightarrow> nat" where
  "skip_until b arr i = (if i < length arr \<and> arr ! i \<noteq> b then skip_until b arr (Suc i) else i)"

  by pat_completeness auto
termination
  by (relation "measure (\<lambda>(b, arr, i). length arr - i)") auto

declare skip_until.simps [simp del]

definition CalcVersionBounds :: "bool list \<Rightarrow> nat \<times> nat" where
  "CalcVersionBounds arr =
     (let i = skip_until True arr 0; j = skip_until False arr i in (u8 i, u8 (sz_sub j 1)))"

definition HasAnyVersioned :: "(nat \<Rightarrow> nat \<Rightarrow> nat list) \<Rightarrow> bool list \<Rightarrow> bool" where
  "HasAnyVersioned rng arr =
     (case CalcVersionBounds arr of (lo, hi) \<Rightarrow> list_ex (\<lambda>v. v < length arr \<and> arr ! v) (rng lo hi))"

definition IterateVersions :: "(nat \<Rightarrow> nat \<Rightarrow> nat list) \<Rightarrow> bool list \<Rightarrow> nat \<Rightarrow> nat \<Rightarrow> nat list" where
  "IterateVersions rng arr lo hi = filter (\<lambda>v. v < length arr \<and> arr ! v) (rng lo hi)"

text \<open>The versions that \<^verbatim>\<open>DomainGraph::Load\<close> and \<^verbatim>\<open>Save\<close> visit; a class without versioned functions has its current version.\<close>

definition graph_Load_versions :: "(nat \<Rightarrow> nat \<Rightarrow> nat list) \<Rightarrow> nat \<Rightarrow> bool list \<Rightarrow> nat list" where
  "graph_Load_versions rng current arr =
     (if HasAnyVersioned rng arr
      then (case CalcVersionBounds arr of (lo, hi) \<Rightarrow> IterateVersions rng arr lo hi) else [current])"

definition graph_Save_versions :: "(nat \<Rightarrow> nat \<Rightarrow> nat list) \<Rightarrow> nat \<Rightarrow> bool list \<Rightarrow> nat list" where
  "graph_Save_versions rng current arr =
     (if HasAnyVersioned rng arr
      then (case CalcVersionBounds arr of (lo, hi) \<Rightarrow> IterateVersions rng arr hi lo) else [current])"


subsection \<open>Distances\<close>

text \<open>The relation between a class and the classes derived from it.  It is ranked when a number grows from base to derived up to some bound,
  which an inheritance without cycles has.\<close>

definition child :: "'f registry \<Rightarrow> (nat \<times> nat) set" where
  "child reg = {(b, c). \<exists>cs. map_of (rg_relations reg) b = Some cs \<and> c \<in> set cs}"

definition ranked :: "'f registry \<Rightarrow> (nat \<Rightarrow> nat) \<Rightarrow> nat \<Rightarrow> bool" where
  "ranked reg rank N \<longleftrightarrow> (\<forall>(b, cs) \<in> set (rg_relations reg). \<forall>c \<in> set cs. rank b < rank c \<and> rank c \<le> N)"

lemma ranked_child: "ranked reg rank N \<Longrightarrow> (b, c) \<in> child reg \<Longrightarrow> rank b < rank c \<and> rank c \<le> N"
  by (auto simp: ranked_def child_def dest: map_of_SomeD)

lemma distance_loop_Nil: "distance_loop reg [] d = Some (- 1)"
  by (simp add: distance_loop.simps)

lemma distance_loop_Cons:
  "distance_loop reg (c # rest) d =
     (if d = c then Some 1
      else Option.bind (GenerationDistanceInternal reg c d)
             (\<lambda>distance. if distance \<ge> 0 then Some (distance + 1) else distance_loop reg rest d))"
  by (subst distance_loop.simps) (simp add: GenerationDistanceInternal_def)

text \<open>A distance and the paths it stands for.\<close>

definition path_distance :: "'f registry \<Rightarrow> nat set \<Rightarrow> nat \<Rightarrow> int \<Rightarrow> bool" where
  "path_distance reg B d x \<longleftrightarrow>
     x = - 1 \<and> (\<forall>b \<in> B. (b, d) \<notin> (child reg)\<^sup>*) \<or> (\<exists>b \<in> B. \<exists>n. (b, d) \<in> child reg ^^ n \<and> x = int n + 1)"

lemma internal_distance:
  assumes "\<And>cs. map_of (rg_relations reg) b = Some cs \<Longrightarrow> \<exists>x. distance_loop reg cs d = Some x \<and> path_distance reg (set cs) d x"
    and "b \<noteq> d"
  shows "\<exists>x. GenerationDistanceInternal reg b d = Some x \<and>
    (x = - 1 \<and> (b, d) \<notin> (child reg)\<^sup>* \<or> (\<exists>n. (b, d) \<in> child reg ^^ Suc n \<and> x = int n + 1))"
proof (cases "map_of (rg_relations reg) b")
  case None
  then have "(b, c) \<notin> child reg" for c by (simp add: child_def)
  with assms(2) have "(b, d) \<notin> (child reg)\<^sup>*" by (meson converse_rtranclE)
  with None show ?thesis by (simp add: GenerationDistanceInternal_def)
next
  case (Some cs)
  have ch: "(b, c) \<in> child reg \<longleftrightarrow> c \<in> set cs" for c using Some by (simp add: child_def)
  obtain x where x: "distance_loop reg cs d = Some x" "path_distance reg (set cs) d x" using assms(1) [OF Some] by blast
  have "x = - 1 \<and> (b, d) \<notin> (child reg)\<^sup>* \<or> (\<exists>n. (b, d) \<in> child reg ^^ Suc n \<and> x = int n + 1)"
    using x(2) unfolding path_distance_def
  proof
    assume *: "x = - 1 \<and> (\<forall>c \<in> set cs. (c, d) \<notin> (child reg)\<^sup>*)"
    have "(b, d) \<notin> (child reg)\<^sup>*" using assms(2) * ch by (meson converse_rtranclE)
    with * show ?thesis by simp
  next
    assume "\<exists>c \<in> set cs. \<exists>n. (c, d) \<in> child reg ^^ n \<and> x = int n + 1"
    then show ?thesis using ch by (meson relpow_Suc_I2)
  qed
  then show ?thesis using x(1) Some by (simp add: GenerationDistanceInternal_def)
qed

lemma distance_loop_paths:
  assumes "ranked reg rank N" and "\<forall>c \<in> set cs. rank c \<le> N \<and> N < rank c + k"
  shows "\<exists>x. distance_loop reg cs d = Some x \<and> path_distance reg (set cs) d x"
  using assms(2)
proof (induction k arbitrary: cs d)
  case 0
  then show ?case by (cases cs) (auto simp: distance_loop_Nil path_distance_def)
next
  case (Suc k)
  show ?case using Suc.prems
  proof (induction cs)
    case Nil
    then show ?case by (simp add: distance_loop_Nil path_distance_def)
  next
    case (Cons c cs)
    then obtain y where y: "distance_loop reg cs d = Some y" "path_distance reg (set cs) d y" by auto
    show ?case
    proof (cases "d = c")
      case True
      then show ?thesis by (auto simp: distance_loop_Cons path_distance_def intro!: exI [of _ 0])
    next
      case False
      have "\<exists>x. distance_loop reg ds d = Some x \<and> path_distance reg (set ds) d x"
        if ds: "map_of (rg_relations reg) c = Some ds" for ds
      proof (rule Suc.IH)
        show "\<forall>e \<in> set ds. rank e \<le> N \<and> N < rank e + k"
          using ranked_child [OF assms(1), of c] ds Cons.prems by (fastforce simp: child_def)
      qed
      then obtain x where x: "GenerationDistanceInternal reg c d = Some x"
        "x = - 1 \<and> (c, d) \<notin> (child reg)\<^sup>* \<or> (\<exists>n. (c, d) \<in> child reg ^^ Suc n \<and> x = int n + 1)"
        using internal_distance [of reg c d] False by blast
      then show ?thesis
        using y False by (auto simp: distance_loop_Cons path_distance_def simp del: relpow.simps)
    qed
  qed
qed

lemma rank_path:
  assumes "ranked reg rank N" and "(b, d) \<in> (child reg)\<^sup>+"
  shows "rank b < rank d"
  using assms(2) by (induction rule: trancl_induct) (use ranked_child [OF assms(1)] in fastforce)+

lemma rank_antisym: "ranked reg rank N \<Longrightarrow> (b, d) \<in> (child reg)\<^sup>+ \<Longrightarrow> (d, b) \<notin> (child reg)\<^sup>*"
  by (meson less_irrefl rank_path trancl_rtrancl_trancl)

lemma internal_paths:
  assumes "ranked reg rank N" and "b \<noteq> d"
  shows "\<exists>x. GenerationDistanceInternal reg b d = Some x \<and>
    (x = - 1 \<and> (b, d) \<notin> (child reg)\<^sup>* \<or> (\<exists>n. (b, d) \<in> child reg ^^ Suc n \<and> x = int n + 1))"
proof (rule internal_distance [OF _ assms(2)])
  fix cs
  assume "map_of (rg_relations reg) b = Some cs"
  then have "\<forall>c \<in> set cs. rank c \<le> N \<and> N < rank c + Suc N"
    using ranked_child [OF assms(1), of b] by (auto simp: child_def)
  then show "\<exists>x. distance_loop reg cs d = Some x \<and> path_distance reg (set cs) d x"
    by (rule distance_loop_paths [OF assms(1)])
qed

text \<open>The distance of two classes of the registry, and what its sign says.\<close>

lemma distance_paths:
  assumes "ranked reg rank N" and "IsExisting reg b" and "IsExisting reg d"
  shows "\<exists>x. GenerationDistance reg b d = Some x \<and>
    (x = - 1 \<and> (b, d) \<notin> (child reg)\<^sup>* \<or> (\<exists>n. (b, d) \<in> child reg ^^ n \<and> x = int n))"
proof (cases "b = d")
  case True
  then show ?thesis using assms(2) by (auto simp: GenerationDistance_def intro!: exI [of _ 0])
next
  case False
  then show ?thesis
    using internal_paths [OF assms(1) False] assms(2,3)
    by (auto simp: GenerationDistance_def simp del: relpow.simps intro!: exI [of _ "Suc n" for n])
qed

lemma distance_sign:
  assumes "ranked reg rank N" and "IsExisting reg b" and "IsExisting reg d"
  obtains x where "GenerationDistance reg b d = Some x" "x \<ge> 0 \<longleftrightarrow> (b, d) \<in> (child reg)\<^sup>*" "x > 0 \<longleftrightarrow> (b, d) \<in> (child reg)\<^sup>+"
proof -
  obtain x where x: "GenerationDistance reg b d = Some x"
    "x = - 1 \<and> (b, d) \<notin> (child reg)\<^sup>* \<or> (\<exists>n. (b, d) \<in> child reg ^^ n \<and> x = int n)"
    using distance_paths [OF assms] by blast
  have "x \<ge> 0 \<longleftrightarrow> (b, d) \<in> (child reg)\<^sup>*" using x(2) by (auto simp: rtrancl_power)
  moreover have "x > 0 \<longleftrightarrow> (b, d) \<in> (child reg)\<^sup>+"
    using x(2)
  proof
    assume "\<exists>n. (b, d) \<in> child reg ^^ n \<and> x = int n"
    then obtain n where n: "(b, d) \<in> child reg ^^ n" "x = int n" by blast
    show ?thesis
    proof (cases n)
      case 0
      then show ?thesis using n rank_antisym [OF assms(1), of b d] by auto
    next
      case (Suc m)
      then show ?thesis using n by (auto simp: trancl_power simp del: relpow.simps)
    qed
  qed (auto dest: trancl_into_rtrancl)
  ultimately show ?thesis using that x(1) by blast
qed


subsection \<open>The class an object is made as\<close>

definition derives :: "'f registry \<Rightarrow> nat \<Rightarrow> nat \<Rightarrow> bool" where
  "derives reg b d \<longleftrightarrow> (b, d) \<in> (child reg)\<^sup>*"

lemma class_before_derives:
  assumes "ranked reg rank N" and "IsExisting reg l" and "IsExisting reg r" and "derives reg l r \<or> derives reg r l"
  shows "class_before reg l r = Some (derives reg l r)"
proof -
  obtain x where x: "GenerationDistance reg r l = Some x" "x > 0 \<longleftrightarrow> (r, l) \<in> (child reg)\<^sup>+"
    using distance_sign [OF assms(1,3,2)] by blast
  obtain y where y: "GenerationDistance reg l r = Some y" "y \<ge> 0 \<longleftrightarrow> (l, r) \<in> (child reg)\<^sup>*"
    using distance_sign [OF assms(1-3)] by blast
  show ?thesis
  proof (cases "(r, l) \<in> (child reg)\<^sup>+")
    case True
    then show ?thesis using x rank_antisym [OF assms(1)] by (simp add: class_before_def derives_def)
  next
    case False
    then have "(l, r) \<in> (child reg)\<^sup>*" using assms(4) by (auto simp: derives_def rtrancl_eq_or_trancl)
    then show ?thesis using x y False by (simp add: class_before_def derives_def)
  qed
qed

lemma insert_class_sorted:
  assumes "ranked reg rank N" and "\<forall>x \<in> set (c # xs). IsExisting reg x" and "\<forall>x \<in> set xs. derives reg c x \<or> derives reg x c"
    and "sorted_wrt (derives reg) xs"
  shows "\<exists>ys. insert_class reg c xs = Some ys \<and> sorted_wrt (derives reg) ys \<and> set ys = insert c (set xs)"
  using assms(2-)
proof (induction xs)
  case (Cons x xs)
  then obtain ys where ys: "insert_class reg c xs = Some ys" "sorted_wrt (derives reg) ys" "set ys = insert c (set xs)" by auto
  have b: "class_before reg c x = Some (derives reg c x)"
    using Cons.prems by (intro class_before_derives [OF assms(1)]) auto
  show ?case
  proof (cases "derives reg c x")
    case True
    moreover have "\<forall>z \<in> set xs. derives reg c z" using True Cons.prems(3) by (auto simp: derives_def intro: rtrancl_trans)
    ultimately show ?thesis using b Cons.prems(3) by simp
  next
    case False
    then have "derives reg x c" using Cons.prems(2) by simp
    then show ?thesis using False b ys Cons.prems(3) by auto
  qed
qed simp

lemma sort_classes_sorted:
  assumes "ranked reg rank N" and "\<forall>x \<in> set xs. IsExisting reg x" and "\<forall>x \<in> set xs. \<forall>y \<in> set xs. derives reg x y \<or> derives reg y x"
  shows "\<exists>ys. sort_classes reg xs = Some ys \<and> sorted_wrt (derives reg) ys \<and> set ys = set xs"
  using assms(2-)
proof (induction xs)
  case (Cons c xs)
  then obtain ys where ys: "sort_classes reg xs = Some ys" "sorted_wrt (derives reg) ys" "set ys = set xs" by auto
  then show ?case using insert_class_sorted [OF assms(1), of c ys] Cons.prems by auto
qed simp

lemma sorted_last: "sorted_wrt (derives reg) xs \<Longrightarrow> x \<in> set xs \<Longrightarrow> derives reg x (last xs)"
  by (induction xs) (auto simp: derives_def)


text \<open>What a run of registrations builds: the derived classes are registered, and every class that has derived classes lists them.\<close>

definition registry_ok :: "'f registry \<Rightarrow> bool" where
  "registry_ok reg \<longleftrightarrow>
     list_all (\<lambda>(b, cs). cs \<noteq> [] \<and> list_all (IsExisting reg) cs) (rg_relations reg) \<and> distinct (map fst (rg_factories reg))"

lemma registry_ok_child: "registry_ok reg \<Longrightarrow> (b, c) \<in> child reg \<Longrightarrow> IsExisting reg c"
  by (fastforce simp: registry_ok_def child_def list_all_iff dest: map_of_SomeD)

lemma registry_ok_last:
  assumes "registry_ok reg"
  shows "IsLast reg b \<longleftrightarrow> (\<forall>c. (b, c) \<notin> child reg)"
proof (cases "map_of (rg_relations reg) b")
  case (Some cs)
  then have "(b, cs) \<in> set (rg_relations reg)" by (rule map_of_SomeD)
  then have "cs \<noteq> []" using assms by (auto simp: registry_ok_def list_all_iff)
  then show ?thesis using Some by (auto simp: IsLast_def child_def neq_Nil_conv)
qed (simp add: IsLast_def child_def)

lemma registry_ok_empty: "registry_ok \<lparr>rg_relations = [], rg_factories = []\<rparr>"
  by (simp add: registry_ok_def)

lemma set_update_subset: "set (AList.update k v al) \<subseteq> insert (k, v) (set al)"
  by (induction al) auto

lemma RegisterClass_ok:
  assumes "registry_ok reg" and "RegisterClass debug obj_class reg cls base f = Some reg'"
  shows "registry_ok reg'"
proof -
  have fac: "rg_factories reg' = (if IsExisting reg cls then rg_factories reg else rg_factories reg @ [(cls, f)])"
    and rel: "rg_relations reg' = rg_relations reg \<or>
      rg_relations reg' = AList.update base (sm_get [] (rg_relations reg) base @ [cls]) (rg_relations reg)"
    using assms(2) by (auto simp: RegisterClass_def split: if_splits)
  have ex: "IsExisting r c \<longleftrightarrow> c \<in> fst ` set (rg_factories r)" for r :: "'a registry" and c
    by (simp add: IsExisting_def map_of_eq_None_iff)
  have e: "IsExisting reg' c \<longleftrightarrow> c = cls \<or> IsExisting reg c" for c by (auto simp: ex fac)
  have d: "distinct (map fst (rg_factories reg'))" using assms(1) by (auto simp: registry_ok_def fac ex)
  have sub: "set (rg_relations reg') \<subseteq> insert (base, sm_get [] (rg_relations reg) base @ [cls]) (set (rg_relations reg))"
    using rel set_update_subset [of base "sm_get [] (rg_relations reg) base @ [cls]" "rg_relations reg"] by auto
  have old: "cs \<noteq> [] \<and> (\<forall>c \<in> set cs. IsExisting reg c)" if "(b, cs) \<in> set (rg_relations reg)" for b cs
    using assms(1) that by (auto simp: registry_ok_def list_all_iff)
  have derived: "\<forall>c \<in> set (sm_get [] (rg_relations reg) base). IsExisting reg c"
    using old [OF map_of_SomeD, of base] by (cases "map_of (rg_relations reg) base") (simp_all add: sm_get_def)
  have "cs \<noteq> [] \<and> (\<forall>c \<in> set cs. IsExisting reg' c)" if "(b, cs) \<in> set (rg_relations reg')" for b cs
  proof -
    have "(b, cs) = (base, sm_get [] (rg_relations reg) base @ [cls]) \<or> (b, cs) \<in> set (rg_relations reg)"
      using sub that by blast
    with derived show ?thesis using old [of b cs] e by auto
  qed
  then show ?thesis using d by (auto simp: registry_ok_def list_all_iff)
qed

text \<open>Below every class there is one that nothing is derived from.\<close>

lemma final_below:
  assumes "ranked reg rank N" and "registry_ok reg" and "IsExisting reg b"
  shows "\<exists>c. derives reg b c \<and> IsExisting reg c \<and> IsLast reg c"
  using assms(3)
proof (induction "N - rank b" arbitrary: b rule: less_induct)
  case less
  show ?case
  proof (cases "IsLast reg b")
    case True
    then show ?thesis using less.prems by (auto simp: derives_def)
  next
    case False
    then obtain c where c: "(b, c) \<in> child reg" using registry_ok_last [OF assms(2)] by blast
    then have "N - rank c < N - rank b" using ranked_child [OF assms(1) c] by (intro diff_less_mono2) auto
    then obtain d where "derives reg c d" "IsExisting reg d" "IsLast reg d"
      using less.hyps registry_ok_child [OF assms(2) c] by blast
    then show ?thesis using c by (auto simp: derives_def intro: converse_rtrancl_into_rtrancl)
  qed
qed

lemma final_class_loop_found:
  assumes "ranked reg rank N" and "IsExisting reg b" and "\<forall>f \<in> set fs. IsExisting reg (fst f)"
    and "\<exists>f \<in> set fs. IsLast reg (fst f) \<and> derives reg b (fst f)"
  shows "\<exists>f \<in> set fs. final_class_loop reg b fs = Some (Some f) \<and> IsLast reg (fst f) \<and> derives reg b (fst f)"
  using assms(3-)
proof (induction fs)
  case (Cons f fs)
  obtain x where "GenerationDistance reg b (fst f) = Some x" "x \<ge> 0 \<longleftrightarrow> derives reg b (fst f)"
    using distance_sign [OF assms(1,2), of "fst f"] Cons.prems(1) by (auto simp: derives_def)
  then show ?case using Cons by (cases "IsLast reg (fst f) \<and> derives reg b (fst f)") auto
qed simp


subsection \<open>Properties\<close>

text \<open>(C36) In an inheritance without cycles the distance of two registered classes is computed in finite time, and it is the length of a chain of
  derivations from the one to the other, or -1 when there is none.\<close>

theorem generation_distance:
  assumes "ranked reg rank N" and "IsExisting reg b" and "IsExisting reg d"
  shows "\<exists>x. GenerationDistance reg b d = Some x \<and>
    (x = - 1 \<and> (b, d) \<notin> (child reg)\<^sup>* \<or> (\<exists>n. (b, d) \<in> child reg ^^ n \<and> x = int n))"
  using assms by (rule distance_paths)

theorem generation_distance_witness:
  "GenerationDistance \<lparr>rg_relations = [(1, [2]), (2, [3])], rg_factories = [(1, ()), (2, ()), (3, ())]\<rparr> 3 1 = Some (- 1)"
proof -
  let ?reg = "\<lparr>rg_relations = [(1, [2]), (2, [3])], rg_factories = [(1, ()), (2, ()), (3, ())]\<rparr> :: unit registry"
  have r: "ranked ?reg (\<lambda>c. c) 3" by (simp add: ranked_def)
  have "(3, c) \<notin> child ?reg" for c by (simp add: child_def)
  then have "(3, 1) \<notin> (child ?reg)\<^sup>*" by (auto elim: converse_rtranclE)
  then have "(3, 1) \<notin> child ?reg ^^ n" for n by (auto dest: relpow_imp_rtrancl)
  then show ?thesis using generation_distance [OF r, of 3 1] by (simp add: IsExisting_def)
qed





text \<open>Loading an object twice gives the same object and leaves the domain as it is, when the object lives and its loading keeps it registered.\<close>

theorem load_root_once:
  assumes "LoadRootImpl alive create load reg enum_classes objs i = Some (objs1, Some obj)"
    and "\<forall>f. alive (create f i)" and "\<forall>f objs'. \<forall>p. map_of objs' i = Some p \<longrightarrow> map_of (load f objs' p i) i = Some p"
  shows "LoadRootImpl alive create load reg enum_classes objs1 i = Some (objs1, Some obj)"
proof -
  have i: "i \<noteq> 0" using assms(1) by (auto simp: LoadRootImpl_def split: if_splits)
  have "dm_Find alive objs1 i = Some obj"
  proof (cases "dm_Find alive objs i")
    case None
    then obtain c f where "objs1 = load f (dm_AddObject objs i (create f i)) (create f i) i" "obj = create f i"
      using assms(1) i by (auto simp: LoadRootImpl_def dm_ConstructObj_def Let_def bind_eq_Some_conv split: option.splits)
    then show ?thesis using assms(2,3) by (simp add: dm_Find_def dm_AddObject_def)
  next
    case (Some o')
    then show ?thesis using assms(1) i by (simp add: LoadRootImpl_def)
  qed
  then show ?thesis using i by (simp add: LoadRootImpl_def)
qed

theorem load_root_once_witness:
  "LoadRootImpl (\<lambda>_. True) (\<lambda>f i. (f, i)) (\<lambda>_ objs _ _. objs) \<lparr>rg_relations = [], rg_factories = [(1, ())]\<rparr> (\<lambda>_. [1]) [(7, ((), 7))] 7 =
     Some ([(7, ((), 7))], Some ((), 7))"
  using load_root_once [of "\<lambda>_. True" "\<lambda>f i. (f, i)" "\<lambda>_ objs _ _. objs" "\<lparr>rg_relations = [], rg_factories = [(1, ())]\<rparr>" "\<lambda>_. [1]" "[]" 7
    "[(7, ((), 7))]" "((), 7)"]
  by (simp add: LoadRootImpl_def dm_Find_def GetMostRelatedFactory_def IsExisting_def IsLast_def GenerationDistance_def dm_ConstructObj_def
      dm_AddObject_def)

text \<open>What is asked of the sequence of numbers.\<close>

definition range_sequence :: "(nat \<Rightarrow> nat \<Rightarrow> nat list) \<Rightarrow> bool" where
  "range_sequence rng \<longleftrightarrow> (\<forall>a b. rng a b = (if a \<le> b then [a..<Suc b] else rev [b..<Suc a]))"

lemma skip_until_eq: "skip_until b arr i = i + length (takeWhile (\<lambda>x. x \<noteq> b) (drop i arr))"
proof (induction b arr i rule: skip_until.induct)
  case (1 b arr i)
  show ?case
  proof (cases "i < length arr")
    case True
    then show ?thesis using 1 by (subst skip_until.simps) (simp add: Cons_nth_drop_Suc [symmetric])
  qed (simp add: skip_until.simps)
qed



end
