(* ===== verification/Write_Queues.thy ===== *)
theory Write_Queues
  imports Aether_Prelude
begin

text \<open>
  \<^verbatim>\<open>aether/transport/packet_queue_manager.h\<close> and \<^verbatim>\<open>aether/write_action/buffer_write.h\<close>, \<^verbatim>\<open>buffer_write.cpp\<close>: the queue of packets of
  a transport, and the buffer that holds writes back until a gate accepts them.

  Both keep their entries in an \<^verbatim>\<open>etl::circular_buffer\<close>, which is not part of the repository: a queue is the list of its entries, oldest first, and
  the library's \<^verbatim>\<open>push\<close> and \<^verbatim>\<open>pop\<close> are the arguments \<open>push\<close> and \<open>pop\<close>; the predicates \<open>back_push\<close> and \<open>front_pop\<close> state what the library documents of
  them.  What a packet or the gate behind the buffer does is given by the functions of the argument record or argument.
\<close>

definition back_push :: "nat \<Rightarrow> ('a list \<Rightarrow> 'a \<Rightarrow> 'a list) \<Rightarrow> bool" where
  "back_push cap push \<longleftrightarrow> (\<forall>xs x. length xs < cap \<longrightarrow> push xs x = xs @ [x])"

definition front_pop :: "('a list \<Rightarrow> 'a list) \<Rightarrow> bool" where
  "front_pop pop \<longleftrightarrow> (\<forall>x xs. pop (x # xs) = xs)"


subsection \<open>Packets of a transport\<close>

text \<open>The virtual functions of \<^verbatim>\<open>PacketSendAction\<close>.\<close>

record 'p packet_action =
  pa_Send :: "'p \<Rightarrow> 'p"
  pa_is_done :: "'p \<Rightarrow> bool"
  pa_re_enqueue :: "'p \<Rightarrow> bool"
  pa_is_finished :: "'p \<Rightarrow> bool"

record 'p packet_queue =
  pq_queue :: "'p list"
  pq_index :: nat
  pq_enqueued :: bool

definition pq_make :: "'p packet_queue" where
  "pq_make = \<lparr>pq_queue = [], pq_index = 0, pq_enqueued = False\<rparr>"

definition pq_Enqueue :: "'p packet_queue \<Rightarrow> 'p packet_queue" where
  "pq_Enqueue s = (if \<not> pq_enqueued s then s\<lparr>pq_enqueued := True\<rparr> else s)"

text \<open>The place of the packet in the queue, or \<open>None\<close> for the null pointer.\<close>

definition pq_AddPacket :: "nat \<Rightarrow> ('p list \<Rightarrow> 'p \<Rightarrow> 'p list) \<Rightarrow> 'p packet_queue \<Rightarrow> 'p \<Rightarrow> 'p packet_queue \<times> nat option" where
  "pq_AddPacket cap push s p =
     (if length (pq_queue s) = cap then (s, None)
      else (let s1 = pq_Enqueue (s\<lparr>pq_queue := push (pq_queue s) p\<rparr>)
            in (s1, Some (length (pq_queue s1) - 1))))"

partial_function (option) pq_remove_finished :: "('p \<Rightarrow> bool) \<Rightarrow> ('p list \<Rightarrow> 'p list) \<Rightarrow> nat \<Rightarrow> 'p list \<Rightarrow> (nat \<times> 'p list) option" where
  "pq_remove_finished fin pop i queue =
     (if i < length queue
      then (if \<not> fin (queue ! i) then Some (i, queue) else pq_remove_finished fin pop (i + 1) (pop queue))
      else Some (i, queue))"

text \<open>The loop of sends: the queue, the index and whether the queue is to be visited again.\<close>

function pq_send_queued :: "'p packet_action \<Rightarrow> 'p list \<Rightarrow> nat \<Rightarrow> 'p list \<times> nat \<times> bool" where
  "pq_send_queued act queue index =
     (if index < length queue
      then (let current = queue ! index
            in if pa_is_done act current then pq_send_queued act queue (index + 1)
               else (let current' = pa_Send act current; queue' = queue[index := current']
                     in if pa_is_done act current' then pq_send_queued act queue' (index + 1)
                        else (queue', index, pa_re_enqueue act current')))
      else (queue, index, False))"
  by pat_completeness auto
termination
  by (relation "measure (\<lambda>(act, queue, index). length queue - index)") auto

declare pq_send_queued.simps [simp del]

definition pq_Send :: "'p packet_action \<Rightarrow> ('p list \<Rightarrow> 'p list) \<Rightarrow> 'p packet_queue \<Rightarrow> 'p packet_queue option" where
  "pq_Send act pop s =
     Option.bind (pq_remove_finished (pa_is_finished act) pop 0 (pq_queue s))
       (\<lambda>(i, queue).
          let index = (if pq_index s \<le> i then 0 else pq_index s - i)
          in case pq_send_queued act queue index of
               (queue', index', again) \<Rightarrow>
                 let s1 = s\<lparr>pq_queue := queue', pq_index := index'\<rparr>
                 in Some (if again then pq_Enqueue s1 else s1))"

text \<open>The task that \<^verbatim>\<open>Enqueue\<close> makes.\<close>

definition pq_run :: "'p packet_action \<Rightarrow> ('p list \<Rightarrow> 'p list) \<Rightarrow> 'p packet_queue \<Rightarrow> 'p packet_queue option" where
  "pq_run act pop s = pq_Send act pop (s\<lparr>pq_enqueued := False\<rparr>)"


subsection \<open>Writes held back\<close>

datatype wa_status = waSuccess | waFail | waStop

text \<open>An entry: the write it was handed on to, once it was, whether its action has finished, its data and whether they were handed on.\<close>

record 'd buffer_entry =
  be_wa :: "nat option"
  be_finished :: "wa_status option"
  be_data :: 'd
  be_sent :: bool

record 'd buffer_write =
  bw_buffer_on :: bool
  bw_buffer :: "'d buffer_entry list"

definition bw_make :: "'d buffer_write" where
  "bw_make = \<lparr>bw_buffer_on = True, bw_buffer = []\<rparr>"

definition bwa_SetStatus :: "'d buffer_entry \<Rightarrow> wa_status \<Rightarrow> 'd buffer_entry" where
  "bwa_SetStatus be status = be\<lparr>be_finished := Some status\<rparr>"

text \<open>\<^verbatim>\<open>Stop\<close> of a write that was handed on asks the write behind it, and else finishes at once.\<close>

definition bwa_Stop :: "'d buffer_entry \<Rightarrow> 'd buffer_entry \<times> nat option" where
  "bwa_Stop be = (case be_wa be of Some wa \<Rightarrow> (be, Some wa) | None \<Rightarrow> (bwa_SetStatus be waStop, None))"

definition bwa_Sent :: "'d buffer_entry \<Rightarrow> nat \<Rightarrow> 'd buffer_entry" where
  "bwa_Sent be wa = be\<lparr>be_wa := Some wa\<rparr>"

definition bwa_Drop :: "'d buffer_entry \<Rightarrow> 'd buffer_entry" where
  "bwa_Drop be = bwa_SetStatus (be\<lparr>be_wa := None\<rparr>) waFail"

text \<open>\<^verbatim>\<open>DrainBuffer\<close> visits the slots of the buffer in order while the front is popped behind it: \<open>j\<close> is the slot, \<open>k\<close> the number of pops.
  The gate answers a write with the write action, or none, and may switch buffering on.\<close>

function bw_drain_loop ::
  "('w \<Rightarrow> 'd \<Rightarrow> 'w \<times> nat option \<times> bool) \<Rightarrow> 'w \<Rightarrow> bool \<Rightarrow> 'd buffer_entry list \<Rightarrow> nat \<Rightarrow> nat \<Rightarrow> 'w \<times> bool \<times> 'd buffer_entry list \<times> nat \<times> nat" where
  "bw_drain_loop direct_write w on slots j k =
     (if j < length slots
      then (let be = slots ! j
            in if be_finished be \<noteq> None then bw_drain_loop direct_write w on slots (j + 1) (k + 1)
               else if be_sent be then bw_drain_loop direct_write w on slots (j + 1) k
               else if on then (w, on, slots, j, k)
               else (case direct_write w (be_data be) of
                       (w1, None, on1) \<Rightarrow> (w1, on1, slots, j, k)
                     | (w1, Some wa, on1) \<Rightarrow>
                         bw_drain_loop direct_write w1 on1 (slots[j := bwa_Sent (be\<lparr>be_sent := True\<rparr>) wa]) (j + 1) k))
      else (w, on, slots, j, k))"
  by pat_completeness auto
termination
  by (relation "measure (\<lambda>(f, w, on, slots, j, k). length slots - j)") auto

declare bw_drain_loop.simps [simp del]

definition bw_DrainBuffer ::
  "('d buffer_entry list \<Rightarrow> 'd buffer_entry list) \<Rightarrow> ('w \<Rightarrow> 'd \<Rightarrow> 'w \<times> nat option \<times> bool) \<Rightarrow> 'w \<Rightarrow> 'd buffer_write \<Rightarrow> 'w \<times> 'd buffer_write" where
  "bw_DrainBuffer pop direct_write w s =
     (case bw_drain_loop direct_write w (bw_buffer_on s) (bw_buffer s) 0 0 of
        (w', on, slots, _, k) \<Rightarrow> (w', \<lparr>bw_buffer_on = on, bw_buffer = (pop ^^ k) slots\<rparr>))"

definition bw_buffer_off ::
  "('d buffer_entry list \<Rightarrow> 'd buffer_entry list) \<Rightarrow> ('w \<Rightarrow> 'd \<Rightarrow> 'w \<times> nat option \<times> bool) \<Rightarrow> 'w \<Rightarrow> 'd buffer_write \<Rightarrow> 'w \<times> 'd buffer_write" where
  "bw_buffer_off pop direct_write w s = bw_DrainBuffer pop direct_write w (s\<lparr>bw_buffer_on := False\<rparr>)"

definition bw_set_buffer_on :: "'d buffer_write \<Rightarrow> 'd buffer_write" where
  "bw_set_buffer_on s = s\<lparr>bw_buffer_on := True\<rparr>"

datatype write_result = FailedWrite | Buffered | Direct nat

definition bw_WriteToBuffer :: "nat \<Rightarrow> ('d buffer_entry list \<Rightarrow> 'd buffer_entry \<Rightarrow> 'd buffer_entry list) \<Rightarrow> 'd buffer_write \<Rightarrow> 'd \<Rightarrow> 'd buffer_write \<times> write_result" where
  "bw_WriteToBuffer cap push s data =
     (if length (bw_buffer s) = cap then (s, FailedWrite)
      else (s\<lparr>bw_buffer := push (bw_buffer s) \<lparr>be_wa = None, be_finished = None, be_data = data, be_sent = False\<rparr>\<rparr>, Buffered))"

definition bw_DirectWrite :: "('w \<Rightarrow> 'd \<Rightarrow> 'w \<times> nat option \<times> bool) \<Rightarrow> 'w \<Rightarrow> 'd buffer_write \<Rightarrow> 'd \<Rightarrow> 'w \<times> 'd buffer_write \<times> write_result" where
  "bw_DirectWrite direct_write w s data =
     (case direct_write w data of
        (w1, None, on1) \<Rightarrow> (w1, s\<lparr>bw_buffer_on := on1\<rparr>, FailedWrite)
      | (w1, Some wa, on1) \<Rightarrow> (w1, s\<lparr>bw_buffer_on := on1\<rparr>, Direct wa))"

definition bw_Write ::
  "nat \<Rightarrow> ('d buffer_entry list \<Rightarrow> 'd buffer_entry \<Rightarrow> 'd buffer_entry list) \<Rightarrow> ('w \<Rightarrow> 'd \<Rightarrow> 'w \<times> nat option \<times> bool) \<Rightarrow> 'w \<Rightarrow>
   'd buffer_write \<Rightarrow> 'd \<Rightarrow> 'w \<times> 'd buffer_write \<times> write_result" where
  "bw_Write cap push direct_write w s data =
     (if bw_buffer_on s \<or> bw_buffer s \<noteq> []
      then (case bw_WriteToBuffer cap push s data of (s1, r) \<Rightarrow> (w, s1, r))
      else bw_DirectWrite direct_write w s data)"

text \<open>The status of a write behind an entry finishes the entry, which drains the buffer unless buffering is on.\<close>

definition bw_status ::
  "('d buffer_entry list \<Rightarrow> 'd buffer_entry list) \<Rightarrow> ('w \<Rightarrow> 'd \<Rightarrow> 'w \<times> nat option \<times> bool) \<Rightarrow> 'w \<Rightarrow> 'd buffer_write \<Rightarrow> nat \<Rightarrow> wa_status \<Rightarrow>
   'w \<times> 'd buffer_write" where
  "bw_status pop direct_write w s n status =
     (let s1 = s\<lparr>bw_buffer := (bw_buffer s)[n := bwa_SetStatus (bw_buffer s ! n) status]\<rparr>
      in if \<not> bw_buffer_on s then bw_DrainBuffer pop direct_write w s1 else (w, s1))"

definition bw_Stop ::
  "('d buffer_entry list \<Rightarrow> 'd buffer_entry list) \<Rightarrow> ('w \<Rightarrow> 'd \<Rightarrow> 'w \<times> nat option \<times> bool) \<Rightarrow> 'w \<Rightarrow> 'd buffer_write \<Rightarrow> nat \<Rightarrow>
   ('w \<times> 'd buffer_write) \<times> nat option" where
  "bw_Stop pop direct_write w s n =
     (case bwa_Stop (bw_buffer s ! n) of
        (_, Some wa) \<Rightarrow> ((w, s), Some wa)
      | (be, None) \<Rightarrow> (bw_status pop direct_write w s n waStop, None))"

text \<open>\<^verbatim>\<open>Drop\<close> finishes the entries one after the other, which drains the buffer from its front each time unless buffering is on; an entry that was
  popped in the meantime is gone, and to drop it is an error.\<close>

function bw_drop_loop ::
  "('w \<Rightarrow> 'd \<Rightarrow> 'w \<times> nat option \<times> bool) \<Rightarrow> 'w \<Rightarrow> bool \<Rightarrow> 'd buffer_entry list \<Rightarrow> nat \<Rightarrow> nat \<Rightarrow> nat \<Rightarrow> ('w \<times> bool \<times> 'd buffer_entry list) option" where
  "bw_drop_loop direct_write w on slots j k n =
     (if j < n
      then (if j < k then None
            else (let slots1 = slots[j := bwa_Drop (slots ! j)]
                  in if on then bw_drop_loop direct_write w on slots1 (j + 1) k n
                     else (case bw_drain_loop direct_write w on slots1 k k of
                             (w', on', slots', _, k') \<Rightarrow> bw_drop_loop direct_write w' on' slots' (j + 1) k' n)))
      else Some (w, on, slots))"
  by pat_completeness auto
termination
  by (relation "measure (\<lambda>(f, w, on, slots, j, k, n). n - j)") auto

declare bw_drop_loop.simps [simp del]

text \<open>The entries as they are dropped, and the empty buffer.\<close>

definition bw_Drop :: "('w \<Rightarrow> 'd \<Rightarrow> 'w \<times> nat option \<times> bool) \<Rightarrow> 'w \<Rightarrow> 'd buffer_write \<Rightarrow> ('w \<times> 'd buffer_write \<times> 'd buffer_entry list) option" where
  "bw_Drop direct_write w s =
     (case bw_drop_loop direct_write w (bw_buffer_on s) (bw_buffer s) 0 0 (length (bw_buffer s)) of
        None \<Rightarrow> None
      | Some (w', on, slots) \<Rightarrow> Some (w', \<lparr>bw_buffer_on = on, bw_buffer = []\<rparr>, slots))"


subsection \<open>The queue of packets\<close>

text \<open>Every second element, from the first on.\<close>

fun every_other :: "'a list \<Rightarrow> 'a list" where
  "every_other [] = []"
| "every_other [x] = [x]"
| "every_other (x # y # zs) = x # every_other zs"

lemma every_other_drop:
  assumes "2 * i < length q"
  shows "every_other (drop (2 * i) q) = q ! (2 * i) # every_other (drop (2 * Suc i) q)"
proof -
  have e: "drop (2 * i) q = q ! (2 * i) # drop (Suc (2 * i)) q" using assms by (simp add: Cons_nth_drop_Suc)
  have t: "drop (2 * Suc i) q = tl (drop (Suc (2 * i)) q)" by (simp add: tl_drop drop_Suc)
  show ?thesis unfolding e t by (cases "drop (Suc (2 * i)) q") simp_all
qed

lemma remove_finished_loop:
  assumes "front_pop pop"
  shows "2 * i \<le> Suc (length q) \<Longrightarrow>
    pq_remove_finished fin pop i (drop i q) =
      (let m = length (takeWhile fin (every_other (drop (2 * i) q))) in Some (i + m, drop (i + m) q))"
proof (induction "length q - 2 * i" arbitrary: i rule: less_induct)
  case less
  show ?case
  proof (cases "2 * i < length q")
    case True
    then have nth: "drop i q ! i = q ! (2 * i)" and len: "i < length (drop i q)" by (simp_all add: mult_2)
    have pop: "pop (drop i q) = drop (Suc i) q"
      using assms True by (simp add: front_pop_def Cons_nth_drop_Suc [symmetric])
    show ?thesis
    proof (cases "fin (q ! (2 * i))")
      case fin: True
      have "pq_remove_finished fin pop (Suc i) (drop (Suc i) q) =
          (let m = length (takeWhile fin (every_other (drop (2 * Suc i) q))) in Some (Suc i + m, drop (Suc i + m) q))"
        using True by (intro less.hyps) auto
      then show ?thesis
        using fin len nth pop every_other_drop [OF True] by (subst pq_remove_finished.simps) (simp add: Let_def)
    next
      case False
      then show ?thesis using len nth every_other_drop [OF True] by (subst pq_remove_finished.simps) simp
    qed
  next
    case False
    then have "\<not> i < length (drop i q)" by simp
    then show ?thesis using False by (subst pq_remove_finished.simps) simp
  qed
qed

lemma remove_finished_eq:
  assumes "front_pop pop"
  shows "pq_remove_finished fin pop 0 q =
    (let k = length (takeWhile fin (every_other q)) in Some (k, drop k q))"
  using remove_finished_loop [OF assms, of 0 q fin] by simp

text \<open>What the sends of one visit do to the packets.\<close>

definition sent_up_to :: "'p packet_action \<Rightarrow> 'p list \<Rightarrow> nat \<Rightarrow> 'p list \<times> nat \<times> bool \<Rightarrow> bool" where
  "sent_up_to act q i = (\<lambda>(q', i', again).
     i \<le> i' \<and> i' \<le> length q \<and> length q' = length q \<and>
     (\<forall>j < length q. q' ! j = (if i \<le> j \<and> j \<le> i' \<and> \<not> pa_is_done act (q ! j) then pa_Send act (q ! j) else q ! j)) \<and>
     (\<forall>j < i'. i \<le> j \<longrightarrow> pa_is_done act (q' ! j)) \<and>
     (if i' < length q then \<not> pa_is_done act (q' ! i') \<and> again = pa_re_enqueue act (q' ! i') else \<not> again))"

lemma sent_up_to_step:
  assumes "sent_up_to act p (Suc i) r" and "i < length q" and "length p = length q" and "\<And>j. j \<noteq> i \<Longrightarrow> p ! j = q ! j"
    and "p ! i = (if pa_is_done act (q ! i) then q ! i else pa_Send act (q ! i))" and "pa_is_done act (p ! i)"
  shows "sent_up_to act q i r"
proof -
  obtain q' i' again where r: "r = (q', i', again)" by (cases r) auto
  have s: "Suc i \<le> i'" "i' \<le> length q" "length q' = length q"
      "\<And>j. j < length q \<Longrightarrow> q' ! j = (if Suc i \<le> j \<and> j \<le> i' \<and> \<not> pa_is_done act (p ! j) then pa_Send act (p ! j) else p ! j)"
      "\<And>j. j < i' \<Longrightarrow> Suc i \<le> j \<Longrightarrow> pa_is_done act (q' ! j)"
      "if i' < length q then \<not> pa_is_done act (q' ! i') \<and> again = pa_re_enqueue act (q' ! i') else \<not> again"
    using assms(1) unfolding sent_up_to_def r prod.case assms(3) by blast+
  have i: "q' ! i = p ! i" using s(4) [of i] assms(2) by simp
  have "q' ! j = (if i \<le> j \<and> j \<le> i' \<and> \<not> pa_is_done act (q ! j) then pa_Send act (q ! j) else q ! j)" if "j < length q" for j
  proof (cases "j = i")
    case True
    then show ?thesis using i assms(5) s(1) by simp
  next
    case False
    then show ?thesis using s(4) [OF that] assms(4) [OF False] by auto
  qed
  moreover have "pa_is_done act (q' ! j)" if "j < i'" "i \<le> j" for j
    using that s(5) [of j] i assms(6) by (cases "j = i") auto
  ultimately show ?thesis using s(1-3,6) unfolding sent_up_to_def r by simp
qed

lemma send_queued_spec: "i \<le> length q \<Longrightarrow> sent_up_to act q i (pq_send_queued act q i)"
proof (induction act q i rule: pq_send_queued.induct)
  case (1 act q i)
  show ?case
  proof (cases "i < length q")
    case False
    then show ?thesis using 1(3) by (simp add: pq_send_queued.simps sent_up_to_def)
  next
    case True
    let ?q = "q[i := pa_Send act (q ! i)]"
    consider (skip) "pa_is_done act (q ! i)" | (pass) "\<not> pa_is_done act (q ! i)" "pa_is_done act (pa_Send act (q ! i))"
      | (stop) "\<not> pa_is_done act (q ! i)" "\<not> pa_is_done act (pa_Send act (q ! i))" by blast
    then show ?thesis
    proof cases
      case skip
      have "sent_up_to act q (Suc i) (pq_send_queued act q (Suc i))" using 1(1) True skip by simp
      then have "sent_up_to act q i (pq_send_queued act q (Suc i))"
        by (rule sent_up_to_step) (use True skip in simp_all)
      moreover have "pq_send_queued act q i = pq_send_queued act q (Suc i)"
        using skip True by (subst pq_send_queued.simps) simp
      ultimately show ?thesis by simp
    next
      case pass
      have "sent_up_to act ?q (Suc i) (pq_send_queued act ?q (Suc i))" using 1(2) True pass by simp
      then have "sent_up_to act q i (pq_send_queued act ?q (Suc i))"
        by (rule sent_up_to_step) (use True pass in simp_all)
      moreover have "pq_send_queued act q i = pq_send_queued act ?q (Suc i)"
        using pass True by (subst pq_send_queued.simps) simp
      ultimately show ?thesis by simp
    next
      case stop
      then have "pq_send_queued act q i = (?q, i, pa_re_enqueue act (pa_Send act (q ! i)))"
        using True by (subst pq_send_queued.simps) (simp add: Let_def)
      then show ?thesis using stop True by (auto simp: sent_up_to_def nth_list_update)
    qed
  qed
qed



subsection \<open>The buffer of writes\<close>

definition pending :: "'d buffer_entry \<Rightarrow> bool" where
  "pending be \<longleftrightarrow> be_finished be = None \<and> \<not> be_sent be"

text \<open>What draining from slot \<open>i\<close> to slot \<open>j\<close> does: the pops are the finished entries it visits, everything visited is finished or handed on, the
  rest is untouched, and the gate got the pending data in order, with at most one refused at the end.\<close>

definition drained ::
  "('w \<Rightarrow> 'd \<Rightarrow> 'w \<times> nat option \<times> bool) \<Rightarrow> 'w \<Rightarrow> 'd buffer_entry list \<Rightarrow> nat \<Rightarrow> nat \<Rightarrow> 'w \<times> bool \<times> 'd buffer_entry list \<times> nat \<times> nat \<Rightarrow> bool" where
  "drained direct_write w slots i k = (\<lambda>(w', on', slots', j, k').
     i \<le> j \<and> j \<le> length slots \<and>
     (\<exists>visited. slots' = take i slots @ visited @ drop j slots \<and> length visited = j - i \<and>
        list_all (\<lambda>be. \<not> pending be) visited \<and> map be_finished visited = map be_finished (take (j - i) (drop i slots))) \<and>
     k' = k + length (filter (\<lambda>be. be_finished be \<noteq> None) (take (j - i) (drop i slots))) \<and>
     (\<exists>refused. refused \<in> {[], map be_data (take 1 (drop j slots))} \<and>
        w' = foldl (\<lambda>w d. fst (direct_write w d)) w (map be_data (filter pending (take (j - i) (drop i slots))) @ refused)))"

lemma drained_stop: "i \<le> length slots \<Longrightarrow> drained direct_write w slots i k (w, on, slots, i, k)"
  by (auto simp: drained_def)

lemma take_drop_Suc: "i < length xs \<Longrightarrow> Suc i \<le> j \<Longrightarrow> take (j - i) (drop i xs) = xs ! i # take (j - Suc i) (drop (Suc i) xs)"
proof -
  assume *: "i < length xs" "Suc i \<le> j"
  then have "j - i = Suc (j - Suc i)" by simp
  with * show ?thesis by (simp add: Cons_nth_drop_Suc [symmetric])
qed

lemma take_update_Suc: "i < length xs \<Longrightarrow> take (Suc i) (xs[i := x]) = take i xs @ [x]"
  by (simp add: take_Suc_conv_app_nth)

lemma drained_step:
  assumes "drained direct_write wn (slots[i := be]) (Suc i) kn r" and "i < length slots"
    and "\<not> pending be" and "be_finished be = be_finished (slots ! i)"
    and "kn = (if be_finished (slots ! i) \<noteq> None then Suc k else k)"
    and "wn = (if pending (slots ! i) then fst (direct_write w (be_data (slots ! i))) else w)"
  shows "drained direct_write w slots i k r"
proof -
  obtain w' on' slots' j k' where r: "r = (w', on', slots', j, k')" by (cases r) auto
  have d: "drop m (slots[i := be]) = drop m slots" if "i < m" for m using that by simp
  have j: "Suc i \<le> j" "j \<le> length slots" using assms(1) unfolding drained_def r prod.case by simp_all
  then have "i < j" by simp
  obtain visited refused where
    v: "slots' = take (Suc i) (slots[i := be]) @ visited @ drop j slots" "length visited = j - Suc i"
      "list_all (\<lambda>be. \<not> pending be) visited" "map be_finished visited = map be_finished (take (j - Suc i) (drop (Suc i) slots))"
    and k': "k' = kn + length (filter (\<lambda>be. be_finished be \<noteq> None) (take (j - Suc i) (drop (Suc i) slots)))"
    and w': "refused \<in> {[], map be_data (take 1 (drop j slots))}"
      "w' = foldl (\<lambda>w d. fst (direct_write w d)) wn (map be_data (filter pending (take (j - Suc i) (drop (Suc i) slots))) @ refused)"
    using assms(1) unfolding drained_def r prod.case d [OF lessI] d [OF \<open>i < j\<close>] by blast
  note t = take_drop_Suc [OF assms(2) j(1)]
  have "slots' = take i slots @ (be # visited) @ drop j slots"
    using v(1) take_update_Suc [OF assms(2), of be] by simp
  moreover have "map be_finished (be # visited) = map be_finished (take (j - i) (drop i slots))"
    using v(4) assms(4) by (simp add: t)
  moreover have "length (be # visited) = j - i" using v(2) j(1) by simp
  moreover have "k' = k + length (filter (\<lambda>be. be_finished be \<noteq> None) (take (j - i) (drop i slots)))"
    using k' assms(5) by (simp add: t)
  moreover have "w' = foldl (\<lambda>w d. fst (direct_write w d)) w (map be_data (filter pending (take (j - i) (drop i slots))) @ refused)"
    using w'(2) assms(6) by (simp add: t)
  ultimately show ?thesis
    unfolding drained_def r prod.case using j v(3) w'(1) assms(3) by (intro conjI exI [of _ "be # visited"] exI [of _ refused]) simp_all
qed

lemma drain_loop_spec: "i \<le> length slots \<Longrightarrow> drained direct_write w slots i k (bw_drain_loop direct_write w on slots i k)"
proof (induction "length slots - i" arbitrary: w on slots i k rule: less_induct)
  case less
  show ?case
  proof (cases "i < length slots")
    case False
    then have "bw_drain_loop direct_write w on slots i k = (w, on, slots, i, k)" by (simp add: bw_drain_loop.simps)
    then show ?thesis using drained_stop [OF less.prems] by simp
  next
    case True
    let ?be = "slots ! i"
    have IH: "drained direct_write w1 slots1 (Suc i) k1 (bw_drain_loop direct_write w1 on1 slots1 (Suc i) k1)"
      if "length slots1 = length slots" for w1 on1 slots1 k1
      using less.hyps [of slots1 "Suc i"] True that by simp
    consider (fin) "be_finished ?be \<noteq> None" | (sent) "be_finished ?be = None" "be_sent ?be" | (on) "pending ?be" on
      | (refused) w1 on1 where "pending ?be" "\<not> on" "direct_write w (be_data ?be) = (w1, None, on1)"
      | (go) w1 wa on1 where "pending ?be" "\<not> on" "direct_write w (be_data ?be) = (w1, Some wa, on1)"
      unfolding pending_def by (metis not_None_eq prod.exhaust)
    then show ?thesis
    proof cases
      case fin
      then have e: "bw_drain_loop direct_write w on slots i k = bw_drain_loop direct_write w on slots (Suc i) (Suc k)"
        using True by (subst bw_drain_loop.simps) auto
      show ?thesis unfolding e
        by (rule drained_step [where be = ?be and kn = "Suc k" and wn = w]) (use IH [of slots] True fin in \<open>auto simp: pending_def\<close>)
    next
      case sent
      then have e: "bw_drain_loop direct_write w on slots i k = bw_drain_loop direct_write w on slots (Suc i) k"
        using True by (subst bw_drain_loop.simps) auto
      show ?thesis unfolding e
        by (rule drained_step [where be = ?be and kn = k and wn = w]) (use IH [of slots] True sent in \<open>auto simp: pending_def\<close>)
    next
      case on
      then have "bw_drain_loop direct_write w on slots i k = (w, on, slots, i, k)"
        using True by (subst bw_drain_loop.simps) (auto simp: pending_def Let_def)
      then show ?thesis using drained_stop [OF less.prems] by simp
    next
      case refused
      then have e: "bw_drain_loop direct_write w on slots i k = (w1, on1, slots, i, k)"
        using True by (subst bw_drain_loop.simps) (auto simp: pending_def Let_def)
      have "take 1 (drop i slots) = [?be]" using True by (simp add: Cons_nth_drop_Suc [symmetric])
      then show ?thesis unfolding e drained_def using refused True
        by (auto intro!: exI [of _ "[be_data ?be]"])
    next
      case go
      then have e: "bw_drain_loop direct_write w on slots i k =
          bw_drain_loop direct_write w1 on1 (slots[i := bwa_Sent (?be\<lparr>be_sent := True\<rparr>) wa]) (Suc i) k"
        using True by (subst bw_drain_loop.simps) (auto simp: pending_def Let_def)
      show ?thesis unfolding e
        by (rule drained_step [where be = "bwa_Sent (?be\<lparr>be_sent := True\<rparr>) wa" and kn = k and wn = w1])
          (use IH [of "slots[i := bwa_Sent (?be\<lparr>be_sent := True\<rparr>) wa]"] True go in \<open>auto simp: pending_def bwa_Sent_def\<close>)
    qed
  qed
qed

lemma funpow_pop: "front_pop pop \<Longrightarrow> k \<le> length xs \<Longrightarrow> (pop ^^ k) xs = drop k xs"
proof (induction k)
  case (Suc k)
  then show ?case by (simp add: Cons_nth_drop_Suc [symmetric] front_pop_def)
qed simp

lemma drop_loop_on:
  "k \<le> j \<Longrightarrow> j \<le> n \<Longrightarrow> n = length slots \<Longrightarrow>
   bw_drop_loop direct_write w True slots j k n = Some (w, True, take j slots @ map bwa_Drop (drop j slots))"
proof (induction "n - j" arbitrary: slots j)
  case 0
  then show ?case by (simp add: bw_drop_loop.simps)
next
  case (Suc x)
  then have "j < length slots" by simp
  then show ?case
    using Suc.hyps(1) [of "Suc j" "slots[j := bwa_Drop (slots ! j)]"] Suc.hyps(2) Suc.prems
    by (subst bw_drop_loop.simps) (simp add: Let_def take_update_Suc Cons_nth_drop_Suc [symmetric])
qed

text \<open>While buffering is on, dropping fails every entry and writes nothing.\<close>

lemma bw_Drop_buffering:
  "bw_buffer_on s \<Longrightarrow> bw_Drop direct_write w s = Some (w, s\<lparr>bw_buffer := []\<rparr>, map bwa_Drop (bw_buffer s))"
  using drop_loop_on [of 0 0 "length (bw_buffer s)" "bw_buffer s" direct_write w] by (cases s) (simp add: bw_Drop_def)


subsection \<open>Properties\<close>

text \<open>(C38) The removal of finished packets from the front of the queue looks at every second packet only: it pops as many packets as there are finished
  ones in an unbroken run at the even positions, so the packets between them are popped whether they are finished or not.\<close>

theorem packet_queue_removal:
  assumes "front_pop pop"
  shows "pq_remove_finished fin pop 0 queue =
    (let k = length (takeWhile fin (every_other queue)) in Some (k, drop k queue))"
  using assms by (rule remove_finished_eq)

theorem packet_queue_removal_witness:
  "pq_remove_finished (\<lambda>p. p) tl 0 [True, False, True, False] = Some (2, [True, False])"
proof -
  have "front_pop (tl :: bool list \<Rightarrow> bool list)" by (simp add: front_pop_def)
  from packet_queue_removal [OF this, of "\<lambda>p. p" "[True, False, True, False]"] show ?thesis by (simp add: Let_def)
qed

text \<open>(C39) A visit of the queue ends; behind the removal it sends the packets that are not done in order from the index on, each once, up to the first
  one that stays pending, where the index is left, and asks for another visit exactly when that packet wants it.\<close>

theorem packet_queue_visit:
  fixes act :: "'p packet_action" and s :: "'p packet_queue"
  assumes "front_pop pop" and "pq_index s \<le> length (pq_queue s)"
  defines "k \<equiv> length (takeWhile (pa_is_finished act) (every_other (pq_queue s)))"
  shows "\<exists>s' again. pq_Send act pop s = Some s' \<and> pq_enqueued s' = (pq_enqueued s \<or> again) \<and>
    sent_up_to act (drop k (pq_queue s)) (pq_index s - k) (pq_queue s', pq_index s', again)"
proof -
  obtain q' i' again where r: "pq_send_queued act (drop k (pq_queue s)) (pq_index s - k) = (q', i', again)"
    by (cases "pq_send_queued act (drop k (pq_queue s)) (pq_index s - k)") auto
  have "sent_up_to act (drop k (pq_queue s)) (pq_index s - k) (q', i', again)"
    using send_queued_spec [of "pq_index s - k" "drop k (pq_queue s)" act] assms(2) r by simp
  moreover have "(if pq_index s \<le> k then 0 else pq_index s - k) = pq_index s - k" by simp
  then have "pq_Send act pop s = Some (if again then pq_Enqueue (s\<lparr>pq_queue := q', pq_index := i'\<rparr>) else s\<lparr>pq_queue := q', pq_index := i'\<rparr>)"
    unfolding pq_Send_def remove_finished_eq [OF assms(1)] Let_def k_def [symmetric] by (simp add: r)
  ultimately show ?thesis by (auto simp: pq_Enqueue_def)
qed

theorem packet_queue_visit_witness:
  "\<exists>s' again. pq_Send \<lparr>pa_Send = (\<lambda>p. p - 1), pa_is_done = (\<lambda>p. p = 0), pa_re_enqueue = (\<lambda>p. True), pa_is_finished = (\<lambda>p. False)\<rparr> tl
     \<lparr>pq_queue = [1, 2, 1 :: nat], pq_index = 0, pq_enqueued = False\<rparr> = Some s' \<and> pq_index s' \<le> 3 \<and> length (pq_queue s') = 3"
proof -
  have "front_pop (tl :: nat list \<Rightarrow> nat list)" by (simp add: front_pop_def)
  from packet_queue_visit [OF this, of "\<lparr>pq_queue = [1, 2, 1], pq_index = 0, pq_enqueued = False\<rparr>"
      "\<lparr>pa_Send = (\<lambda>p. p - 1), pa_is_done = (\<lambda>p. p = 0), pa_re_enqueue = (\<lambda>p. True), pa_is_finished = (\<lambda>p. False)\<rparr>"]
  show ?thesis by (auto simp: sent_up_to_def)
qed



end
