(* ===== verification/Event_List.thy ===== *)
theory Event_List
  imports Aether_Prelude "HOL-Library.Monad_Syntax"
begin

text \<open>
  \<^verbatim>\<open>aether/events/\<close>: the list of the handlers of an event, its emission, and the subscriptions that own handlers.

  A handler is invoked while the list is being iterated, and it may subscribe, unsubscribe, emit the same
  event again or destroy the event.  The state therefore holds the stack of the emissions that are under way, and a run is
  a sequence of operations in which every handler does whatever it likes before it returns.
  An element of the list is known by its address, a number that is never used twice.  Dereferencing an iterator
  or an index whose element is not in the list, and calling a method of a destroyed event, is undefined
  behaviour of the source and \<open>None\<close> here.
\<close>

subsection \<open>The list of handlers\<close>

record 'h store =
  st_index :: nat
  st_value :: 'h
  is_alive :: bool

record 'h handlers_list =
  hl_handlers :: "'h store list"
  hl_next :: nat
  use_counter :: "16 word"

definition hl_make :: "'h handlers_list" where
  "hl_make = \<lparr>hl_handlers = [], hl_next = 0, use_counter = 0\<rparr>"

definition hl_Insert :: "'h handlers_list \<Rightarrow> 'h \<Rightarrow> nat \<times> 'h handlers_list" where
  "hl_Insert l h =
     (hl_next l, l\<lparr>hl_handlers := hl_handlers l @ [\<lparr>st_index = hl_next l, st_value = h, is_alive = True\<rparr>],
                  hl_next := hl_next l + 1\<rparr>)"

abbreviation hl_indexes :: "'h store list \<Rightarrow> nat list" where
  "hl_indexes hs \<equiv> map st_index hs"

definition hl_Remove :: "'h handlers_list \<Rightarrow> nat \<Rightarrow> 'h handlers_list option" where
  "hl_Remove l i =
     (if i \<in> set (hl_indexes (hl_handlers l))
      then Some (l\<lparr>hl_handlers := map (\<lambda>x. if st_index x = i then x\<lparr>is_alive := False\<rparr> else x) (hl_handlers l)\<rparr>)
      else None)"

definition hl_Alive :: "'h handlers_list \<Rightarrow> nat \<Rightarrow> bool option" where
  "hl_Alive l i = map_option is_alive (find (\<lambda>x. st_index x = i) (hl_handlers l))"

text \<open>The dead elements at the end are erased; where the search for a live one fails nothing is.\<close>

definition hl_CleanUp :: "'h handlers_list \<Rightarrow> 'h handlers_list" where
  "hl_CleanUp l =
     (if use_counter l \<noteq> 0 then l
      else (let hs = hl_handlers l;
                dead = length (takeWhile (\<lambda>x. \<not> is_alive x) (rev hs));
                remove_begin = (if dead \<noteq> length hs then length hs - dead else length hs)
            in l\<lparr>hl_handlers := take remove_begin hs\<rparr>))"


subsection \<open>Iteration\<close>

record iterator =
  it_node :: "nat option"
  it_index :: nat
  it_size :: nat

text \<open>The constructor of \<^verbatim>\<open>Iterator\<close>, on the part of the list that starts at the given position.\<close>

fun it_make :: "'h store list \<Rightarrow> nat \<Rightarrow> nat \<Rightarrow> iterator option" where
  "it_make xs counter sz =
     (if counter < sz
      then (case xs of
              [] \<Rightarrow> None
            | x # xs' \<Rightarrow>
                if is_alive x then Some \<lparr>it_node = Some (st_index x), it_index = counter, it_size = sz\<rparr>
                else it_make xs' (u16 (counter + 1)) sz)
      else Some \<lparr>it_node = None, it_index = sz, it_size = sz\<rparr>)"

text \<open>\<^verbatim>\<open>operator++\<close>, on the part of the list behind the position of the iterator.\<close>

fun it_inc :: "'h store list \<Rightarrow> iterator \<Rightarrow> iterator option" where
  "it_inc xs it =
     (let it1 = it\<lparr>it_node := (case xs of [] \<Rightarrow> None | x # _ \<Rightarrow> Some (st_index x)), it_index := u16 (it_index it + 1)\<rparr>
      in if it_index it1 = it_size it1 then Some it1
         else (case xs of
                 [] \<Rightarrow> None
               | x # xs' \<Rightarrow> if \<not> is_alive x then it_inc xs' it1 else Some it1))"

definition hl_behind :: "'h handlers_list \<Rightarrow> nat \<Rightarrow> 'h store list" where
  "hl_behind l a = tl (dropWhile (\<lambda>x. st_index x \<noteq> a) (hl_handlers l))"

definition it_get :: "'h handlers_list \<Rightarrow> iterator \<Rightarrow> 'h option" where
  "it_get l it = (case it_node it of
                    None \<Rightarrow> None
                  | Some a \<Rightarrow> map_option st_value (find (\<lambda>x. st_index x = a) (hl_handlers l)))"

definition it_next :: "'h handlers_list \<Rightarrow> iterator \<Rightarrow> iterator option" where
  "it_next l it = (case it_node it of
                     None \<Rightarrow> None
                   | Some a \<Rightarrow> if a \<in> set (hl_indexes (hl_handlers l)) then it_inc (hl_behind l a) it else None)"

text \<open>\<^verbatim>\<open>IteratorAdapter\<close>: its constructor gives the begin and the end, and counts itself in the list.\<close>

definition hl_Iterator :: "'h handlers_list \<Rightarrow> (iterator \<times> iterator \<times> 'h handlers_list) option" where
  "hl_Iterator l =
     (let n = u16 (length (hl_handlers l)) in do {
        b \<leftarrow> it_make (hl_handlers l) 0 n;
        e \<leftarrow> it_make (drop (length (hl_handlers l)) (hl_handlers l)) n n;
        Some (b, e, l\<lparr>use_counter := use_counter l + 1\<rparr>)
      })"

definition ia_destroy :: "'h handlers_list \<Rightarrow> 'h handlers_list" where
  "ia_destroy l = (let l1 = l\<lparr>use_counter := use_counter l - 1\<rparr> in if use_counter l1 = 0 then hl_CleanUp l1 else l1)"


subsection \<open>Events\<close>

text \<open>
  An emission under way is a frame: its iterator, the end it compares with, and the handlers it has invoked.
  \<open>ev_calls\<close> is the sequence of all invocations.  \<open>ev_subs\<close> holds the \<^verbatim>\<open>Subscription\<close> objects and
  \<open>ev_multi\<close> the \<^verbatim>\<open>MultiSubscription\<close> objects that own handlers of this event.
\<close>

record frame =
  fr_it :: iterator
  fr_end :: iterator
  fr_called :: "nat list"

record 'h event =
  ev_list :: "'h handlers_list"
  ev_exists :: bool
  ev_stack :: "frame list"
  ev_calls :: "'h list"
  ev_subs :: "nat \<Rightarrow> nat option"
  ev_multi :: "nat \<Rightarrow> nat list"

definition ev_make :: "'h event" where
  "ev_make = \<lparr>ev_list = hl_make, ev_exists = True, ev_stack = [], ev_calls = [],
              ev_subs = (\<lambda>_. None), ev_multi = (\<lambda>_. [])\<rparr>"

text \<open>The list lives as long as the event or an emission holds a reference to it.\<close>

definition ev_locked :: "'h event \<Rightarrow> bool" where
  "ev_locked e = (ev_exists e \<or> ev_stack e \<noteq> [])"

text \<open>The head of the loop of \<^verbatim>\<open>EmitImpl\<close>: the adapter is destroyed at the end, or the next handler is invoked.\<close>

definition ev_loop :: "'h event \<Rightarrow> frame \<Rightarrow> 'h event option" where
  "ev_loop e f =
     (if it_index (fr_it f) = it_index (fr_end f) then Some (e\<lparr>ev_list := ia_destroy (ev_list e)\<rparr>)
      else do {
        h \<leftarrow> it_get (ev_list e) (fr_it f);
        a \<leftarrow> it_node (fr_it f);
        Some (e\<lparr>ev_stack := f\<lparr>fr_called := fr_called f @ [a]\<rparr> # ev_stack e, ev_calls := ev_calls e @ [h]\<rparr>)
      })"

definition ev_Emit :: "'h event \<Rightarrow> 'h event option" where
  "ev_Emit e =
     (if \<not> ev_exists e then None
      else do {
        (b, en, l) \<leftarrow> hl_Iterator (ev_list e);
        ev_loop (e\<lparr>ev_list := l\<rparr>) \<lparr>fr_it = b, fr_end = en, fr_called = []\<rparr>
      })"

text \<open>A handler returns to the innermost emission, which steps to the next one.\<close>

definition ev_Return :: "'h event \<Rightarrow> 'h event option" where
  "ev_Return e =
     (case ev_stack e of
        [] \<Rightarrow> None
      | f # fs \<Rightarrow> do {
          it \<leftarrow> it_next (ev_list e) (fr_it f);
          ev_loop (e\<lparr>ev_stack := fs\<rparr>) (f\<lparr>fr_it := it\<rparr>)
        })"

definition ev_Add :: "'h event \<Rightarrow> 'h \<Rightarrow> (nat \<times> 'h event) option" where
  "ev_Add e h =
     (if \<not> ev_exists e then None
      else (case hl_Insert (ev_list e) h of (i, l) \<Rightarrow> Some (i, e\<lparr>ev_list := l\<rparr>)))"

definition ed_Delete :: "'h event \<Rightarrow> nat \<Rightarrow> 'h event option" where
  "ed_Delete e i =
     (if ev_locked e then map_option (\<lambda>l. e\<lparr>ev_list := l\<rparr>) (hl_Remove (ev_list e) i) else Some e)"

definition ed_alive :: "'h event \<Rightarrow> nat \<Rightarrow> bool option" where
  "ed_alive e i = (if ev_locked e then hl_Alive (ev_list e) i else Some False)"


subsection \<open>Subscriptions\<close>

definition es_Reset :: "'h event \<Rightarrow> nat \<Rightarrow> 'h event option" where
  "es_Reset e s =
     (case ev_subs e s of
        None \<Rightarrow> Some e
      | Some i \<Rightarrow> do { e1 \<leftarrow> ed_Delete e i; Some (e1\<lparr>ev_subs := (ev_subs e1)(s := None)\<rparr>) })"

definition es_assign :: "'h event \<Rightarrow> nat \<Rightarrow> nat \<Rightarrow> 'h event option" where
  "es_assign e s i = do { e1 \<leftarrow> es_Reset e s; Some (e1\<lparr>ev_subs := (ev_subs e1)(s := Some i)\<rparr>) }"

definition es_move :: "'h event \<Rightarrow> nat \<Rightarrow> nat \<Rightarrow> 'h event option" where
  "es_move e s other =
     (if s = other then Some e
      else do {
        e1 \<leftarrow> es_Reset e s;
        Some (e1\<lparr>ev_subs := (ev_subs e1)(s := ev_subs e1 other, other := None)\<rparr>)
      })"

definition es_bool :: "'h event \<Rightarrow> nat \<Rightarrow> bool option" where
  "es_bool e s = (case ev_subs e s of None \<Rightarrow> Some False | Some i \<Rightarrow> ed_alive e i)"

fun ms_keep :: "'h event \<Rightarrow> nat list \<Rightarrow> nat list option" where
  "ms_keep e [] = Some []"
| "ms_keep e (i # is) = do { b \<leftarrow> ed_alive e i; ks \<leftarrow> ms_keep e is; Some (if b then i # ks else ks) }"

definition ms_CleanUp :: "'h event \<Rightarrow> nat \<Rightarrow> 'h event option" where
  "ms_CleanUp e m = do { ks \<leftarrow> ms_keep e (ev_multi e m); Some (e\<lparr>ev_multi := (ev_multi e)(m := ks)\<rparr>) }"

definition ms_add :: "'h event \<Rightarrow> nat \<Rightarrow> nat \<Rightarrow> 'h event option" where
  "ms_add e m i = do { e1 \<leftarrow> ms_CleanUp e m; Some (e1\<lparr>ev_multi := (ev_multi e1)(m := ev_multi e1 m @ [i])\<rparr>) }"

fun ms_delete :: "nat list \<Rightarrow> 'h event \<Rightarrow> 'h event option" where
  "ms_delete [] e = Some e"
| "ms_delete (i # is) e = do { b \<leftarrow> ed_alive e i; e1 \<leftarrow> (if b then ed_Delete e i else Some e); ms_delete is e1 }"

definition ms_Reset :: "'h event \<Rightarrow> nat \<Rightarrow> 'h event option" where
  "ms_Reset e m =
     do { e1 \<leftarrow> ms_delete (ev_multi e m) e; Some (e1\<lparr>ev_multi := (ev_multi e1)(m := [])\<rparr>) }"


subsection \<open>Runs\<close>

datatype 'h ev_op =
  Subscribe nat 'h
| SubscribeMulti nat 'h
| SubscribeForever 'h
| ResetSub nat
| MoveSub nat nat
| TestSub nat
| ResetMulti nat
| Emit
| Return
| Destroy

fun ev_apply :: "'h ev_op \<Rightarrow> 'h event \<Rightarrow> 'h event option" where
  "ev_apply (Subscribe s h) e = do { (i, e1) \<leftarrow> ev_Add e h; es_assign e1 s i }"
| "ev_apply (SubscribeMulti m h) e = do { (i, e1) \<leftarrow> ev_Add e h; ms_add e1 m i }"
| "ev_apply (SubscribeForever h) e = do { (i, e1) \<leftarrow> ev_Add e h; Some e1 }"
| "ev_apply (ResetSub s) e = es_Reset e s"
| "ev_apply (MoveSub s other) e = es_move e s other"
| "ev_apply (TestSub s) e = do { b \<leftarrow> es_bool e s; Some e }"
| "ev_apply (ResetMulti m) e = ms_Reset e m"
| "ev_apply Emit e = ev_Emit e"
| "ev_apply Return e = ev_Return e"
| "ev_apply Destroy e = Some (e\<lparr>ev_exists := False\<rparr>)"

text \<open>
  What a program may do: an event is used while it exists, and only a running handler returns.  The counter of
  the list has sixteen bits, so emissions are nested less than 65536 deep.
\<close>

fun ev_enabled :: "'h ev_op \<Rightarrow> 'h event \<Rightarrow> bool" where
  "ev_enabled (Subscribe s h) e = ev_exists e"
| "ev_enabled (SubscribeMulti m h) e = ev_exists e"
| "ev_enabled (SubscribeForever h) e = ev_exists e"
| "ev_enabled Emit e = (ev_exists e \<and> length (ev_stack e) < 65535)"
| "ev_enabled Return e = (ev_stack e \<noteq> [])"
| "ev_enabled Destroy e = ev_exists e"
| "ev_enabled _ e = True"

inductive ev_reach :: "'h event \<Rightarrow> bool" where
  ev_reach_make: "ev_reach ev_make"
| ev_reach_step: "ev_reach e \<Longrightarrow> ev_enabled op e \<Longrightarrow> ev_apply op e = Some e' \<Longrightarrow> ev_reach e'"

fun ev_run :: "'h ev_op list \<Rightarrow> 'h event \<Rightarrow> 'h event option" where
  "ev_run [] e = Some e"
| "ev_run (op # ops) e = do { e1 \<leftarrow> (if ev_enabled op e then ev_apply op e else None); ev_run ops e1 }"


subsection \<open>Iterators stand on the first live position\<close>

declare it_make.simps [simp del]
declare it_inc.simps [simp del]

definition it_first :: "'h store list \<Rightarrow> nat \<Rightarrow> nat \<Rightarrow> iterator \<Rightarrow> bool" where
  "it_first hs c sz it \<longleftrightarrow>
     it_size it = sz \<and> c \<le> it_index it \<and> it_index it \<le> sz \<and>
     (\<forall>j. c \<le> j \<and> j < it_index it \<longrightarrow> \<not> is_alive (hs ! j)) \<and>
     (it_index it < sz \<longrightarrow> is_alive (hs ! it_index it) \<and> it_node it = Some (st_index (hs ! it_index it)))"

lemma it_first_skip: "it_first hs (Suc c) sz it \<Longrightarrow> \<not> is_alive (hs ! c) \<Longrightarrow> it_first hs c sz it"
  unfolding it_first_def by (metis Suc_leD Suc_leI le_neq_implies_less)

lemma it_make_first:
  assumes "c \<le> sz" "sz \<le> length hs" "sz < 65536"
  shows "\<exists>it. it_make (drop c hs) c sz = Some it \<and> it_first hs c sz it"
  using assms(1)
proof (induction "sz - c" arbitrary: c)
  case 0
  then show ?case by (auto simp: it_make.simps it_first_def)
next
  case (Suc d)
  then have c: "c < sz" "c < length hs" using assms by auto
  then have "drop c hs = hs ! c # drop (Suc c) hs" by (simp add: Cons_nth_drop_Suc)
  moreover have "\<exists>it. it_make (drop (Suc c) hs) (Suc c) sz = Some it \<and> it_first hs (Suc c) sz it"
    using Suc.hyps(1) [of "Suc c"] Suc.hyps(2) c by simp
  ultimately show ?case using c assms(3)
    by (cases "is_alive (hs ! c)") (auto simp: it_make.simps [of "_ # _"] it_first_skip, simp add: it_first_def)
qed

lemma it_inc_first:
  assumes "it_index it < it_size it" "it_size it \<le> length hs" "it_size it < 65536"
  shows "\<exists>it'. it_inc (drop (Suc (it_index it)) hs) it = Some it' \<and> it_first hs (Suc (it_index it)) (it_size it) it'"
  using assms
proof (induction "it_size it - it_index it" arbitrary: it)
  case 0
  then show ?case by simp
next
  case (Suc d)
  let ?xs = "drop (Suc (it_index it)) hs"
  let ?it1 = "it\<lparr>it_node := (case ?xs of [] \<Rightarrow> None | x # _ \<Rightarrow> Some (st_index x)), it_index := Suc (it_index it)\<rparr>"
  have u: "u16 (it_index it + 1) = Suc (it_index it)" using Suc.prems by simp
  show ?case
  proof (cases "Suc (it_index it) = it_size it")
    case True
    then show ?thesis unfolding it_inc.simps [of ?xs] using u by (auto simp: it_first_def)
  next
    case False
    then have lt: "Suc (it_index it) < it_size it" "Suc (it_index it) < length hs" using Suc.prems by auto
    then have xs: "?xs = hs ! Suc (it_index it) # drop (Suc (Suc (it_index it))) hs"
      by (simp add: Cons_nth_drop_Suc)
    have IH: "\<exists>it'. it_inc (drop (Suc (it_index ?it1)) hs) ?it1 = Some it' \<and>
        it_first hs (Suc (it_index ?it1)) (it_size ?it1) it'"
      using Suc.hyps(1) [of ?it1] Suc.hyps(2) lt Suc.prems by simp
    have first: "it_first hs (Suc (it_index it)) (it_size it) ?it1" if "is_alive (hs ! Suc (it_index it))"
      unfolding it_first_def xs using that lt by auto
    have eq: "it_inc ?xs it = (if is_alive (hs ! Suc (it_index it)) then Some ?it1
        else it_inc (drop (Suc (it_index ?it1)) hs) ?it1)"
      unfolding it_inc.simps [of ?xs it] Let_def u using lt xs False by simp
    show ?thesis
    proof (cases "is_alive (hs ! Suc (it_index it))")
      case True
      with eq first show ?thesis by auto
    next
      case False
      with IH eq show ?thesis using it_first_skip [of hs "Suc (it_index it)"] by auto
    qed
  qed
qed


lemma hl_behind_nth:
  assumes "distinct (hl_indexes (hl_handlers l))" "j < length (hl_handlers l)"
  shows "hl_behind l (st_index (hl_handlers l ! j)) = drop (Suc j) (hl_handlers l)"
proof -
  have "takeWhile (\<lambda>x. st_index x \<noteq> st_index (hl_handlers l ! j)) (hl_handlers l) = take j (hl_handlers l)"
    using assms by (intro takeWhile_eq_take_P_nth) (auto simp: distinct_conv_nth)
  then show ?thesis using assms(2) by (simp add: hl_behind_def dropWhile_eq_drop min_def tl_drop drop_Suc)
qed

lemma find_index_nth:
  assumes "distinct (hl_indexes hs)" "j < length hs"
  shows "find (\<lambda>x. st_index x = st_index (hs ! j)) hs = Some (hs ! j)"
  using assms by (auto simp: find_Some_iff distinct_conv_nth)


subsection \<open>Invariant\<close>

datatype owner = Sub_Object nat | Multi_Object nat

fun owns :: "'h event \<Rightarrow> owner \<Rightarrow> nat set" where
  "owns e (Sub_Object s) = set_option (ev_subs e s)"
| "owns e (Multi_Object m) = set (ev_multi e m)"

definition hl_live :: "'h handlers_list \<Rightarrow> nat set" where
  "hl_live l = st_index ` {x \<in> set (hl_handlers l). is_alive x}"

definition hl_ok :: "'h handlers_list \<Rightarrow> bool" where
  "hl_ok l \<longleftrightarrow> distinct (hl_indexes (hl_handlers l)) \<and> (\<forall>x \<in> set (hl_handlers l). st_index x < hl_next l)"

text \<open>\<open>xs\<close> holds elements of \<open>ys\<close>, in the order of \<open>ys\<close>.\<close>

definition in_order :: "'a list \<Rightarrow> 'a list \<Rightarrow> bool" where
  "in_order xs ys \<longleftrightarrow> xs = filter (\<lambda>y. y \<in> set xs) ys"

text \<open>
  A frame: its iterator stands on an element of the list below its size, it has invoked handlers in the order
  of the list, and it has missed none that is alive.
\<close>

definition fr_ok :: "'h store list \<Rightarrow> frame \<Rightarrow> bool" where
  "fr_ok hs f \<longleftrightarrow>
     it_size (fr_it f) \<le> length hs \<and> it_size (fr_it f) < 65536 \<and> it_index (fr_end f) = it_size (fr_it f) \<and>
     it_index (fr_it f) < it_size (fr_it f) \<and> it_node (fr_it f) = Some (st_index (hs ! it_index (fr_it f))) \<and>
     in_order (fr_called f) (hl_indexes (take (Suc (it_index (fr_it f))) hs)) \<and>
     (\<forall>j \<le> it_index (fr_it f). is_alive (hs ! j) \<longrightarrow> st_index (hs ! j) \<in> set (fr_called f))"

definition ev_list_ok :: "'h event \<Rightarrow> bool" where
  "ev_list_ok e \<longleftrightarrow>
     hl_ok (ev_list e) \<and> use_counter (ev_list e) = of_nat (length (ev_stack e)) \<and> length (ev_stack e) < 65536 \<and>
     (\<forall>f \<in> set (ev_stack e). fr_ok (hl_handlers (ev_list e)) f)"

definition ev_owners_ok :: "'h event \<Rightarrow> bool" where
  "ev_owners_ok e \<longleftrightarrow>
     (ev_locked e \<longrightarrow> (\<forall>r. owns e r \<subseteq> hl_live (ev_list e))) \<and>
     (\<forall>r s. r \<noteq> s \<longrightarrow> owns e r \<inter> owns e s = {}) \<and> (\<forall>m. distinct (ev_multi e m))"

definition ev_ok :: "'h event \<Rightarrow> bool" where
  "ev_ok e \<longleftrightarrow> ev_list_ok e \<and> ev_owners_ok e"

lemma ev_ok_make: "ev_ok (ev_make :: 'h event)"
proof -
  have "owns (ev_make :: 'h event) r = {}" for r :: owner by (cases r) (simp_all add: ev_make_def)
  then show ?thesis
    by (simp add: ev_ok_def ev_list_ok_def ev_owners_ok_def) (simp add: ev_make_def hl_make_def hl_ok_def)
qed

text \<open>While an emission is under way the list only grows, and a dead handler stays dead.\<close>

definition hl_grows :: "'h store list \<Rightarrow> 'h store list \<Rightarrow> bool" where
  "hl_grows hs hs' \<longleftrightarrow>
     length hs \<le> length hs' \<and>
     (\<forall>j < length hs. st_index (hs' ! j) = st_index (hs ! j) \<and> (is_alive (hs' ! j) \<longrightarrow> is_alive (hs ! j)))"

lemma hl_grows_take:
  assumes "hl_grows hs hs'" "n \<le> length hs"
  shows "hl_indexes (take n hs') = hl_indexes (take n hs)"
  using assms by (intro nth_equalityI) (auto simp: hl_grows_def)

lemma fr_ok_grows:
  assumes "hl_grows hs hs'" "fr_ok hs f"
  shows "fr_ok hs' f"
proof -
  have "Suc (it_index (fr_it f)) \<le> length hs" using assms(2) by (simp add: fr_ok_def)
  from hl_grows_take [OF assms(1) this] assms show ?thesis
    unfolding fr_ok_def hl_grows_def by auto
qed


lemma drop_trailing:
  "drop (length xs - length (takeWhile P (rev xs))) xs = rev (takeWhile P (rev xs))"
  by (induction xs rule: rev_induct) auto

lemma hl_CleanUp_cases:
  obtains n where "hl_CleanUp l = l\<lparr>hl_handlers := take n (hl_handlers l)\<rparr>" "\<forall>x \<in> set (drop n (hl_handlers l)). \<not> is_alive x"
proof (cases "use_counter l = 0")
  case True
  let ?hs = "hl_handlers l" and ?d = "length (takeWhile (\<lambda>x. \<not> is_alive x) (rev (hl_handlers l)))"
  let ?n = "if ?d \<noteq> length ?hs then length ?hs - ?d else length ?hs"
  show ?thesis
  proof (rule that)
    show "hl_CleanUp l = l\<lparr>hl_handlers := take ?n ?hs\<rparr>" using True by (simp only: hl_CleanUp_def Let_def) simp
    show "\<forall>x \<in> set (drop ?n ?hs). \<not> is_alive x"
      by (auto simp: drop_trailing dest: set_takeWhileD)
  qed
next
  case False
  show ?thesis by (rule that [of "length (hl_handlers l)"]) (use False in \<open>simp_all add: hl_CleanUp_def\<close>)
qed

lemma hl_ok_take: "hl_ok l \<Longrightarrow> hl_ok (l\<lparr>hl_handlers := take n (hl_handlers l)\<rparr>)"
  by (auto simp: hl_ok_def take_map [symmetric] dest: in_set_takeD)

lemma hl_live_take:
  assumes "\<forall>x \<in> set (drop n (hl_handlers l)). \<not> is_alive x"
  shows "hl_live (l\<lparr>hl_handlers := take n (hl_handlers l)\<rparr>) = hl_live l"
proof -
  have "set (hl_handlers l) = set (take n (hl_handlers l)) \<union> set (drop n (hl_handlers l))"
    by (metis append_take_drop_id set_append)
  with assms show ?thesis by (auto simp: hl_live_def)
qed

lemma hl_CleanUp_ok:
  "hl_ok l \<Longrightarrow> hl_ok (hl_CleanUp l)" "hl_live (hl_CleanUp l) = hl_live l" "use_counter (hl_CleanUp l) = use_counter l"
  by (rule hl_CleanUp_cases [of l], simp add: hl_ok_take hl_live_take)+

lemma of_nat_16_eq_0: "n < 65536 \<Longrightarrow> (of_nat n :: 16 word) = 0 \<longleftrightarrow> n = 0"
  by (cases "n = 0") (auto simp: word_of_nat_eq_0_iff dest: dvd_imp_le)

lemma ia_destroy_ok:
  assumes "hl_ok l" "use_counter l = of_nat (Suc n)" "n < 65536"
  shows "hl_ok (ia_destroy l)" "hl_live (ia_destroy l) = hl_live l" "use_counter (ia_destroy l) = of_nat n"
    "0 < n \<Longrightarrow> hl_handlers (ia_destroy l) = hl_handlers l"
proof -
  let ?l = "l\<lparr>use_counter := of_nat n\<rparr>"
  have "hl_ok ?l" "hl_live ?l = hl_live l" using assms(1) by (simp_all add: hl_ok_def hl_live_def)
  moreover have "ia_destroy l = (if n = 0 then hl_CleanUp ?l else ?l)"
    using assms by (simp add: ia_destroy_def Let_def of_nat_16_eq_0)
  ultimately show "hl_ok (ia_destroy l)" "hl_live (ia_destroy l) = hl_live l" "use_counter (ia_destroy l) = of_nat n"
    "0 < n \<Longrightarrow> hl_handlers (ia_destroy l) = hl_handlers l"
    using hl_CleanUp_ok [of ?l] by (auto split: if_splits)
qed


subsection \<open>Emission\<close>

definition fr_pre :: "'h store list \<Rightarrow> nat \<Rightarrow> frame \<Rightarrow> bool" where
  "fr_pre hs c f \<longleftrightarrow>
     it_first hs c (it_size (fr_it f)) (fr_it f) \<and> it_size (fr_it f) \<le> length hs \<and> it_size (fr_it f) < 65536 \<and>
     it_index (fr_end f) = it_size (fr_it f) \<and>
     in_order (fr_called f) (hl_indexes (take c hs)) \<and>
     (\<forall>j < c. is_alive (hs ! j) \<longrightarrow> st_index (hs ! j) \<in> set (fr_called f))"

lemma in_order_snoc:
  assumes "distinct (ys @ zs @ [a])" "in_order xs ys"
  shows "in_order (xs @ [a]) (ys @ zs @ [a])"
proof -
  have sub: "set xs \<subseteq> set ys" using assms(2) by (metis in_order_def filter_is_subset)
  have "filter (\<lambda>y. y \<in> set (xs @ [a])) ys = filter (\<lambda>y. y \<in> set xs) ys"
    using assms(1) by (intro filter_cong) auto
  moreover have "filter (\<lambda>y. y \<in> set (xs @ [a])) zs = []"
    using assms(1) sub by (auto simp: filter_empty_conv)
  ultimately show ?thesis using assms(2) by (simp add: in_order_def)
qed

lemma in_order_called:
  assumes "distinct (hl_indexes hs)" "c \<le> i" "i < length hs" "in_order called (hl_indexes (take c hs))"
  shows "in_order (called @ [st_index (hs ! i)]) (hl_indexes (take (Suc i) hs))"
proof -
  have split: "take (Suc i) hs = take c hs @ take (i - c) (drop c hs) @ [hs ! i]"
    using assms(2,3) by (simp add: take_Suc_conv_app_nth) (metis append_assoc le_add_diff_inverse take_add)
  have "distinct (hl_indexes (take (Suc i) hs))" using assms(1) by (simp add: take_map [symmetric])
  then show ?thesis unfolding split using in_order_snoc [OF _ assms(4)] by simp
qed

lemma fr_ok_called:
  assumes "distinct (hl_indexes hs)" "fr_pre hs c f" "it_index (fr_it f) < it_size (fr_it f)"
  shows "fr_ok hs (f\<lparr>fr_called := fr_called f @ [st_index (hs ! it_index (fr_it f))]\<rparr>)"
proof -
  let ?i = "it_index (fr_it f)"
  from assms have i: "c \<le> ?i" "?i < length hs" "in_order (fr_called f) (hl_indexes (take c hs))"
    by (simp_all add: fr_pre_def it_first_def)
  from assms have "j \<le> ?i \<Longrightarrow> is_alive (hs ! j) \<Longrightarrow> st_index (hs ! j) \<in> set (fr_called f @ [st_index (hs ! ?i)])" for j
    by (cases "j < c"; cases "j = ?i") (auto simp: fr_pre_def it_first_def)
  with in_order_called [OF assms(1) i] show ?thesis
    using assms unfolding fr_ok_def fr_pre_def it_first_def by auto
qed

abbreviation same_owners :: "'h event \<Rightarrow> 'h event \<Rightarrow> bool" where
  "same_owners e e' \<equiv> ev_subs e' = ev_subs e \<and> ev_multi e' = ev_multi e \<and> ev_exists e' = ev_exists e"

lemma ev_loop_ok:
  assumes "hl_ok (ev_list e)" "use_counter (ev_list e) = of_nat (Suc (length (ev_stack e)))" "length (ev_stack e) < 65535"
    and frames: "\<forall>g \<in> set (ev_stack e). fr_ok (hl_handlers (ev_list e)) g"
    and f: "fr_pre (hl_handlers (ev_list e)) c f"
  shows "\<exists>e'. ev_loop e f = Some e' \<and> ev_list_ok e' \<and> hl_live (ev_list e') = hl_live (ev_list e) \<and> same_owners e e'"
proof (cases "it_index (fr_it f) = it_index (fr_end f)")
  case True
  have n: "length (ev_stack e) < 65536" using assms(3) by simp
  note d = ia_destroy_ok [OF assms(1,2) n]
  have "ev_list_ok (e\<lparr>ev_list := ia_destroy (ev_list e)\<rparr>)"
    using d n frames by (cases "ev_stack e") (auto simp: ev_list_ok_def)
  with d(2) True show ?thesis by (simp add: ev_loop_def)
next
  case False
  let ?hs = "hl_handlers (ev_list e)" and ?i = "it_index (fr_it f)"
  have i: "?i < it_size (fr_it f)" "?i < length ?hs" "it_node (fr_it f) = Some (st_index (?hs ! ?i))"
    using False f by (auto simp: fr_pre_def it_first_def)
  have dist: "distinct (hl_indexes ?hs)" using assms(1) by (simp add: hl_ok_def)
  have "it_get (ev_list e) (fr_it f) = Some (st_value (?hs ! ?i))"
    using i find_index_nth [OF dist i(2)] by (simp add: it_get_def)
  then show ?thesis
    using False i assms fr_ok_called [OF dist f i(1)] by (simp add: ev_loop_def ev_list_ok_def)
qed


lemma u16_le: "u16 n \<le> n" "u16 n < 65536"
  by (simp_all add: u16_def)

lemma hl_Iterator_first:
  fixes l :: "'h handlers_list"
  shows "\<exists>b en. hl_Iterator l = Some (b, en, l\<lparr>use_counter := use_counter l + 1\<rparr>) \<and>
     fr_pre (hl_handlers l) 0 \<lparr>fr_it = b, fr_end = en, fr_called = []\<rparr>"
proof -
  let ?n = "u16 (length (hl_handlers l))"
  obtain b where b: "it_make (hl_handlers l) 0 ?n = Some b" "it_first (hl_handlers l) 0 ?n b"
    using it_make_first [of 0 ?n "hl_handlers l"] u16_le [of "length (hl_handlers l)"] by auto
  have "it_make ([] :: 'h store list) ?n ?n = Some \<lparr>it_node = None, it_index = ?n, it_size = ?n\<rparr>" by (subst it_make.simps) simp
  moreover have "it_size b = ?n" using b(2) by (simp add: it_first_def)
  ultimately show ?thesis using b u16_le [of "length (hl_handlers l)"]
    by (simp add: hl_Iterator_def fr_pre_def in_order_def Let_def)
qed

lemma ev_Emit_ok:
  assumes "ev_list_ok e" "ev_exists e" "length (ev_stack e) < 65535"
  shows "\<exists>e'. ev_Emit e = Some e' \<and> ev_list_ok e' \<and> hl_live (ev_list e') = hl_live (ev_list e) \<and> same_owners e e'"
proof -
  let ?l = "ev_list e"
  obtain b en where it: "hl_Iterator ?l = Some (b, en, ?l\<lparr>use_counter := use_counter ?l + 1\<rparr>)"
    "fr_pre (hl_handlers ?l) 0 \<lparr>fr_it = b, fr_end = en, fr_called = []\<rparr>"
    using hl_Iterator_first by blast
  let ?e = "e\<lparr>ev_list := ?l\<lparr>use_counter := use_counter ?l + 1\<rparr>\<rparr>"
  have "\<exists>e'. ev_loop ?e \<lparr>fr_it = b, fr_end = en, fr_called = []\<rparr> = Some e' \<and> ev_list_ok e' \<and>
      hl_live (ev_list e') = hl_live (ev_list ?e) \<and> same_owners ?e e'"
    using assms it(2) by (intro ev_loop_ok [where c = 0]) (auto simp: ev_list_ok_def hl_ok_def)
  then show ?thesis using assms(2) it(1) by (auto simp: ev_Emit_def hl_live_def)
qed

lemma fr_pre_next:
  assumes "hl_ok l" "fr_ok (hl_handlers l) f"
  shows "\<exists>it. it_next l (fr_it f) = Some it \<and> it_size it = it_size (fr_it f) \<and>
    fr_pre (hl_handlers l) (Suc (it_index (fr_it f))) (f\<lparr>fr_it := it\<rparr>)"
proof -
  let ?hs = "hl_handlers l" and ?i = "it_index (fr_it f)"
  have f: "?i < it_size (fr_it f)" "it_size (fr_it f) \<le> length ?hs" "it_size (fr_it f) < 65536" "?i < length ?hs"
    "it_node (fr_it f) = Some (st_index (?hs ! ?i))"
    using assms(2) by (auto simp: fr_ok_def)
  have behind: "hl_behind l (st_index (?hs ! ?i)) = drop (Suc ?i) ?hs"
    using assms(1) f(4) by (intro hl_behind_nth) (auto simp: hl_ok_def)
  obtain it where "it_inc (drop (Suc ?i) ?hs) (fr_it f) = Some it" "it_first ?hs (Suc ?i) (it_size (fr_it f)) it"
    using it_inc_first [OF f(1-3)] by blast
  moreover from this(2) have "it_size it = it_size (fr_it f)" by (simp add: it_first_def)
  ultimately show ?thesis using f behind assms(2)
    by (auto simp: it_next_def fr_pre_def fr_ok_def less_Suc_eq_le)
qed

lemma ev_Return_ok:
  assumes "ev_list_ok e" "ev_stack e \<noteq> []"
  shows "\<exists>e'. ev_Return e = Some e' \<and> ev_list_ok e' \<and> hl_live (ev_list e') = hl_live (ev_list e) \<and> same_owners e e'"
proof -
  obtain f fs where st: "ev_stack e = f # fs" using assms(2) by (cases "ev_stack e") auto
  let ?hs = "hl_handlers (ev_list e)" and ?e = "e\<lparr>ev_stack := fs\<rparr>"
  have "hl_ok (ev_list e)" "fr_ok ?hs f" using assms(1) st by (auto simp: ev_list_ok_def)
  from fr_pre_next [OF this] obtain it where
    it: "it_next (ev_list e) (fr_it f) = Some it" "fr_pre ?hs (Suc (it_index (fr_it f))) (f\<lparr>fr_it := it\<rparr>)"
    by blast
  have "\<exists>e'. ev_loop ?e (f\<lparr>fr_it := it\<rparr>) = Some e' \<and> ev_list_ok e' \<and>
      hl_live (ev_list e') = hl_live (ev_list ?e) \<and> same_owners ?e e'"
    using assms(1) st it(2) by (intro ev_loop_ok) (auto simp: ev_list_ok_def)
  then show ?thesis using st it(1) by (auto simp: ev_Return_def)
qed


subsection \<open>Removing and inserting handlers\<close>

definition ev_kill :: "nat set \<Rightarrow> 'h event \<Rightarrow> 'h event" where
  "ev_kill A e =
     (if ev_locked e
      then e\<lparr>ev_list := (ev_list e)\<lparr>hl_handlers :=
             map (\<lambda>x. if st_index x \<in> A then x\<lparr>is_alive := False\<rparr> else x) (hl_handlers (ev_list e))\<rparr>\<rparr>
      else e)"

lemma ev_kill_simps [simp]:
  "ev_stack (ev_kill A e) = ev_stack e" "ev_exists (ev_kill A e) = ev_exists e" "ev_subs (ev_kill A e) = ev_subs e"
  "ev_multi (ev_kill A e) = ev_multi e" "ev_locked (ev_kill A e) = ev_locked e" "owns (ev_kill A e) = owns e"
proof -
  show "ev_stack (ev_kill A e) = ev_stack e" "ev_exists (ev_kill A e) = ev_exists e" "ev_subs (ev_kill A e) = ev_subs e"
    "ev_multi (ev_kill A e) = ev_multi e" by (simp_all add: ev_kill_def)
  then show "ev_locked (ev_kill A e) = ev_locked e" "owns (ev_kill A e) = owns e"
    by (simp_all add: ev_locked_def fun_eq_iff split: owner.split) (metis owner.exhaust owns.simps)
qed

lemma ev_kill_live: "ev_locked e \<Longrightarrow> hl_live (ev_list (ev_kill A e)) = hl_live (ev_list e) - A"
  by (auto simp: ev_kill_def hl_live_def image_def)

lemma ev_kill_Un: "ev_kill A (ev_kill B e) = ev_kill (B \<union> A) e" "ev_kill {} e = e"
  by (auto simp: ev_kill_def ev_locked_def)

lemma ev_kill_ok: "ev_list_ok e \<Longrightarrow> ev_list_ok (ev_kill A e)"
proof -
  assume ok: "ev_list_ok e"
  let ?hs = "hl_handlers (ev_list e)"
  let ?hs' = "map (\<lambda>x. if st_index x \<in> A then x\<lparr>is_alive := False\<rparr> else x) ?hs"
  have "hl_grows ?hs ?hs'" by (simp add: hl_grows_def)
  then have "fr_ok ?hs f \<Longrightarrow> fr_ok ?hs' f" for f by (rule fr_ok_grows)
  moreover have "hl_indexes ?hs' = hl_indexes ?hs" by simp
  ultimately show ?thesis using ok by (auto simp: ev_kill_def ev_list_ok_def hl_ok_def simp del: map_map)
qed

lemma ed_Delete_live: "i \<in> hl_live (ev_list e) \<or> \<not> ev_locked e \<Longrightarrow> ed_Delete e i = Some (ev_kill {i} e)"
  by (auto simp: ed_Delete_def hl_Remove_def ev_kill_def hl_live_def)

lemma ed_alive_live:
  assumes "ev_list_ok e" "ev_locked e \<Longrightarrow> i \<in> hl_live (ev_list e)"
  shows "ed_alive e i = Some (ev_locked e)"
proof (cases "ev_locked e")
  case True
  then obtain j where "j < length (hl_handlers (ev_list e))" "i = st_index (hl_handlers (ev_list e) ! j)"
    "is_alive (hl_handlers (ev_list e) ! j)"
    using assms(2) by (auto simp: hl_live_def in_set_conv_nth)
  with True show ?thesis using find_index_nth [of "hl_handlers (ev_list e)" j] assms(1)
    by (simp add: ed_alive_def hl_Alive_def ev_list_ok_def hl_ok_def)
qed (simp add: ed_alive_def)


lemma ms_delete_live:
  assumes "ev_list_ok e" "ev_locked e \<Longrightarrow> set is \<subseteq> hl_live (ev_list e)" "distinct is"
  shows "ms_delete is e = Some (ev_kill (set is) e)"
  using assms
proof (induction "is" arbitrary: e)
  case Nil
  then show ?case by (simp add: ev_kill_Un)
next
  case (Cons i "is")
  have alive: "ed_alive e i = Some (ev_locked e)" using Cons.prems by (intro ed_alive_live) auto
  show ?case
  proof (cases "ev_locked e")
    case True
    then have "ms_delete is (ev_kill {i} e) = Some (ev_kill (set is) (ev_kill {i} e))"
      using Cons.prems by (intro Cons.IH) (auto simp: ev_kill_ok ev_kill_live)
    then show ?thesis using True Cons.prems alive ed_Delete_live [of i e] by (simp add: ev_kill_Un)
  next
    case False
    then have "ms_delete is e = Some (ev_kill (set is) e)" using Cons.prems by (intro Cons.IH) auto
    with False show ?thesis using alive by (simp add: ev_kill_def)
  qed
qed

lemma ms_keep_live:
  assumes "ev_list_ok e" "ev_locked e \<Longrightarrow> set is \<subseteq> hl_live (ev_list e)"
  shows "ms_keep e is = Some (if ev_locked e then is else [])"
  using assms(2) by (induction "is") (simp_all add: ed_alive_live [OF assms(1)])

text \<open>A handler that is removed together with its owner.\<close>

definition ev_forget :: "owner \<Rightarrow> 'h event \<Rightarrow> 'h event" where
  "ev_forget r e =
     (case r of Sub_Object s \<Rightarrow> e\<lparr>ev_subs := (ev_subs e)(s := None)\<rparr>
              | Multi_Object m \<Rightarrow> e\<lparr>ev_multi := (ev_multi e)(m := [])\<rparr>)"

lemma ev_forget_simps [simp]:
  "ev_list (ev_forget r e) = ev_list e" "ev_stack (ev_forget r e) = ev_stack e"
  "ev_exists (ev_forget r e) = ev_exists e" "ev_locked (ev_forget r e) = ev_locked e"
  "owns (ev_forget r e) q = (if q = r then {} else owns e q)"
  by (cases r; cases q; simp add: ev_forget_def ev_locked_def)+

lemma ev_forget_kill_ok:
  assumes "ev_ok e"
  shows "ev_ok (ev_forget r (ev_kill (owns e r) e))"
proof -
  let ?e = "ev_forget r (ev_kill (owns e r) e)"
  have o: "ev_locked e \<Longrightarrow> owns e q \<subseteq> hl_live (ev_list e)" "q \<noteq> r \<Longrightarrow> owns e q \<inter> owns e r = {}"
    "p \<noteq> q \<Longrightarrow> owns e p \<inter> owns e q = {}" "distinct (ev_multi e m)" for p q m
    using assms by (auto simp: ev_ok_def ev_owners_ok_def)
  have "ev_list_ok ?e"
    using ev_kill_ok [of e "owns e r"] assms by (simp add: ev_ok_def ev_list_ok_def)
  moreover have "ev_locked e \<Longrightarrow> owns ?e q \<subseteq> hl_live (ev_list ?e)" for q
    using o(1) [of q] o(2) [of q] by (auto simp: ev_kill_live)
  moreover have "distinct (ev_multi ?e m)" for m using o(4) by (cases r) (auto simp: ev_forget_def)
  ultimately show ?thesis using o(3) by (simp add: ev_ok_def ev_owners_ok_def)
qed

lemma ev_owned_live: "ev_ok e \<Longrightarrow> ev_locked e \<Longrightarrow> owns e r \<subseteq> hl_live (ev_list e)"
  by (simp add: ev_ok_def ev_owners_ok_def)

lemma es_Reset_eq:
  assumes "ev_ok e"
  shows "es_Reset e s = Some (ev_forget (Sub_Object s) (ev_kill (owns e (Sub_Object s)) e))"
proof (cases "ev_subs e s")
  case None
  then have "e\<lparr>ev_subs := (ev_subs e)(s := None)\<rparr> = e" by (simp add: fun_upd_idem)
  with None show ?thesis by (simp add: es_Reset_def ev_forget_def ev_kill_Un)
next
  case (Some i)
  then have "i \<in> hl_live (ev_list e) \<or> \<not> ev_locked e"
    using ev_owned_live [OF assms, of "Sub_Object s"] by auto
  with Some show ?thesis by (simp add: es_Reset_def ev_forget_def ed_Delete_live)
qed

lemma ms_Reset_eq:
  assumes "ev_ok e"
  shows "ms_Reset e m = Some (ev_forget (Multi_Object m) (ev_kill (owns e (Multi_Object m)) e))"
proof -
  have "distinct (ev_multi e m)" using assms by (simp add: ev_ok_def ev_owners_ok_def)
  then have "ms_delete (ev_multi e m) e = Some (ev_kill (set (ev_multi e m)) e)"
    using assms ev_owned_live [OF assms, of "Multi_Object m"] by (intro ms_delete_live) (auto simp: ev_ok_def)
  then show ?thesis by (simp add: ms_Reset_def ev_forget_def)
qed


lemma owns_list [simp]: "owns (e\<lparr>ev_list := l\<rparr>) r = owns e r"
  by (cases r) simp_all

lemma ev_Add_ok:
  assumes "ev_ok e" "ev_exists e"
  shows "\<exists>i e1. ev_Add e h = Some (i, e1) \<and> ev_ok e1 \<and> ev_exists e1 \<and> i \<in> hl_live (ev_list e1) \<and> (\<forall>r. i \<notin> owns e1 r)"
proof -
  let ?i = "hl_next (ev_list e)" and ?hs = "hl_handlers (ev_list e)"
  let ?x = "\<lparr>st_index = ?i, st_value = h, is_alive = True\<rparr>"
  let ?e = "e\<lparr>ev_list := (ev_list e)\<lparr>hl_handlers := ?hs @ [?x], hl_next := ?i + 1\<rparr>\<rparr>"
  have locked: "ev_locked e" using assms(2) by (simp add: ev_locked_def)
  have live: "hl_live (ev_list ?e) = insert ?i (hl_live (ev_list e))" by (auto simp: hl_live_def intro: image_eqI [where x = ?x])
  have "hl_grows ?hs (?hs @ [?x])" by (simp add: hl_grows_def nth_append)
  then have "fr_ok ?hs f \<Longrightarrow> fr_ok (?hs @ [?x]) f" for f by (rule fr_ok_grows)
  then have "ev_list_ok ?e" using assms(1) by (auto simp: ev_ok_def ev_list_ok_def hl_ok_def)
  moreover have "ev_owners_ok ?e"
    using assms(1) live locked by (auto simp: ev_ok_def ev_owners_ok_def)
  moreover have "?i \<notin> owns e r" for r
    using ev_owned_live [OF assms(1) locked, of r] assms(1)
    by (fastforce simp: hl_live_def ev_ok_def ev_list_ok_def hl_ok_def)
  ultimately show ?thesis
    using assms(2) live by (auto simp: ev_Add_def hl_Insert_def ev_ok_def)
qed

lemma ev_list_ok_owner [simp]:
  "ev_list_ok (e\<lparr>ev_subs := f\<rparr>) = ev_list_ok e" "ev_list_ok (e\<lparr>ev_multi := g\<rparr>) = ev_list_ok e"
  "ev_locked (e\<lparr>ev_subs := f\<rparr>) = ev_locked e" "ev_locked (e\<lparr>ev_multi := g\<rparr>) = ev_locked e"
  by (simp_all add: ev_list_ok_def ev_locked_def)

lemma owns_upd:
  "owns (e\<lparr>ev_subs := (ev_subs e)(s := i)\<rparr>) r = (if r = Sub_Object s then set_option i else owns e r)"
  "owns (e\<lparr>ev_multi := (ev_multi e)(m := is)\<rparr>) r = (if r = Multi_Object m then set is else owns e r)"
  by (cases r; simp)+

lemma ev_ok_grantI:
  assumes "ev_ok e" "i \<in> hl_live (ev_list e)" "\<forall>r. i \<notin> owns e r" "ev_list_ok e'" "ev_list e' = ev_list e"
    "ev_locked e' = ev_locked e" "\<forall>r. owns e' r = (if r = p then insert i (owns e r) else owns e r)"
    "\<forall>m. distinct (ev_multi e' m)"
  shows "ev_ok e'"
proof -
  have "owns e' q \<inter> owns e' r = {}" if "q \<noteq> r" for q r
    using assms(1,3,7) that by (auto simp: ev_ok_def ev_owners_ok_def)
  with assms show ?thesis by (auto simp: ev_ok_def ev_owners_ok_def)
qed

lemma ev_ok_grant:
  assumes "ev_ok e" "i \<in> hl_live (ev_list e)" "\<forall>r. i \<notin> owns e r"
  shows "ev_subs e s = None \<Longrightarrow> ev_ok (e\<lparr>ev_subs := (ev_subs e)(s := Some i)\<rparr>)"
    "ev_ok (e\<lparr>ev_multi := (ev_multi e)(m := ev_multi e m @ [i])\<rparr>)"
proof -
  have ok: "ev_list_ok e" "distinct (ev_multi e k)" for k using assms(1) by (simp_all add: ev_ok_def ev_owners_ok_def)
  have "i \<notin> set (ev_multi e m)" using assms(3) by (metis owns.simps(2))
  then show "ev_ok (e\<lparr>ev_multi := (ev_multi e)(m := ev_multi e m @ [i])\<rparr>)"
    by (intro ev_ok_grantI [OF assms, where p = "Multi_Object m"]) (auto simp: ok owns_upd)
  show "ev_subs e s = None \<Longrightarrow> ev_ok (e\<lparr>ev_subs := (ev_subs e)(s := Some i)\<rparr>)"
    by (intro ev_ok_grantI [OF assms, where p = "Sub_Object s"]) (auto simp: ok owns_upd)
qed

lemma es_assign_ok:
  assumes "ev_ok e" "i \<in> hl_live (ev_list e)" "\<forall>r. i \<notin> owns e r" "ev_exists e"
  shows "\<exists>e'. es_assign e s i = Some e' \<and> ev_ok e'"
proof -
  let ?r = "Sub_Object s"
  let ?e = "ev_forget ?r (ev_kill (owns e ?r) e)"
  have "ev_locked e" using assms(4) by (simp add: ev_locked_def)
  then have "i \<in> hl_live (ev_list ?e)" using assms(2,3) by (simp add: ev_kill_live del: owns.simps)
  moreover have "\<forall>r. i \<notin> owns ?e r" using assms(3) by simp
  moreover have "ev_subs ?e s = None" by (simp add: ev_forget_def)
  ultimately have "ev_ok (?e\<lparr>ev_subs := (ev_subs ?e)(s := Some i)\<rparr>)"
    using ev_forget_kill_ok [OF assms(1)] by (intro ev_ok_grant)
  then show ?thesis by (simp add: es_assign_def es_Reset_eq [OF assms(1)])
qed

lemma ms_add_ok:
  assumes "ev_ok e" "i \<in> hl_live (ev_list e)" "\<forall>r. i \<notin> owns e r" "ev_exists e"
  shows "\<exists>e'. ms_add e m i = Some e' \<and> ev_ok e'"
proof -
  have locked: "ev_locked e" using assms(4) by (simp add: ev_locked_def)
  have "ms_keep e (ev_multi e m) = Some (ev_multi e m)"
    using ms_keep_live [of e "ev_multi e m"] ev_owned_live [OF assms(1) locked, of "Multi_Object m"] assms(1) locked
    by (simp add: ev_ok_def)
  then show ?thesis using ev_ok_grant(2) [OF assms(1-3), of m] by (simp add: ms_add_def ms_CleanUp_def)
qed

lemma ev_ok_swap:
  assumes "ev_ok e" "s \<noteq> t"
  shows "ev_ok (e\<lparr>ev_subs := (ev_subs e)(s := ev_subs e t, t := None)\<rparr>)"
proof -
  let ?e = "e\<lparr>ev_subs := (ev_subs e)(s := ev_subs e t, t := None)\<rparr>"
  have swap: "owns ?e r = (if r = Sub_Object s then owns e (Sub_Object t) else if r = Sub_Object t then {} else owns e r)" for r
    using assms(2) by (cases r) auto
  have "owns ?e q \<inter> owns ?e r = {}" if "q \<noteq> r" for q r
    using assms(1) that unfolding swap by (auto simp: ev_ok_def ev_owners_ok_def simp del: owns.simps)
  then show ?thesis using assms(1) swap by (auto simp: ev_ok_def ev_owners_ok_def simp del: owns.simps)
qed

lemma es_move_ok:
  assumes "ev_ok e"
  shows "\<exists>e'. es_move e s t = Some e' \<and> ev_ok e'"
  using ev_ok_swap [OF ev_forget_kill_ok [OF assms, of "Sub_Object s"], of s t] assms
  by (auto simp: es_move_def es_Reset_eq [OF assms] simp del: owns.simps)

lemma ev_ok_same:
  assumes "ev_ok e" "ev_list_ok e'" "hl_live (ev_list e') = hl_live (ev_list e)" "same_owners e e'"
    "ev_locked e' \<Longrightarrow> ev_locked e"
  shows "ev_ok e'"
proof -
  have "owns e' r = owns e r" for r using assms(4) by (cases r) auto
  with assms show ?thesis by (auto simp: ev_ok_def ev_owners_ok_def)
qed

lemma ev_apply_ok:
  assumes "ev_ok e" "ev_enabled op e"
  shows "\<exists>e'. ev_apply op e = Some e' \<and> ev_ok e'"
proof (cases op)
  case (Subscribe s h)
  then obtain i e1 where "ev_Add e h = Some (i, e1)" "ev_ok e1" "ev_exists e1" "i \<in> hl_live (ev_list e1)" "\<forall>r. i \<notin> owns e1 r"
    using ev_Add_ok assms by fastforce
  with Subscribe show ?thesis using es_assign_ok by auto
next
  case (SubscribeMulti m h)
  then obtain i e1 where "ev_Add e h = Some (i, e1)" "ev_ok e1" "ev_exists e1" "i \<in> hl_live (ev_list e1)" "\<forall>r. i \<notin> owns e1 r"
    using ev_Add_ok assms by fastforce
  with SubscribeMulti show ?thesis using ms_add_ok by auto
next
  case (SubscribeForever h)
  then show ?thesis using ev_Add_ok [OF assms(1), of h] assms(2) by auto
next
  case (TestSub s)
  have "\<exists>b. es_bool e s = Some b"
  proof (cases "ev_subs e s")
    case (Some i)
    then have "ed_alive e i = Some (ev_locked e)"
      using assms(1) ev_owned_live [OF assms(1), of "Sub_Object s"] by (intro ed_alive_live) (auto simp: ev_ok_def)
    with Some show ?thesis by (simp add: es_bool_def)
  qed (auto simp: es_bool_def)
  with TestSub assms(1) show ?thesis by auto
next
  case Emit
  then obtain e' where "ev_Emit e = Some e'" "ev_list_ok e'" "hl_live (ev_list e') = hl_live (ev_list e)" "same_owners e e'"
    using ev_Emit_ok [of e] assms by (auto simp: ev_ok_def)
  with Emit assms show ?thesis using ev_ok_same [of e e'] by (auto simp: ev_locked_def)
next
  case Return
  then obtain e' where "ev_Return e = Some e'" "ev_list_ok e'" "hl_live (ev_list e') = hl_live (ev_list e)" "same_owners e e'"
    using ev_Return_ok [of e] assms by (auto simp: ev_ok_def)
  with Return assms show ?thesis using ev_ok_same [of e e'] by (auto simp: ev_locked_def)
next
  case Destroy
  have "owns (e\<lparr>ev_exists := False\<rparr>) r = owns e r" for r by (cases r) auto
  with Destroy assms show ?thesis by (auto simp: ev_ok_def ev_list_ok_def ev_owners_ok_def ev_locked_def)
next
  case (ResetSub s)
  then show ?thesis using es_Reset_eq [OF assms(1)] ev_forget_kill_ok [OF assms(1), of "Sub_Object s"] by simp
next
  case (ResetMulti m)
  then show ?thesis using ms_Reset_eq [OF assms(1)] ev_forget_kill_ok [OF assms(1), of "Multi_Object m"] by simp
next
  case (MoveSub s t)
  then show ?thesis using es_move_ok [OF assms(1)] by simp
qed

lemma ev_reach_ok: "ev_reach e \<Longrightarrow> ev_ok e"
proof (induction rule: ev_reach.induct)
  case ev_reach_make
  then show ?case by (rule ev_ok_make)
next
  case (ev_reach_step e op e')
  then show ?case using ev_apply_ok [of e op] by auto
qed


subsection \<open>Correctness\<close>

lemma ev_Return_cases:
  assumes "ev_list_ok e" "ev_stack e = f # fs"
  defines "hs \<equiv> hl_handlers (ev_list e)"
  shows "\<exists>e'. ev_Return e = Some e' \<and>
    ((\<exists>i < it_size (fr_it f). it_index (fr_it f) < i \<and> is_alive (hs ! i) \<and>
        (\<forall>j. it_index (fr_it f) < j \<and> j < i \<longrightarrow> \<not> is_alive (hs ! j)) \<and>
        length (ev_stack e') = Suc (length fs) \<and> ev_calls e' = ev_calls e @ [st_value (hs ! i)]) \<or>
     (ev_stack e' = fs \<and> ev_calls e' = ev_calls e \<and>
      in_order (fr_called f) (hl_indexes (take (Suc (it_index (fr_it f))) hs)) \<and>
      (\<forall>j < it_size (fr_it f). is_alive (hs ! j) \<longrightarrow> st_index (hs ! j) \<in> set (fr_called f))))"
proof -
  have ok: "hl_ok (ev_list e)" "fr_ok hs f" using assms by (auto simp: ev_list_ok_def)
  obtain it where it: "it_next (ev_list e) (fr_it f) = Some it" "it_size it = it_size (fr_it f)"
    "fr_pre hs (Suc (it_index (fr_it f))) (f\<lparr>fr_it := it\<rparr>)"
    using fr_pre_next [OF ok(1)] ok(2) by (auto simp: hs_def)
  have first: "it_first hs (Suc (it_index (fr_it f))) (it_size it) it" and sz: "it_size it \<le> length hs"
    and en: "it_index (fr_end f) = it_size it"
    using it(3) by (simp_all add: fr_pre_def)
  let ?e = "e\<lparr>ev_stack := fs\<rparr>"
  have ret: "ev_Return e = ev_loop ?e (f\<lparr>fr_it := it\<rparr>)" using assms(2) it(1) by (simp add: ev_Return_def)
  show ?thesis
  proof (cases "it_index it = it_size it")
    case True
    then have "ev_Return e = Some (?e\<lparr>ev_list := ia_destroy (ev_list e)\<rparr>)" using en by (simp add: ret ev_loop_def)
    moreover have "is_alive (hs ! j) \<longrightarrow> st_index (hs ! j) \<in> set (fr_called f)" if "j < it_size (fr_it f)" for j
      using True first that it(2) ok(2) by (cases "j \<le> it_index (fr_it f)") (auto simp: it_first_def fr_ok_def)
    ultimately show ?thesis using ok(2) by (auto simp: fr_ok_def)
  next
    case False
    then have lt: "it_index it < it_size it" using first by (simp add: it_first_def)
    moreover have "find (\<lambda>x. st_index x = st_index (hs ! it_index it)) hs = Some (hs ! it_index it)"
      using ok(1) lt sz by (intro find_index_nth) (auto simp: hl_ok_def hs_def)
    ultimately show ?thesis using first en it(2) by (auto simp: ret ev_loop_def it_get_def it_first_def hs_def)
  qed
qed

lemma ev_reach_list_ok: "ev_reach e \<Longrightarrow> ev_list_ok e"
  using ev_reach_ok ev_ok_def by blast

lemma ev_run_reach: "ev_run ops e = Some e' \<Longrightarrow> ev_reach e \<Longrightarrow> ev_reach e'"
  by (induction ops arbitrary: e) (auto split: bind_splits if_splits intro: ev_reach_step)

lemmas ev_eval = ev_make_def hl_make_def ev_Add_def hl_Insert_def es_assign_def es_Reset_def ev_Emit_def hl_Iterator_def
  it_make.simps ev_loop_def it_get_def ed_Delete_def hl_Remove_def ev_locked_def

text \<open>
  (C0) Whatever the handlers of an event do, nothing undefined happens: in every state that a program
  can reach by subscribing, resetting, moving and testing subscriptions, emitting the event from anywhere, returning from
  handlers and destroying the event, every further operation is defined, and the
  handler of every subscription object is still in the list and alive.
\<close>

theorem event_operations_defined:
  assumes "ev_reach e" "ev_enabled op e"
  shows "\<exists>e'. ev_apply op e = Some e' \<and>
    (\<forall>s i. ev_locked e' \<and> ev_subs e' s = Some i \<longrightarrow> hl_Alive (ev_list e') i = Some True)"
proof -
  obtain e' where e': "ev_apply op e = Some e'" "ev_ok e'" using ev_apply_ok [OF ev_reach_ok] assms by blast
  have "hl_Alive (ev_list e') i = Some True" if "ev_locked e'" "ev_subs e' s = Some i" for s i
    using ed_alive_live [of e' i] ev_owned_live [OF e'(2), of "Sub_Object s"] e'(2) that
    by (auto simp: ev_ok_def ed_alive_def)
  with e' show ?thesis by blast
qed

theorem event_operations_defined_witness:
  "\<exists>e e'. ev_run [Subscribe 0 True, Subscribe 1 False, Emit, ResetSub 1, Destroy] ev_make = Some e \<and>
     ev_apply Return e = Some e'"
proof -
  let ?ops = "[Subscribe 0 True, Subscribe 1 False, Emit, ResetSub 1, Destroy]"
  let ?e = "the (ev_run ?ops ev_make)"
  have run: "ev_run ?ops ev_make = Some ?e" by (simp add: ev_eval)
  have "ev_reach ?e" by (rule ev_run_reach [OF run ev_reach_make])
  moreover have "ev_enabled Return ?e" by (simp add: ev_eval)
  ultimately show ?thesis using run event_operations_defined [of ?e Return] by blast
qed

text \<open>
  (C0) Delivery.  When a handler returns to the emission that invoked it, the emission either
  invokes the next handler that is alive at this moment and was in the list when the emission began, skipping
  only dead ones, or it ends, and then it has invoked every handler of its part of the list that is alive, each of them once
  and in the order of subscription.
\<close>

theorem emission_reaches_live_handlers:
  assumes "ev_reach e" "ev_stack e = f # fs"
  shows "\<exists>e'. ev_Return e = Some e' \<and>
    ((\<exists>i < it_size (fr_it f). it_index (fr_it f) < i \<and> is_alive (hl_handlers (ev_list e) ! i) \<and>
        (\<forall>j. it_index (fr_it f) < j \<and> j < i \<longrightarrow> \<not> is_alive (hl_handlers (ev_list e) ! j)) \<and>
        length (ev_stack e') = Suc (length fs) \<and> ev_calls e' = ev_calls e @ [st_value (hl_handlers (ev_list e) ! i)]) \<or>
     (ev_stack e' = fs \<and> ev_calls e' = ev_calls e \<and>
      in_order (fr_called f) (hl_indexes (take (Suc (it_index (fr_it f))) (hl_handlers (ev_list e)))) \<and>
      (\<forall>j < it_size (fr_it f). is_alive (hl_handlers (ev_list e) ! j) \<longrightarrow>
         st_index (hl_handlers (ev_list e) ! j) \<in> set (fr_called f))))"
  by (rule ev_Return_cases [OF ev_reach_list_ok [OF assms(1)] assms(2)])

theorem emission_reaches_live_handlers_witness:
  "\<exists>e e'. ev_run [Subscribe 0 True, Subscribe 1 False, SubscribeForever True, Emit, ResetSub 1] ev_make = Some e \<and>
     ev_Return e = Some e' \<and> ev_calls e' = [True, True]"
proof -
  let ?ops = "[Subscribe 0 True, Subscribe 1 False, SubscribeForever True, Emit, ResetSub 1]"
  let ?e = "the (ev_run ?ops ev_make)"
  have run: "ev_run ?ops ev_make = Some ?e" by (simp add: ev_eval)
  have reach: "ev_reach ?e" by (rule ev_run_reach [OF run ev_reach_make])
  have "ev_stack ?e = hd (ev_stack ?e) # tl (ev_stack ?e)" by (simp add: ev_eval)
  from emission_reaches_live_handlers [OF reach this] obtain e' where "ev_Return ?e = Some e'" by blast
  moreover from this have "ev_calls e' = [True, True]"
    by (simp add: ev_eval ev_Return_def it_next_def it_inc.simps hl_behind_def) (auto simp: ev_eval)
  ultimately show ?thesis using run by blast
qed


subsection \<open>Handlers that are never reclaimed\<close>

text \<open>An event whose handlers were all removed, after \<open>n\<close> subscriptions of \<open>h\<close>.\<close>

definition ev_dead :: "'h \<Rightarrow> nat \<Rightarrow> 'h event" where
  "ev_dead h n = ev_make\<lparr>ev_list := \<lparr>hl_handlers = map (\<lambda>i. \<lparr>st_index = i, st_value = h, is_alive = False\<rparr>) [0..<n],
                                    hl_next = n, use_counter = 0\<rparr>\<rparr>"

lemma ev_Emit_no_live:
  assumes "ev_exists e" "use_counter (ev_list e) = 0"
    "\<forall>j < u16 (length (hl_handlers (ev_list e))). \<not> is_alive (hl_handlers (ev_list e) ! j)"
  shows "ev_Emit e = Some (e\<lparr>ev_list := hl_CleanUp (ev_list e)\<rparr>)"
proof -
  obtain b en where it: "hl_Iterator (ev_list e) = Some (b, en, (ev_list e)\<lparr>use_counter := use_counter (ev_list e) + 1\<rparr>)"
    "fr_pre (hl_handlers (ev_list e)) 0 \<lparr>fr_it = b, fr_end = en, fr_called = []\<rparr>"
    using hl_Iterator_first by blast
  have "it_size b = u16 (length (hl_handlers (ev_list e)))"
    using it(1) it_make_first [of 0 "u16 (length (hl_handlers (ev_list e)))" "hl_handlers (ev_list e)"]
      u16_le [of "length (hl_handlers (ev_list e))"]
    by (auto simp: hl_Iterator_def Let_def it_first_def split: bind_splits)
  then have "it_index b = it_index en" using it(2) assms(3)
    by (auto simp: fr_pre_def it_first_def dest: le_neq_implies_less)
  then have "ev_Emit e = Some (e\<lparr>ev_list := hl_CleanUp ((ev_list e)\<lparr>use_counter := 0\<rparr>)\<rparr>)"
    using assms(1,2) it(1) by (simp add: ev_Emit_def ev_loop_def ia_destroy_def Let_def)
  moreover have "(ev_list e)\<lparr>use_counter := 0\<rparr> = ev_list e" using assms(2) by (cases "ev_list e") simp
  ultimately show ?thesis by (simp only:)
qed

lemma hl_CleanUp_dead: "hl_CleanUp (ev_list (ev_dead h n)) = ev_list (ev_dead h n)"
proof -
  have all: "takeWhile (\<lambda>x. \<not> is_alive x) (rev (hl_handlers (ev_list (ev_dead h n)))) = rev (hl_handlers (ev_list (ev_dead h n)))"
    by (subst takeWhile_eq_all_conv) (auto simp: ev_dead_def)
  show ?thesis unfolding hl_CleanUp_def Let_def all by simp
qed

lemma ev_dead_Subscribe:
  "ev_apply (Subscribe 0 h) (ev_dead h n) =
     Some ((ev_dead h n)\<lparr>ev_list := \<lparr>hl_handlers = hl_handlers (ev_list (ev_dead h n)) @ [\<lparr>st_index = n, st_value = h, is_alive = True\<rparr>],
                                   hl_next = Suc n, use_counter = 0\<rparr>, ev_subs := [0 \<mapsto> n]\<rparr>)"
  by (simp add: ev_dead_def ev_make_def ev_Add_def hl_Insert_def es_assign_def es_Reset_def)

lemma ev_dead_round: "ev_run [Subscribe 0 h, ResetSub 0, Emit] (ev_dead h n) = Some (ev_dead h (Suc n))"
proof -
  let ?e = "(ev_dead h n)\<lparr>ev_list := \<lparr>hl_handlers = hl_handlers (ev_list (ev_dead h n)) @ [\<lparr>st_index = n, st_value = h, is_alive = True\<rparr>],
                                   hl_next = Suc n, use_counter = 0\<rparr>, ev_subs := [0 \<mapsto> n]\<rparr>"
  have "es_Reset ?e 0 = Some (ev_dead h (Suc n))"
    by (simp add: es_Reset_def ed_Delete_def hl_Remove_def ev_locked_def ev_dead_def ev_make_def)
  moreover have "ev_Emit (ev_dead h (Suc n)) = Some (ev_dead h (Suc n))"
  proof -
    have "\<not> is_alive (hl_handlers (ev_list (ev_dead h (Suc n))) ! j)" if "j < u16 (Suc n)" for j
      using that u16_le(1) [of "Suc n"] by (simp add: ev_dead_def del: upt_Suc)
    then have "ev_Emit (ev_dead h (Suc n)) = Some ((ev_dead h (Suc n))\<lparr>ev_list := hl_CleanUp (ev_list (ev_dead h (Suc n)))\<rparr>)"
      by (intro ev_Emit_no_live) (simp_all add: ev_dead_def ev_make_def)
    then show ?thesis by (simp add: hl_CleanUp_dead)
  qed
  moreover have "ev_exists (ev_dead h m)" "ev_stack (ev_dead h m) = []" for m by (simp_all add: ev_dead_def ev_make_def)
  ultimately show ?thesis using ev_dead_Subscribe [of h n] by simp
qed

lemma ev_run_append: "ev_run (ops @ ops') e = Option.bind (ev_run ops e) (ev_run ops')"
  by (induction ops arbitrary: e) (simp_all add: bind_assoc split: bind_splits)

lemma ev_dead_rounds:
  "ev_run (concat (replicate n [Subscribe 0 h, ResetSub 0, Emit])) (ev_dead h m) = Some (ev_dead h (m + n))"
proof (induction n arbitrary: m)
  case (Suc n)
  then show ?case using ev_dead_round [of h m] by (simp add: ev_run_append del: ev_run.simps append.simps append_Cons)
qed simp

lemma ev_dead_0: "ev_make = ev_dead h 0"
  by (simp add: ev_dead_def ev_make_def hl_make_def)

text \<open>
  (C0) The handlers of an event that has lost all its subscriptions are never reclaimed: after \<open>n\<close>
  rounds of subscribing, resetting the subscription and emitting, the list holds \<open>n\<close> dead handlers.  Since an
  emission keeps the size of the list in sixteen bits, the handler subscribed after 65535 such rounds is alive and is not invoked.
\<close>

theorem dead_handlers_pile_up:
  "map_option (\<lambda>e. length (hl_handlers (ev_list e)))
     (ev_run (concat (replicate n [Subscribe 0 h, ResetSub 0, Emit])) ev_make) = Some n \<and>
   (\<exists>e. ev_run (concat (replicate 65535 [Subscribe 0 h, ResetSub 0, Emit]) @ [Subscribe 0 h, Emit]) ev_make = Some e \<and>
      es_bool e 0 = Some True \<and> ev_calls e = [])"
proof -
  let ?e = "(ev_dead h 65535)\<lparr>ev_list := \<lparr>hl_handlers = hl_handlers (ev_list (ev_dead h 65535)) @ [\<lparr>st_index = 65535, st_value = h, is_alive = True\<rparr>],
                                   hl_next = Suc 65535, use_counter = 0\<rparr>, ev_subs := [0 \<mapsto> 65535]\<rparr>"
  have len: "length (hl_handlers (ev_list (ev_dead h m))) = m" for m by (simp add: ev_dead_def)
  then have "u16 (length (hl_handlers (ev_list ?e))) = 0" by (simp add: u16_def)
  then have "ev_Emit ?e = Some (?e\<lparr>ev_list := hl_CleanUp (ev_list ?e)\<rparr>)"
    by (intro ev_Emit_no_live) (auto simp: ev_dead_def ev_make_def simp del: upt_Suc)
  moreover have "hl_CleanUp (ev_list ?e) = ev_list ?e" by (simp add: hl_CleanUp_def Let_def)
  moreover have "ev_exists ?e" "ev_stack ?e = []" "ev_exists (ev_dead h 65535)" by (simp_all add: ev_dead_def ev_make_def)
  ultimately have "ev_run [Subscribe 0 h, Emit] (ev_dead h 65535) = Some ?e" using ev_dead_Subscribe [of h 65535] by simp
  then have run: "ev_run (concat (replicate 65535 [Subscribe 0 h, ResetSub 0, Emit]) @ [Subscribe 0 h, Emit]) ev_make = Some ?e"
    using ev_dead_rounds [of 65535 h 0] by (simp add: ev_run_append ev_dead_0 [of h] del: ev_run.simps replicate.simps)
  moreover have "ev_calls ?e = []" by (simp add: ev_dead_def ev_make_def)
  moreover have "es_bool ?e 0 = Some True"
  proof -
    have ok: "ev_ok ?e" by (rule ev_reach_ok [OF ev_run_reach [OF run ev_reach_make]])
    have "ev_locked ?e" by (simp add: ev_locked_def ev_dead_def ev_make_def)
    then have "ed_alive ?e 65535 = Some True"
      using ed_alive_live [of ?e 65535] ev_owned_live [OF ok, of "Sub_Object 0"] ok by (simp add: ev_ok_def)
    then show ?thesis by (simp add: es_bool_def)
  qed
  moreover have "map_option (\<lambda>e. length (hl_handlers (ev_list e)))
      (ev_run (concat (replicate n [Subscribe 0 h, ResetSub 0, Emit])) ev_make) = Some n"
    using ev_dead_rounds [of n h 0] by (simp add: ev_dead_0 [of h] len)
  ultimately show ?thesis using run by blast
qed

end
