(* ===== verification/Std_Sort.thy ===== *)
theory Std_Sort
  imports Aether_Prelude "HOL-Library.Multiset"
begin

text \<open>
  \<^verbatim>\<open>std::sort\<close> with a comparison.  The standard asks the comparison to be a strict weak order, the locale below, and leaves the
  order of equivalent elements open; here it is the order in which an insertion sort keeps them.
\<close>

fun sort_insert :: "('a \<Rightarrow> 'a \<Rightarrow> bool) \<Rightarrow> 'a \<Rightarrow> 'a list \<Rightarrow> 'a list" where
  "sort_insert before x [] = [x]"
| "sort_insert before x (y # ys) = (if before y x then y # sort_insert before x ys else x # y # ys)"

definition std_sort :: "('a \<Rightarrow> 'a \<Rightarrow> bool) \<Rightarrow> 'a list \<Rightarrow> 'a list" where
  "std_sort before xs = foldr (sort_insert before) xs []"

lemma mset_sort_insert [simp]: "mset (sort_insert before x xs) = add_mset x (mset xs)"
  by (induction xs) auto

lemma mset_std_sort [simp]: "mset (std_sort before xs) = mset xs"
  by (induction xs) (simp_all add: std_sort_def)

lemma set_std_sort [simp]: "set (std_sort before xs) = set xs"
  by (metis mset_std_sort set_mset_mset)

lemma length_std_sort [simp]: "length (std_sort before xs) = length xs"
  by (metis mset_std_sort size_mset)

lemma distinct_std_sort [simp]: "distinct (std_sort before xs) = distinct xs"
  by (metis mset_eq_imp_distinct_iff mset_std_sort)

locale strict_weak_order =
  fixes before :: "'a \<Rightarrow> 'a \<Rightarrow> bool"
  assumes asym: "before x y \<Longrightarrow> \<not> before y x"
    and not_before_trans: "\<not> before y x \<Longrightarrow> \<not> before z y \<Longrightarrow> \<not> before z x"
begin

lemma sorted_insert:
  "sorted_wrt (\<lambda>x y. \<not> before y x) xs \<Longrightarrow> sorted_wrt (\<lambda>x y. \<not> before y x) (sort_insert before x xs)"
proof (induction xs)
  case (Cons y ys)
  have set: "set (sort_insert before x ys) = insert x (set ys)"
    by (metis mset_sort_insert set_mset_add_mset_insert set_mset_mset)
  have y: "\<forall>z \<in> set ys. \<not> before z y" using Cons.prems by simp
  show ?case
  proof (cases "before y x")
    case True
    then have "\<forall>z \<in> insert x (set ys). \<not> before z y" using y asym by blast
    with True Cons set show ?thesis by simp
  next
    case False
    then have "\<forall>z \<in> set ys. \<not> before z x" using y not_before_trans by blast
    with False Cons.prems show ?thesis by simp
  qed
qed simp

lemma std_sort_sorted: "sorted_wrt (\<lambda>x y. \<not> before y x) (std_sort before xs)"
  by (induction xs) (simp_all add: std_sort_def sorted_insert)

end

end
