(* ===== verification/Server_Connection.thy ===== *)
theory Server_Connection
  imports Std_Sort
begin

text \<open>
  \<^verbatim>\<open>aether/server_connections/server_connection.cpp\<close>: the connection to a server over one of its channels.

  The channels of a server are kept in an order of preference.  A \<^verbatim>\<open>ChannelSelectAction\<close> builds the transport of the first channel that
  has not failed; when it is built its stream becomes the stream of the connection, and a link error
  of that stream starts the next selection.  Channels are known by their position in the list of entries.

  The transports themselves are not part of the component: their results, the state of their streams and the data they
  deliver are operations of a run, as are the deferred tasks of the scheduler.  A failed assertion, a
  null pointer that is dereferenced and an uninitialised pointer that is read are faults, values of \<open>sc_fault\<close>.
  The events the component emits are recorded in order.
\<close>

subsection \<open>Channels\<close>

datatype connection_type = kConnectionFull | kConnectionLess

datatype reliability = kReliable | kUnreliable

record channel =
  ch_max_packet_size :: nat
  ch_rec_packet_size :: nat
  ch_connection_type :: connection_type
  ch_reliability :: reliability
  ch_TransportBuildTimeout :: nat
  ch_ResponseTimeout :: nat

fun connection_type_value :: "connection_type \<Rightarrow> nat" where
  "connection_type_value kConnectionFull = 0"
| "connection_type_value kConnectionLess = 1"

text \<open>The comparison by which the channels are sorted.\<close>

definition ch_faster :: "channel \<Rightarrow> channel \<Rightarrow> bool" where
  "ch_faster left right =
     (if ch_connection_type left \<noteq> ch_connection_type right
      then connection_type_value (ch_connection_type right) < connection_type_value (ch_connection_type left)
      else if ch_TransportBuildTimeout left \<noteq> ch_TransportBuildTimeout right
      then ch_TransportBuildTimeout left < ch_TransportBuildTimeout right
      else ch_ResponseTimeout left < ch_ResponseTimeout right)"


subsection \<open>State\<close>

datatype link_state = kUnlinked | kLinked | kLinkError

record stream_info =
  rec_element_size :: nat
  max_element_size :: nat
  is_reliable :: bool
  si_link_state :: link_state
  is_writable :: bool

text \<open>
  An entry holds the channel and its \<^verbatim>\<open>ChannelConnection\<close>: the link state of the transport stream, once there is one, and
  whether a transport is being built.
\<close>

record channel_entry =
  ce_channel :: channel
  ce_failed :: bool
  ce_stream :: "link_state option"
  ce_waiter :: bool

datatype select_task = NoTask | SelectedTask | FailedTask

record select_action =
  sa_top_channel :: nat
  sa_task :: select_task
  sa_finished :: bool

text \<open>The constructor does not initialise \<^verbatim>\<open>top_channel_\<close>.\<close>

datatype top_channel = Uninitialised | Entry nat

datatype deferred = NoDefer | DeferredServerError

datatype 'd sc_event = StreamUpdate | ChannelChanged | ServerErrorEvent | OutData 'd

record 'd server_connection =
  sc_full_connected :: bool
  sc_top_channel :: top_channel
  sc_channels :: "channel_entry list"
  sc_select :: "select_action option"
  sc_stream_info :: stream_info
  sc_update_sub :: "nat option"
  sc_out_data_sub :: "nat option"
  sc_defer_sub :: deferred
  sc_events :: "'d sc_event list"

datatype sc_fault = UninitialisedPointer | NullPointer | AssertionFailed

abbreviation sc_emit :: "'d sc_event \<Rightarrow> 'd server_connection \<Rightarrow> 'd server_connection" where
  "sc_emit ev s \<equiv> s\<lparr>sc_events := sc_events s @ [ev]\<rparr>"

abbreviation ce_update :: "nat \<Rightarrow> (channel_entry \<Rightarrow> channel_entry) \<Rightarrow> 'd server_connection \<Rightarrow> 'd server_connection" where
  "ce_update k f s \<equiv> s\<lparr>sc_channels := (sc_channels s)[k := f (sc_channels s ! k)]\<rparr>"


subsection \<open>Selecting a channel\<close>

definition ch_entry :: "channel \<Rightarrow> channel_entry" where
  "ch_entry c = \<lparr>ce_channel = c, ce_failed = False, ce_stream = None, ce_waiter = False\<rparr>"

definition sc_InitChannels :: "channel list \<Rightarrow> channel_entry list" where
  "sc_InitChannels channels = map ch_entry (std_sort ch_faster channels)"

fun find_not_failed :: "channel_entry list \<Rightarrow> nat option" where
  "find_not_failed [] = None"
| "find_not_failed (e # es) = (if \<not> ce_failed e then Some 0 else map_option Suc (find_not_failed es))"

definition sc_TopChannel :: "'d server_connection \<Rightarrow> nat option" where
  "sc_TopChannel s = find_not_failed (sc_channels s)"

definition sc_DeferServerError :: "'d server_connection \<Rightarrow> 'd server_connection" where
  "sc_DeferServerError s =
     s\<lparr>sc_stream_info := (sc_stream_info s)\<lparr>is_writable := False\<rparr>, sc_defer_sub := DeferredServerError\<rparr>"

text \<open>The constructor of \<^verbatim>\<open>ChannelSelectAction\<close> starts to build the transport of the channel.\<close>

definition sa_make :: "nat \<Rightarrow> 'd server_connection \<Rightarrow> 'd server_connection" where
  "sa_make k s =
     (ce_update k (\<lambda>e. e\<lparr>ce_waiter := True\<rparr>) s)
       \<lparr>sc_select := Some \<lparr>sa_top_channel = k, sa_task = NoTask, sa_finished = False\<rparr>\<rparr>"

definition sc_SelectChannel :: "'d server_connection \<Rightarrow> 'd server_connection" where
  "sc_SelectChannel s =
     (if (case sc_select s of Some a \<Rightarrow> \<not> sa_finished a | None \<Rightarrow> False) then s
      else case sc_TopChannel s of
        None \<Rightarrow> sc_DeferServerError s
      | Some k \<Rightarrow>
          (let s1 = sc_emit StreamUpdate
                      (s\<lparr>sc_stream_info := (sc_stream_info s)\<lparr>si_link_state := kUnlinked, is_writable := False\<rparr>\<rparr>);
               s2 = sa_make k s1
           in sc_emit StreamUpdate (sc_emit ChannelChanged s2)))"

text \<open>The members of \<^verbatim>\<open>stream_info_\<close> start with indeterminate values, here the argument \<open>info\<close>.\<close>

definition sc_make :: "stream_info \<Rightarrow> channel list \<Rightarrow> 'd server_connection" where
  "sc_make info channels =
     sc_SelectChannel
       \<lparr>sc_full_connected = False, sc_top_channel = Uninitialised, sc_channels = sc_InitChannels channels, sc_select = None,
        sc_stream_info = info, sc_update_sub = None, sc_out_data_sub = None, sc_defer_sub = NoDefer, sc_events = []\<rparr>"


subsection \<open>Updates and errors\<close>

definition sc_ChannelUpdated :: "nat \<Rightarrow> 'd server_connection \<Rightarrow> sc_fault + 'd server_connection" where
  "sc_ChannelUpdated k s =
     (let s1 = s\<lparr>sc_top_channel := Entry k\<rparr>; e = sc_channels s ! k
      in case ce_stream e of
           None \<Rightarrow> Inl NullPointer
         | Some link \<Rightarrow>
             if link \<noteq> kLinked then Inl AssertionFailed
             else Inr (sc_emit StreamUpdate
               (s1\<lparr>sc_update_sub := Some k, sc_out_data_sub := Some k,
                   sc_stream_info := \<lparr>rec_element_size = ch_rec_packet_size (ce_channel e),
                                      max_element_size = ch_max_packet_size (ce_channel e),
                                      is_reliable = (ch_reliability (ce_channel e) = kReliable),
                                      si_link_state = kLinked, is_writable = True\<rparr>\<rparr>)))"

definition sc_ServerError :: "'d server_connection \<Rightarrow> 'd server_connection" where
  "sc_ServerError s =
     (let s1 = s\<lparr>sc_update_sub := None, sc_out_data_sub := None,
                 sc_stream_info := (sc_stream_info s)\<lparr>si_link_state := kLinkError, is_writable := False\<rparr>\<rparr>
      in sc_emit StreamUpdate (sc_emit ServerErrorEvent s1))"

definition sc_ChannelError :: "'d server_connection \<Rightarrow> sc_fault + 'd server_connection" where
  "sc_ChannelError s =
     (let s1 = s\<lparr>sc_update_sub := None, sc_out_data_sub := None,
                 sc_stream_info := (sc_stream_info s)\<lparr>is_writable := False\<rparr>\<rparr>
      in case sc_top_channel s1 of
           Uninitialised \<Rightarrow> Inl UninitialisedPointer
         | Entry k \<Rightarrow>
             (let s2 = ce_update k (\<lambda>e. e\<lparr>ce_failed := True\<rparr>) s1
              in Inr (if sc_full_connected s2 then sc_ServerError s2 else sc_SelectChannel s2)))"

definition sc_Restream :: "'d server_connection \<Rightarrow> sc_fault + 'd server_connection" where
  "sc_Restream s = sc_ChannelError s"

definition sc_OnRead :: "'d \<Rightarrow> 'd server_connection \<Rightarrow> 'd server_connection" where
  "sc_OnRead d s = sc_emit (OutData d) (s\<lparr>sc_full_connected := True\<rparr>)"

text \<open>\<^verbatim>\<open>Write\<close> gives the channel whose stream the data is written to.\<close>

definition sc_Write :: "'d server_connection \<Rightarrow> sc_fault + nat" where
  "sc_Write s =
     (if \<not> is_writable (sc_stream_info s) then Inl AssertionFailed
      else case sc_top_channel s of
        Uninitialised \<Rightarrow> Inl UninitialisedPointer
      | Entry k \<Rightarrow> (case ce_stream (sc_channels s ! k) of None \<Rightarrow> Inl AssertionFailed | Some _ \<Rightarrow> Inr k))"


subsection \<open>What happens around the connection\<close>

text \<open>
  The result of building a transport arrives at \<^verbatim>\<open>ChannelConnection\<close>, which keeps the stream and calls back; the select
  action schedules a task in either case.
\<close>

definition sa_BuildResult :: "link_state option \<Rightarrow> 'd server_connection \<Rightarrow> 'd server_connection" where
  "sa_BuildResult res s =
     (case sc_select s of
        None \<Rightarrow> s
      | Some a \<Rightarrow>
          (case res of
             Some link \<Rightarrow> (ce_update (sa_top_channel a) (\<lambda>e. e\<lparr>ce_stream := Some link, ce_waiter := False\<rparr>) s)
                            \<lparr>sc_select := Some (a\<lparr>sa_task := SelectedTask\<rparr>)\<rparr>
           | None \<Rightarrow> (ce_update (sa_top_channel a) (\<lambda>e. e\<lparr>ce_waiter := False\<rparr>) s)
                       \<lparr>sc_select := Some (a\<lparr>sa_task := FailedTask\<rparr>)\<rparr>))"

text \<open>The scheduled task: the handler of the result event runs first, then the action is finished.\<close>

definition sa_Finish :: "'d server_connection \<Rightarrow> 'd server_connection" where
  "sa_Finish s = s\<lparr>sc_select := map_option (\<lambda>a. a\<lparr>sa_task := NoTask, sa_finished := True\<rparr>) (sc_select s)\<rparr>"

definition sa_RunTask :: "'d server_connection \<Rightarrow> sc_fault + 'd server_connection" where
  "sa_RunTask s =
     (case sc_select s of
        None \<Rightarrow> Inr s
      | Some a \<Rightarrow>
          (case sa_task a of
             NoTask \<Rightarrow> Inr s
           | SelectedTask \<Rightarrow> map_sum id sa_Finish (sc_ChannelUpdated (sa_top_channel a) s)
           | FailedTask \<Rightarrow> map_sum id sa_Finish (sc_ChannelError s)))"

text \<open>The stream of a channel reports a new link state, to which the connection may be subscribed, or delivers data.\<close>

definition sc_StreamUpdated :: "nat \<Rightarrow> link_state \<Rightarrow> 'd server_connection \<Rightarrow> sc_fault + 'd server_connection" where
  "sc_StreamUpdated k link s =
     (let s1 = ce_update k (\<lambda>e. e\<lparr>ce_stream := Some link\<rparr>) s
      in if sc_update_sub s1 = Some k \<and> link = kLinkError then sc_ChannelError s1 else Inr s1)"

definition sc_StreamData :: "nat \<Rightarrow> 'd \<Rightarrow> 'd server_connection \<Rightarrow> 'd server_connection" where
  "sc_StreamData k d s = (if sc_out_data_sub s = Some k then sc_OnRead d s else s)"

datatype 'd sc_op =
  BuildResult "link_state option"
| RunSelectTask
| RunDeferred
| StreamState nat link_state
| StreamData nat 'd
| Restream

fun sc_apply :: "'d sc_op \<Rightarrow> 'd server_connection \<Rightarrow> sc_fault + 'd server_connection" where
  "sc_apply (BuildResult res) s = Inr (sa_BuildResult res s)"
| "sc_apply RunSelectTask s = sa_RunTask s"
| "sc_apply RunDeferred s = Inr (sc_ServerError (s\<lparr>sc_defer_sub := NoDefer\<rparr>))"
| "sc_apply (StreamState k link) s = sc_StreamUpdated k link s"
| "sc_apply (StreamData k d) s = Inr (sc_StreamData k d s)"
| "sc_apply Restream s = sc_Restream s"

fun sc_enabled :: "'d sc_op \<Rightarrow> 'd server_connection \<Rightarrow> bool" where
  "sc_enabled (BuildResult res) s =
     (case sc_select s of Some a \<Rightarrow> ce_waiter (sc_channels s ! sa_top_channel a) | None \<Rightarrow> False)"
| "sc_enabled RunSelectTask s = (case sc_select s of Some a \<Rightarrow> sa_task a \<noteq> NoTask | None \<Rightarrow> False)"
| "sc_enabled RunDeferred s = (sc_defer_sub s \<noteq> NoDefer)"
| "sc_enabled (StreamState k link) s = (k < length (sc_channels s) \<and> ce_stream (sc_channels s ! k) \<noteq> None)"
| "sc_enabled (StreamData k d) s = (k < length (sc_channels s) \<and> ce_stream (sc_channels s ! k) \<noteq> None)"
| "sc_enabled Restream s = True"

inductive sc_reach :: "stream_info \<Rightarrow> channel list \<Rightarrow> 'd server_connection \<Rightarrow> bool" for info channels where
  sc_reach_make: "sc_reach info channels (sc_make info channels)"
| sc_reach_step: "sc_reach info channels s \<Longrightarrow> sc_enabled op s \<Longrightarrow> sc_apply op s = Inr s' \<Longrightarrow> sc_reach info channels s'"

text \<open>A run skips the operations for which there is no occasion.\<close>

fun sc_run :: "'d sc_op list \<Rightarrow> 'd server_connection \<Rightarrow> sc_fault + 'd server_connection" where
  "sc_run [] s = Inr s"
| "sc_run (op # ops) s =
     (if sc_enabled op s then (case sc_apply op s of Inl e \<Rightarrow> Inl e | Inr s1 \<Rightarrow> sc_run ops s1) else sc_run ops s)"


subsection \<open>Invariant\<close>

lemma find_not_failed_Some:
  "find_not_failed es = Some k \<longleftrightarrow> k < length es \<and> \<not> ce_failed (es ! k) \<and> (\<forall>j < k. ce_failed (es ! j))"
proof (induction es arbitrary: k)
  case (Cons e es)
  then show ?case by (cases k) (auto simp: nth_Cons split: nat.splits)
qed simp

lemma find_not_failed_None: "find_not_failed es = None \<longleftrightarrow> (\<forall>e \<in> set es. ce_failed e)"
  by (induction es) auto

text \<open>The select action is at work.\<close>

definition sc_selecting :: "'d server_connection \<Rightarrow> bool" where
  "sc_selecting s \<longleftrightarrow> (case sc_select s of Some a \<Rightarrow> \<not> sa_finished a | None \<Rightarrow> False)"

text \<open>
  The entries that matter exist; a select action at work has either a transport under construction or a task
  scheduled; only channels that were connected are marked as failed, and the channel in use is not one of them.
\<close>

definition sa_ok :: "'d server_connection \<Rightarrow> select_action \<Rightarrow> bool" where
  "sa_ok s a \<longleftrightarrow>
     sa_top_channel a < length (sc_channels s) \<and>
     (\<not> sa_finished a \<longleftrightarrow> ce_waiter (sc_channels s ! sa_top_channel a) \<or> sa_task a \<noteq> NoTask) \<and>
     (sa_task a \<noteq> NoTask \<longrightarrow> \<not> ce_waiter (sc_channels s ! sa_top_channel a)) \<and>
     (sa_task a = SelectedTask \<longrightarrow> ce_stream (sc_channels s ! sa_top_channel a) \<noteq> None) \<and>
     (\<not> sa_finished a \<longrightarrow> \<not> ce_failed (sc_channels s ! sa_top_channel a) \<and> \<not> is_writable (sc_stream_info s)) \<and>
     (\<forall>j < sa_top_channel a. ce_failed (sc_channels s ! j))"

definition sc_ok :: "'d server_connection \<Rightarrow> bool" where
  "sc_ok s \<longleftrightarrow>
     (\<forall>e \<in> set (sc_channels s). ce_failed e \<longrightarrow> ce_stream e \<noteq> None) \<and>
     (\<forall>a. sc_select s = Some a \<longrightarrow> sa_ok s a) \<and>
     (\<forall>k. sc_top_channel s = Entry k \<longrightarrow>
        k < length (sc_channels s) \<and> ce_stream (sc_channels s ! k) \<noteq> None \<and>
        (sc_selecting s \<longrightarrow> ce_failed (sc_channels s ! k))) \<and>
     (\<forall>k. sc_update_sub s = Some k \<longrightarrow> sc_top_channel s = Entry k \<and> \<not> sc_selecting s) \<and>
     (\<forall>k. sc_out_data_sub s = Some k \<longrightarrow> sc_top_channel s = Entry k \<and> \<not> sc_selecting s) \<and>
     (sc_defer_sub s \<noteq> NoDefer \<longrightarrow> (\<forall>e \<in> set (sc_channels s). ce_failed e)) \<and>
     (is_writable (sc_stream_info s) \<longrightarrow>
        si_link_state (sc_stream_info s) = kLinked \<and>
        (\<exists>k. sc_top_channel s = Entry k \<and> \<not> ce_failed (sc_channels s ! k) \<and> sc_update_sub s = Some k))"


lemma sc_selecting_simps [simp]:
  "sc_selecting (s\<lparr>sc_select := None\<rparr>) = False" "sc_selecting (s\<lparr>sc_select := Some a\<rparr>) = (\<not> sa_finished a)"
  "sc_selecting (s\<lparr>sc_stream_info := i\<rparr>) = sc_selecting s" "sc_selecting (s\<lparr>sc_events := ev\<rparr>) = sc_selecting s"
  "sc_selecting (s\<lparr>sc_channels := cs\<rparr>) = sc_selecting s" "sc_selecting (s\<lparr>sc_defer_sub := d\<rparr>) = sc_selecting s"
  "sc_selecting (s\<lparr>sc_update_sub := u\<rparr>) = sc_selecting s" "sc_selecting (s\<lparr>sc_out_data_sub := u\<rparr>) = sc_selecting s"
  "sc_selecting (s\<lparr>sc_top_channel := t\<rparr>) = sc_selecting s" "sc_selecting (s\<lparr>sc_full_connected := f\<rparr>) = sc_selecting s"
  by (simp_all add: sc_selecting_def)

lemma sc_SelectChannel_selecting [simp]: "sc_selecting s \<Longrightarrow> sc_SelectChannel s = s"
  by (simp add: sc_SelectChannel_def sc_selecting_def)

lemma sc_SelectChannel_idle:
  assumes "\<not> sc_selecting s"
  shows "sc_SelectChannel s =
    (case find_not_failed (sc_channels s) of
       None \<Rightarrow> sc_DeferServerError s
     | Some k \<Rightarrow>
         s\<lparr>sc_channels := (sc_channels s)[k := (sc_channels s ! k)\<lparr>ce_waiter := True\<rparr>],
           sc_select := Some \<lparr>sa_top_channel = k, sa_task = NoTask, sa_finished = False\<rparr>,
           sc_stream_info := (sc_stream_info s)\<lparr>si_link_state := kUnlinked, is_writable := False\<rparr>,
           sc_events := sc_events s @ [StreamUpdate, ChannelChanged, StreamUpdate]\<rparr>)"
  using assms
  by (auto simp: sc_SelectChannel_def sc_selecting_def sc_TopChannel_def sa_make_def Let_def split: option.splits)

lemma sc_SelectChannel_ok:
  assumes "sc_ok s" "\<not> is_writable (sc_stream_info s)" "sc_update_sub s = None" "sc_out_data_sub s = None"
    "\<And>k. sc_top_channel s = Entry k \<Longrightarrow> ce_failed (sc_channels s ! k)"
  shows "sc_ok (sc_SelectChannel s)"
proof (cases "sc_selecting s")
  case True
  with assms(1) show ?thesis by simp
next
  case idle: False
  show ?thesis
  proof (cases "find_not_failed (sc_channels s)")
    case None
    then have "sc_SelectChannel s = sc_DeferServerError s" using idle by (simp add: sc_SelectChannel_idle)
    moreover have "\<forall>e \<in> set (sc_channels s). ce_failed e" using None by (simp add: find_not_failed_None)
    ultimately show ?thesis using assms by (auto simp: sc_DeferServerError_def sc_ok_def sa_ok_def)
  next
    case (Some k)
    then have "k < length (sc_channels s)" "\<not> ce_failed (sc_channels s ! k)" "\<forall>j < k. ce_failed (sc_channels s ! j)"
      by (simp_all add: find_not_failed_Some)
    moreover have "sc_defer_sub s = NoDefer" using assms(1) calculation by (auto simp: sc_ok_def)
    ultimately show ?thesis using assms idle Some
      by (auto simp: sc_SelectChannel_idle sc_ok_def sa_ok_def nth_list_update all_set_conv_all_nth)
  qed
qed

lemma sc_ok_make: "sc_ok (sc_make info channels :: 'd server_connection)"
proof -
  let ?s = "\<lambda>i. \<lparr>sc_full_connected = False, sc_top_channel = Uninitialised, sc_channels = sc_InitChannels channels, sc_select = None,
        sc_stream_info = i, sc_update_sub = None, sc_out_data_sub = None, sc_defer_sub = NoDefer, sc_events = []\<rparr> :: 'd server_connection"
  have "sc_ok (sc_SelectChannel (?s (info\<lparr>is_writable := False\<rparr>)))"
    by (rule sc_SelectChannel_ok) (auto simp: sc_ok_def sc_InitChannels_def ch_entry_def)
  moreover have "sc_SelectChannel (?s (info\<lparr>is_writable := False\<rparr>)) = sc_SelectChannel (?s info)"
    by (simp add: sc_SelectChannel_def sc_TopChannel_def sc_DeferServerError_def sa_make_def split: option.split)
  ultimately show ?thesis by (simp add: sc_make_def)
qed

lemma sc_mark_failed_ok:
  assumes "sc_ok s" "sc_top_channel s = Entry k"
  defines "s1 \<equiv> s\<lparr>sc_update_sub := None, sc_out_data_sub := None, sc_stream_info := (sc_stream_info s)\<lparr>is_writable := False\<rparr>,
      sc_channels := (sc_channels s)[k := (sc_channels s ! k)\<lparr>ce_failed := True\<rparr>]\<rparr>"
  shows "sc_ok s1" "ce_failed (sc_channels s1 ! k)"
proof -
  have k: "k < length (sc_channels s)" "ce_stream (sc_channels s ! k) \<noteq> None" "sc_selecting s \<longrightarrow> ce_failed (sc_channels s ! k)"
    using assms(1,2) by (auto simp: sc_ok_def)
  then show "ce_failed (sc_channels s1 ! k)" by (simp add: s1_def)
  have "sa_ok s1 a" if "sc_select s = Some a" for a
  proof -
    have a: "sa_ok s a" using assms(1) that by (simp add: sc_ok_def)
    then have "\<not> sa_finished a \<Longrightarrow> sa_top_channel a \<noteq> k" using k(3) that by (auto simp: sa_ok_def sc_selecting_def)
    with a k show ?thesis by (auto simp: sa_ok_def s1_def nth_list_update)
  qed
  then show "sc_ok s1" using assms(1,2) k
    unfolding sc_ok_def s1_def by (auto simp: nth_list_update all_set_conv_all_nth)
qed


lemma sc_ServerError_ok: "sc_ok s \<Longrightarrow> sc_ok (sc_ServerError s)"
  by (auto simp: sc_ok_def sa_ok_def sc_ServerError_def Let_def)

lemma sc_ChannelError_ok:
  assumes "sc_ok s" "sc_ChannelError s = Inr s'"
  shows "sc_ok s'"
proof -
  obtain k where k: "sc_top_channel s = Entry k" using assms(2) by (cases "sc_top_channel s") (auto simp: sc_ChannelError_def)
  let ?s = "s\<lparr>sc_update_sub := None, sc_out_data_sub := None, sc_stream_info := (sc_stream_info s)\<lparr>is_writable := False\<rparr>,
      sc_channels := (sc_channels s)[k := (sc_channels s ! k)\<lparr>ce_failed := True\<rparr>]\<rparr>"
  have "sc_ok ?s" "ce_failed (sc_channels ?s ! k)" using sc_mark_failed_ok [OF assms(1) k] by blast+
  then have "sc_ok (sc_SelectChannel ?s)" "sc_ok (sc_ServerError ?s)"
    using k by (auto intro!: sc_SelectChannel_ok sc_ServerError_ok)
  moreover have "s' = (if sc_full_connected ?s then sc_ServerError ?s else sc_SelectChannel ?s)"
    using assms(2) k by (simp add: sc_ChannelError_def Let_def)
  ultimately show ?thesis by simp
qed

lemma sa_Finish_ok:
  assumes "sc_ok s" "sc_select s = Some a" "sa_task a \<noteq> NoTask"
  shows "sc_ok (sa_Finish s)"
  using assms by (auto simp: sc_ok_def sa_ok_def sa_Finish_def)

lemma sc_ChannelError_select:
  assumes "sc_selecting s" "sc_ChannelError s = Inr s'"
  shows "sc_select s' = sc_select s"
  using assms by (auto simp: sc_ChannelError_def sc_ServerError_def Let_def split: top_channel.splits)

lemma sc_ChannelUpdated_ok:
  assumes "sc_ok s" "sc_select s = Some a" "sa_task a = SelectedTask" "sc_ChannelUpdated (sa_top_channel a) s = Inr s'"
  shows "sc_ok (sa_Finish s')"
proof -
  have a: "sa_ok s a" "\<not> sa_finished a" using assms(1,2,3) by (auto simp: sc_ok_def sa_ok_def)
  have "sc_defer_sub s = NoDefer" using assms(1) a by (auto simp: sc_ok_def sa_ok_def)
  with assms a show ?thesis
    by (auto simp: sc_ChannelUpdated_def Let_def sa_Finish_def sc_ok_def sa_ok_def split: option.splits if_splits)
qed

lemma nth_entry_update: "es[k := f (es ! k)] ! j = (if j = k \<and> k < length es then f (es ! j) else es ! j)"
  by (cases "k < length es") (simp_all add: nth_list_update not_less list_update_beyond)

lemma entry_update_simps [simp]:
  "ce_failed (es[k := (es ! k)\<lparr>ce_stream := x\<rparr>] ! j) = ce_failed (es ! j)"
  "ce_failed (es[k := (es ! k)\<lparr>ce_waiter := w\<rparr>] ! j) = ce_failed (es ! j)"
  "ce_failed (es[k := (es ! k)\<lparr>ce_stream := x, ce_waiter := w\<rparr>] ! j) = ce_failed (es ! j)"
  "ce_waiter (es[k := (es ! k)\<lparr>ce_stream := x\<rparr>] ! j) = ce_waiter (es ! j)"
  "ce_stream (es[k := (es ! k)\<lparr>ce_waiter := w\<rparr>] ! j) = ce_stream (es ! j)"
  "ce_stream (es[k := (es ! k)\<lparr>ce_stream := x\<rparr>] ! j) = (if j = k \<and> k < length es then x else ce_stream (es ! j))"
  "ce_stream (es[k := (es ! k)\<lparr>ce_stream := x, ce_waiter := w\<rparr>] ! j) = (if j = k \<and> k < length es then x else ce_stream (es ! j))"
  by (simp_all add: nth_entry_update [of es k "\<lambda>e. e\<lparr>ce_stream := x\<rparr>"] nth_entry_update [of es k "\<lambda>e. e\<lparr>ce_waiter := w\<rparr>"]
    nth_entry_update [of es k "\<lambda>e. e\<lparr>ce_stream := x, ce_waiter := w\<rparr>"])

lemma sc_ok_stream:
  assumes "sc_ok s"
  shows "sc_ok (ce_update k (\<lambda>e. e\<lparr>ce_stream := Some link\<rparr>) s)"
proof -
  have "sa_ok (ce_update k (\<lambda>e. e\<lparr>ce_stream := Some link\<rparr>) s) a" if "sa_ok s a" for a
    using that by (auto simp: sa_ok_def)
  with assms show ?thesis unfolding sc_ok_def by (simp add: all_set_conv_all_nth)
qed

lemma sc_ok_built:
  assumes "sc_ok s" "sc_select s = Some a" "ce_waiter (sc_channels s ! sa_top_channel a)"
  shows "sc_ok (sa_BuildResult res s)"
proof -
  have a: "sa_ok s a" using assms(1,2) by (simp add: sc_ok_def)
  then have un: "\<not> sa_finished a" "sa_top_channel a < length (sc_channels s)" "sc_selecting s" "\<not> is_writable (sc_stream_info s)"
    using assms(2,3) by (auto simp: sa_ok_def sc_selecting_def)
  have sa: "sa_ok (sa_BuildResult res s) a'" if "sc_select (sa_BuildResult res s) = Some a'" for a'
    using that a un assms(2) by (cases res) (auto simp: sa_BuildResult_def sa_ok_def)
  show ?thesis
  proof (cases res)
    case None
    with sa assms(1,2) un show ?thesis unfolding sc_ok_def by (simp add: sa_BuildResult_def all_set_conv_all_nth)
  next
    case (Some link)
    with sa assms(1,2) un show ?thesis unfolding sc_ok_def by (simp add: sa_BuildResult_def all_set_conv_all_nth)
  qed
qed

lemma sc_OnRead_ok: "sc_ok s \<Longrightarrow> sc_ok (sc_OnRead d s)"
  by (simp add: sc_ok_def sa_ok_def sc_OnRead_def)

lemma sc_ok_deferred: "sc_ok s \<Longrightarrow> sc_ok (s\<lparr>sc_defer_sub := NoDefer\<rparr>)"
  by (simp add: sc_ok_def sa_ok_def)

lemma sc_apply_ok:
  assumes "sc_ok s" "sc_enabled op s" "sc_apply op s = Inr s'"
  shows "sc_ok s'"
proof (cases op)
  case (BuildResult res)
  then obtain a where a: "sc_select s = Some a" "ce_waiter (sc_channels s ! sa_top_channel a)"
    using assms(2) by (auto split: option.splits)
  show ?thesis using sc_ok_built [OF assms(1) a, of res] assms(3) BuildResult by simp
next
  case RunSelectTask
  then obtain a where a: "sc_select s = Some a" "sa_task a \<noteq> NoTask" using assms(2) by (auto split: option.splits)
  show ?thesis
  proof (cases "sa_task a")
    case SelectedTask
    then show ?thesis using sc_ChannelUpdated_ok [OF assms(1) a(1)] a assms(3) RunSelectTask
      by (cases "sc_ChannelUpdated (sa_top_channel a) s") (auto simp: sa_RunTask_def)
  next
    case FailedTask
    then obtain s1 where s1: "sc_ChannelError s = Inr s1" "s' = sa_Finish s1"
      using a assms(3) RunSelectTask by (cases "sc_ChannelError s") (auto simp: sa_RunTask_def)
    have "sa_ok s a" using assms(1) a(1) by (simp add: sc_ok_def)
    then have "sc_selecting s" using a by (simp add: sa_ok_def sc_selecting_def)
    then have "sc_select s1 = Some a" using sc_ChannelError_select [OF _ s1(1)] a(1) by simp
    then show ?thesis using sa_Finish_ok [OF sc_ChannelError_ok [OF assms(1) s1(1)]] a(2) s1(2) by simp
  qed (use a in simp)
next
  case RunDeferred
  then show ?thesis using sc_ServerError_ok [OF sc_ok_deferred [OF assms(1)]] assms(3) by auto
next
  case (StreamState k link)
  let ?s = "ce_update k (\<lambda>e. e\<lparr>ce_stream := Some link\<rparr>) s"
  have "sc_ok ?s" by (rule sc_ok_stream [OF assms(1)])
  then show ?thesis using assms(3) StreamState sc_ChannelError_ok
    by (auto simp: sc_StreamUpdated_def Let_def split: if_splits)
next
  case (StreamData k d)
  then show ?thesis using sc_OnRead_ok [OF assms(1)] assms(1,3) by (auto simp: sc_StreamData_def)
next
  case Restream
  then show ?thesis using assms(1,3) sc_ChannelError_ok by (auto simp: sc_Restream_def)
qed

lemma sc_reach_ok: "sc_reach info channels s \<Longrightarrow> sc_ok s"
  by (induction rule: sc_reach.induct) (auto intro: sc_ok_make sc_apply_ok)


subsection \<open>Correctness\<close>

lemma sc_run_reach: "sc_run ops s = Inr s' \<Longrightarrow> sc_reach info channels s \<Longrightarrow> sc_reach info channels s'"
  by (induction ops arbitrary: s) (auto split: sum.splits if_splits intro: sc_reach_step)

interpretation channel_order: strict_weak_order ch_faster
proof
  show "ch_faster x y \<Longrightarrow> \<not> ch_faster y x" for x y by (auto simp: ch_faster_def split: if_splits)
  show "\<not> ch_faster y x \<Longrightarrow> \<not> ch_faster z y \<Longrightarrow> \<not> ch_faster z x" for x y z
    by (cases "ch_connection_type x"; cases "ch_connection_type y"; cases "ch_connection_type z")
      (auto simp: ch_faster_def split: if_splits)
qed

text \<open>
  (C0) The safety of writing: whenever the connection reports that it is writable, it is linked, \<^verbatim>\<open>Write\<close> passes the data to
  the stream of a channel that has not failed, no select action is at work, and a link error of this stream is listened to; and the
  channels are tried in the order given by the comparison of their connection types, build times and response times.
\<close>

theorem writable_connection_writes:
  assumes "sc_reach info channels s" "is_writable (sc_stream_info s)"
  shows "\<exists>k < length (sc_channels s). sc_Write s = Inr k \<and> \<not> ce_failed (sc_channels s ! k) \<and> sc_update_sub s = Some k \<and>
    si_link_state (sc_stream_info s) = kLinked \<and> \<not> sc_selecting s \<and>
    sorted_wrt (\<lambda>x y. \<not> ch_faster y x) (map ce_channel (sc_InitChannels channels))"
proof -
  have ok: "sc_ok s" by (rule sc_reach_ok [OF assms(1)])
  then obtain k where "sc_top_channel s = Entry k" "\<not> ce_failed (sc_channels s ! k)" "sc_update_sub s = Some k"
    "si_link_state (sc_stream_info s) = kLinked" using assms(2) by (auto simp: sc_ok_def)
  moreover have "map ce_channel (sc_InitChannels channels) = std_sort ch_faster channels"
    by (simp add: sc_InitChannels_def ch_entry_def comp_def)
  ultimately show ?thesis using ok assms(2) channel_order.std_sort_sorted [of channels]
    by (auto simp: sc_ok_def sc_Write_def)
qed

definition sample_channel :: "connection_type \<Rightarrow> nat \<Rightarrow> channel" where
  "sample_channel t n = \<lparr>ch_max_packet_size = 1200, ch_rec_packet_size = 1000, ch_connection_type = t, ch_reliability = kReliable,
     ch_TransportBuildTimeout = n, ch_ResponseTimeout = n\<rparr>"

definition sample_info :: stream_info where
  "sample_info = \<lparr>rec_element_size = 0, max_element_size = 0, is_reliable = False, si_link_state = kUnlinked, is_writable = True\<rparr>"

lemmas sc_eval = sc_make_def sc_SelectChannel_def sc_TopChannel_def sa_make_def sc_InitChannels_def ch_entry_def std_sort_def
  ch_faster_def sample_channel_def sample_info_def sa_BuildResult_def sa_RunTask_def sc_ChannelUpdated_def sc_ChannelError_def
  sa_Finish_def sc_StreamUpdated_def sc_StreamData_def sc_OnRead_def

theorem writable_connection_writes_witness:
  "\<exists>s :: nat server_connection.
     sc_run [BuildResult (Some kLinked), RunSelectTask] (sc_make sample_info [sample_channel kConnectionFull 5]) = Inr s \<and>
     sc_Write s = Inr 0"
proof -
  let ?c = "[sample_channel kConnectionFull 5]"
  let ?run = "sc_run [BuildResult (Some kLinked), RunSelectTask] (sc_make sample_info ?c) :: sc_fault + nat server_connection"
  obtain s where s: "?run = Inr s" "is_writable (sc_stream_info s)" "length (sc_channels s) = 1" by (simp add: sc_eval)
  have "sc_reach sample_info ?c s" by (rule sc_run_reach [OF s(1) sc_reach_make])
  with s show ?thesis using writable_connection_writes [of sample_info ?c s] by auto
qed

text \<open>
  (C0) When the link of the channel in use breaks before any data has arrived, the channel is marked as failed and
  the connection is no longer writable.  If a channel is left, the transport of the first one that has not failed is
  built next and the subscribers are told; otherwise a server error is scheduled, and when it is run the connection reports a link error.
\<close>

theorem link_error_moves_on:
  assumes "sc_reach info channels s" "sc_update_sub s = Some k" "\<not> sc_full_connected s"
  shows "\<exists>s'. sc_apply (StreamState k kLinkError) s = Inr s' \<and> \<not> is_writable (sc_stream_info s') \<and>
    ce_failed (sc_channels s' ! k) \<and>
    (case sc_TopChannel s' of
       Some j \<Rightarrow> j \<noteq> k \<and> (\<forall>i < j. ce_failed (sc_channels s' ! i)) \<and> sc_enabled (BuildResult (Some kLinked)) s' \<and>
                map_option sa_top_channel (sc_select s') = Some j \<and>
                sc_events s' = sc_events s @ [StreamUpdate, ChannelChanged, StreamUpdate]
     | None \<Rightarrow> sc_events s' = sc_events s \<and>
               (\<exists>s''. sc_run [RunDeferred] s' = Inr s'' \<and> si_link_state (sc_stream_info s'') = kLinkError \<and>
                  \<not> is_writable (sc_stream_info s'') \<and> sc_events s'' = sc_events s @ [ServerErrorEvent, StreamUpdate]))"
proof -
  have ok: "sc_ok s" by (rule sc_reach_ok [OF assms(1)])
  then have k: "sc_top_channel s = Entry k" "\<not> sc_selecting s" "k < length (sc_channels s)"
    using assms(2) by (auto simp: sc_ok_def)
  let ?s = "s\<lparr>sc_update_sub := None, sc_out_data_sub := None, sc_stream_info := (sc_stream_info s)\<lparr>is_writable := False\<rparr>,
      sc_channels := (sc_channels s)[k := (sc_channels s ! k)\<lparr>ce_stream := Some kLinkError, ce_failed := True\<rparr>]\<rparr>"
  have step: "sc_apply (StreamState k kLinkError) s = Inr (sc_SelectChannel ?s)"
    using assms(2,3) k by (simp add: sc_StreamUpdated_def sc_ChannelError_def Let_def)
  have idle: "\<not> sc_selecting ?s" using k(2) by simp
  show ?thesis
  proof (cases "find_not_failed (sc_channels ?s)")
    case None
    then have "sc_SelectChannel ?s = sc_DeferServerError ?s" using idle by (simp add: sc_SelectChannel_idle)
    with None step k show ?thesis by (simp add: sc_TopChannel_def sc_DeferServerError_def sc_ServerError_def Let_def)
  next
    case (Some j)
    then have j: "j < length (sc_channels s)" "j \<noteq> k" "\<forall>i < j. ce_failed (sc_channels ?s ! i)" using k(3)
      by (auto simp: find_not_failed_Some nth_list_update)
    let ?s' = "sc_SelectChannel ?s"
    have s': "sc_channels ?s' = (sc_channels ?s)[j := (sc_channels ?s ! j)\<lparr>ce_waiter := True\<rparr>]"
      "sc_select ?s' = Some \<lparr>sa_top_channel = j, sa_task = NoTask, sa_finished = False\<rparr>"
      "\<not> is_writable (sc_stream_info ?s')" "sc_events ?s' = sc_events s @ [StreamUpdate, ChannelChanged, StreamUpdate]"
      using idle Some by (simp_all add: sc_SelectChannel_idle)
    have "find_not_failed (sc_channels ?s') = Some j" using Some j unfolding s'(1) by (simp add: find_not_failed_Some)
    then show ?thesis using step s' j k(3) by (simp add: sc_TopChannel_def nth_list_update)
  qed
qed


theorem link_error_moves_on_witness:
  "\<exists>s s' :: nat server_connection.
     sc_run [BuildResult (Some kLinked), RunSelectTask] (sc_make sample_info [sample_channel kConnectionFull 5, sample_channel kConnectionLess 9]) = Inr s \<and>
     sc_apply (StreamState 0 kLinkError) s = Inr s' \<and> sc_TopChannel s' = Some 1"
proof -
  let ?c = "[sample_channel kConnectionFull 5, sample_channel kConnectionLess 9]"
  let ?run = "sc_run [BuildResult (Some kLinked), RunSelectTask] (sc_make sample_info ?c) :: sc_fault + nat server_connection"
  obtain s where s: "?run = Inr s" "sc_update_sub s = Some 0" "\<not> sc_full_connected s" by (simp add: sc_eval)
  have "sc_reach sample_info ?c s" by (rule sc_run_reach [OF s(1) sc_reach_make])
  from link_error_moves_on [OF this s(2,3)] obtain s' where s': "sc_apply (StreamState 0 kLinkError) s = Inr s'" by blast
  moreover from s' s(1) have "sc_TopChannel s' = Some 1" by (auto simp: sc_eval)
  ultimately show ?thesis using s(1) by blast
qed


subsection \<open>Transports that cannot be built\<close>

text \<open>
  (C0) The member \<^verbatim>\<open>top_channel_\<close> is read before it is written: if the transport of the first channel cannot be built, or
  a restream is requested before it is built, the error handler of the connection reads an uninitialised pointer.
\<close>

theorem first_channel_failure_reads_uninitialised_pointer:
  "sc_run [BuildResult None, RunSelectTask] (sc_make info (c # cs) :: 'd server_connection) = Inl UninitialisedPointer \<and>
   sc_run [Restream] (sc_make info (c # cs) :: 'd server_connection) = Inl UninitialisedPointer"
proof -
  let ?chs = "sc_InitChannels (c # cs)"
  let ?s = "\<lparr>sc_full_connected = False, sc_top_channel = Uninitialised, sc_channels = ?chs, sc_select = None,
        sc_stream_info = info, sc_update_sub = None, sc_out_data_sub = None, sc_defer_sub = NoDefer, sc_events = []\<rparr> :: 'd server_connection"
  have len: "length ?chs = Suc (length cs)" by (simp add: sc_InitChannels_def)
  then have "\<not> ce_failed (?chs ! 0)" by (simp add: sc_InitChannels_def ch_entry_def del: length_map)
  then have top: "find_not_failed ?chs = Some 0" using len by (simp add: find_not_failed_Some)
  have "\<not> sc_selecting ?s" by (simp add: sc_selecting_def)
  note make = sc_SelectChannel_idle [OF this]
  let ?m = "sc_make info (c # cs) :: 'd server_connection"
  have "sc_top_channel ?m = Uninitialised"
    "sc_select ?m = Some \<lparr>sa_top_channel = 0, sa_task = NoTask, sa_finished = False\<rparr>"
    "sc_channels ?m = ?chs[0 := (?chs ! 0)\<lparr>ce_waiter := True\<rparr>]"
    by (simp_all add: sc_make_def make top)
  with len show ?thesis
    by (simp add: sa_BuildResult_def sa_RunTask_def sc_Restream_def sc_ChannelError_def Let_def)
qed

text \<open>
  (C0) A transport that cannot be built stops the connection for good.  The failure is handled while the select
  action counts as running, so no other channel is selected, and it is the channel used before that is marked as failed, not the one
  that could not be built.  Afterwards nothing is under way: no transport is being built, no task is scheduled, no event has
  been emitted and the connection listens to no stream.
\<close>

theorem build_failure_stalls:
  assumes "sc_reach info channels s" "sc_select s = Some a" "sa_task a = FailedTask" "sc_top_channel s = Entry j"
    "\<not> sc_full_connected s"
  shows "\<exists>s'. sc_apply RunSelectTask s = Inr s' \<and> sc_events s' = sc_events s \<and> \<not> is_writable (sc_stream_info s') \<and>
    \<not> ce_failed (sc_channels s' ! sa_top_channel a) \<and> sc_update_sub s' = None \<and>
    \<not> sc_enabled (BuildResult r) s' \<and> \<not> sc_enabled RunSelectTask s' \<and> \<not> sc_enabled RunDeferred s'"
proof -
  have ok: "sc_ok s" by (rule sc_reach_ok [OF assms(1)])
  then have a: "sa_ok s a" using assms(2) by (simp add: sc_ok_def)
  then have un: "\<not> sa_finished a" "\<not> ce_failed (sc_channels s ! sa_top_channel a)" "sa_top_channel a < length (sc_channels s)"
    "\<not> ce_waiter (sc_channels s ! sa_top_channel a)"
    using assms(3) by (auto simp: sa_ok_def)
  then have sel: "sc_selecting s" using assms(2) by (simp add: sc_selecting_def)
  have "ce_failed (sc_channels s ! j)" using ok assms(4) sel by (simp add: sc_ok_def)
  then have neq: "j \<noteq> sa_top_channel a" using un(2) by auto
  have idle: "sc_defer_sub s = NoDefer" using ok un(2,3) by (auto simp: sc_ok_def)
  let ?s = "s\<lparr>sc_update_sub := None, sc_out_data_sub := None, sc_stream_info := (sc_stream_info s)\<lparr>is_writable := False\<rparr>,
      sc_channels := (sc_channels s)[j := (sc_channels s ! j)\<lparr>ce_failed := True\<rparr>]\<rparr>"
  have "sc_ChannelError s = Inr ?s" using assms(4,5) sel by (simp add: sc_ChannelError_def Let_def)
  then have "sc_apply RunSelectTask s = Inr (sa_Finish ?s)" using assms(2,3) by (simp add: sa_RunTask_def)
  then show ?thesis using un neq idle assms(2) by (simp add: sa_Finish_def)
qed

theorem build_failure_stalls_witness:
  "\<exists>s s' :: nat server_connection.
     sc_run [BuildResult (Some kLinked), RunSelectTask, StreamState 0 kLinkError, BuildResult None]
       (sc_make sample_info [sample_channel kConnectionFull 5, sample_channel kConnectionLess 9]) = Inr s \<and>
     sc_apply RunSelectTask s = Inr s' \<and> \<not> sc_enabled RunSelectTask s' \<and> \<not> sc_enabled (BuildResult None) s' \<and> \<not> sc_enabled RunDeferred s'"
proof -
  let ?c = "[sample_channel kConnectionFull 5, sample_channel kConnectionLess 9]"
  let ?run = "sc_run [BuildResult (Some kLinked), RunSelectTask, StreamState 0 kLinkError, BuildResult None] (sc_make sample_info ?c) :: sc_fault + nat server_connection"
  let ?a = "\<lparr>sa_top_channel = 1, sa_task = FailedTask, sa_finished = False\<rparr>"
  obtain s where s: "?run = Inr s" "sc_select s = Some ?a" "sa_task ?a = FailedTask" "sc_top_channel s = Entry 0" "\<not> sc_full_connected s"
    by (simp add: sc_eval)
  have "sc_reach sample_info ?c s" by (rule sc_run_reach [OF s(1) sc_reach_make])
  from build_failure_stalls [OF this s(2-5), of None] s(1) show ?thesis by blast
qed

text \<open>
  (C0) A channel whose transport was never built is never marked as failed, and a channel is only selected when
  the transports of all channels preferred to it were built before: behind a channel that cannot be reached no other channel is tried.
\<close>

theorem unbuilt_channel_blocks_the_rest:
  assumes "sc_reach info channels s" "sc_select s = Some a"
  shows "\<forall>k < length (sc_channels s). ce_stream (sc_channels s ! k) = None \<longrightarrow>
    \<not> ce_failed (sc_channels s ! k) \<and> sa_top_channel a \<le> k"
proof -
  have ok: "sc_ok s" by (rule sc_reach_ok [OF assms(1)])
  then have "sa_ok s a" using assms(2) by (simp add: sc_ok_def)
  with ok show ?thesis unfolding sc_ok_def sa_ok_def by (metis not_le nth_mem)
qed

theorem unbuilt_channel_blocks_the_rest_witness:
  "map_option sa_top_channel (sc_select (sc_make sample_info [sample_channel kConnectionFull 5, sample_channel kConnectionLess 9] :: nat server_connection)) = Some 0"
proof -
  let ?s = "sc_make sample_info [sample_channel kConnectionFull 5, sample_channel kConnectionLess 9] :: nat server_connection"
  obtain a where a: "sc_select ?s = Some a" "0 < length (sc_channels ?s)" "ce_stream (sc_channels ?s ! 0) = None" by (simp add: sc_eval)
  with unbuilt_channel_blocks_the_rest [OF sc_reach_make a(1)] show ?thesis by auto
qed

end
