(* ===== verification/Spec2Isabelle.thy ===== *)
theory Spec2Isabelle
  imports Circular_Buffer Sending_Chunks Receiving_Chunks Safe_Recv Safe_Send Safe_Stream Statistics Packet_Collector Tasks Address Object_Registry Write_Queues Event_List Server_Connection
begin

text \<open>
  Verification of the core of the Aethernet C++ client (\<^verbatim>\<open>aether/\<close>).
\<close>

end
